(* ===== verification/Gaia_Prelude.thy ===== *)
theory Gaia_Prelude
  imports Main "HOL-Library.Word"
begin

text \<open>
  Shared vocabulary of the development: names for the kernel's integer types, the lemma
  collections the component theories feed, and generic facts about words, intervals and
  lists that more than one component uses.  Nothing in this theory models a particular
  source file.
\<close>

unbundle bit_operations_syntax

type_synonym u8 = "8 word"
type_synonym u16 = "16 word"
type_synonym u32 = "32 word"
type_synonym u64 = "64 word"

type_synonym bytes = "u8 list"

text \<open>
  Collections: \<open>pmm_simps\<close> for the frame bitmap, \<open>page_simps\<close> for alignment and
  page-table facts, \<open>wire_simps\<close> for byte-order and packet layout.
\<close>

named_theorems pmm_simps \<open>rewriting the frame bitmap\<close>
named_theorems page_simps \<open>page alignment and page-table entries\<close>
named_theorems wire_simps \<open>byte order and packet layout\<close>

section \<open>Bits\<close>

text \<open>
  \<open>__builtin_ctz\<close>: the index of the lowest set bit, searched upwards from \<open>k\<close> over
  at most \<open>n\<close> positions (the built-in is undefined on zero, where this returns the width).
\<close>

fun ctz_from :: "nat \<Rightarrow> nat \<Rightarrow> 'a::len word \<Rightarrow> nat" where
  "ctz_from 0 k w = k"
| "ctz_from (Suc n) k w = (if bit w k then k else ctz_from n (Suc k) w)"

definition ctz :: "'a::len word \<Rightarrow> nat" where
  "ctz w = ctz_from LENGTH('a) 0 w"

lemma ctz_from_bounds: "k \<le> ctz_from n k w \<and> ctz_from n k w \<le> k + n"
proof (induction n k w rule: ctz_from.induct)
  case (2 n k w)
  then show ?case by (cases "bit w k") auto
qed simp

lemma ctz_from_least: "k \<le> i \<Longrightarrow> i < ctz_from n k w \<Longrightarrow> \<not> bit w i"
proof (induction n k w rule: ctz_from.induct)
  case (2 n k w)
  then show ?case by (cases "i = k") (auto split: if_splits)
qed simp

lemma ctz_from_bit: "ctz_from n k w < k + n \<Longrightarrow> bit w (ctz_from n k w)"
proof (induction n k w rule: ctz_from.induct)
  case (2 n k w)
  then show ?case by (auto split: if_splits)
qed simp

lemma ctz_least: "i < ctz w \<Longrightarrow> \<not> bit w i"
  unfolding ctz_def by (rule ctz_from_least) simp_all

lemma bit_ctz:
  fixes w :: "'a::len word"
  assumes "w \<noteq> 0"
  shows "bit w (ctz w)"
proof -
  from assms obtain i where i: "bit w i"
    by (metis bit_eqI bit_0_eq bot_apply bot_bool_def)
  then have "i < LENGTH('a)" by (rule bit_imp_le_length)
  moreover from i have "\<not> i < ctz w" using ctz_least by blast
  ultimately show ?thesis
    using ctz_from_bit [of "LENGTH('a)" 0 w] by (simp add: ctz_def)
qed

lemma ctz_less_length: "(w :: 'a::len word) \<noteq> 0 \<Longrightarrow> ctz w < LENGTH('a)"
  by (metis bit_ctz bit_imp_le_length)

lemma or_7_nat: "(n::nat) OR 7 = n div 8 * 8 + 7"
proof -
  have "n OR mask 3 = push_bit 3 (drop_bit 3 n) OR mask 3"
    by (rule bit_eqI) (auto simp: bit_simps not_less)
  also have "\<dots> = push_bit 3 (drop_bit 3 n) + mask 3"
    by (rule disjunctive_add [symmetric]) (auto simp: bit_simps)
  finally show ?thesis by (simp add: push_bit_eq_mult drop_bit_eq_div mask_eq_exp_minus_1)
qed

lemma and_single_bit_iff:
  fixes w :: "'a::len word"
  assumes "n < LENGTH('a)"
  shows "w AND push_bit n 1 \<noteq> 0 \<longleftrightarrow> bit w n"
proof
  assume "w AND push_bit n 1 \<noteq> 0"
  then obtain i where "bit (w AND push_bit n 1) i"
    by (metis bit_eqI bit_0_eq bot_apply bot_bool_def)
  then show "bit w n" by (auto simp: bit_simps)
next
  assume "bit w n"
  with assms have "bit (w AND push_bit n 1) n" by (auto simp: bit_simps)
  then show "w AND push_bit n 1 \<noteq> 0" by auto
qed

lemma bit_single_bit_iff: "bit (2 ^ n :: 'a::len word) k \<longleftrightarrow> k = n \<and> n < LENGTH('a)"
  by (auto simp: bit_simps)

lemma bit_0xFF: "k < 8 \<Longrightarrow> bit (0xFF :: u8) k"
proof -
  assume "k < 8"
  then have "bit (mask 8 :: u8) k" by (simp add: bit_mask_iff)
  moreover have "(mask 8 :: u8) = 0xFF" by (simp add: mask_eq_exp_minus_1)
  ultimately show ?thesis by metis
qed

section \<open>Intervals and counting\<close>

lemma find_upt_Some_iff:
  "find P [a..<b] = Some i \<longleftrightarrow> a \<le> i \<and> i < b \<and> P i \<and> (\<forall>j. a \<le> j \<and> j < i \<longrightarrow> \<not> P j)"
proof
  assume "find P [a..<b] = Some i"
  then obtain k where k: "k < length [a..<b]" "P ([a..<b] ! k)" "i = [a..<b] ! k"
      "\<And>j. j < k \<Longrightarrow> \<not> P ([a..<b] ! j)"
    by (auto simp: find_Some_iff)
  then have i: "i = a + k" "i < b" by auto
  have "\<not> P j" if "a \<le> j" "j < i" for j
    using k(4) [of "j - a"] that i by (simp add: nth_upt)
  with k i show "a \<le> i \<and> i < b \<and> P i \<and> (\<forall>j. a \<le> j \<and> j < i \<longrightarrow> \<not> P j)" by auto
next
  assume r: "a \<le> i \<and> i < b \<and> P i \<and> (\<forall>j. a \<le> j \<and> j < i \<longrightarrow> \<not> P j)"
  then show "find P [a..<b] = Some i"
    unfolding find_Some_iff by (intro exI [of _ "i - a"]) auto
qed

lemma find_upt_None_iff: "find P [a..<b] = None \<longleftrightarrow> (\<forall>i. a \<le> i \<and> i < b \<longrightarrow> \<not> P i)"
  by (auto simp: find_None_iff)

lemma find_upt_skip:
  assumes "a \<le> n" and skip: "\<And>j. a \<le> j \<Longrightarrow> j < n \<Longrightarrow> \<not> P j"
  shows "find P [a..<b] = find P [n..<b]"
proof (cases "find P [n..<b]")
  case None
  then have "\<not> P i" if "a \<le> i" "i < b" for i
    using skip that by (cases "i < n") (auto simp: find_upt_None_iff)
  then have "find P [a..<b] = None" by (simp add: find_upt_None_iff)
  with None show ?thesis by simp
next
  case (Some i)
  then have i: "n \<le> i" "i < b" "P i" "\<And>j. n \<le> j \<Longrightarrow> j < i \<Longrightarrow> \<not> P j"
    by (auto simp: find_upt_Some_iff)
  then have "\<not> P j" if "a \<le> j" "j < i" for j
    using skip that by (cases "j < n") auto
  with i assms(1) have "find P [a..<b] = Some i" by (auto simp: find_upt_Some_iff)
  with Some show ?thesis by simp
qed

section \<open>Page alignment\<close>

lemma aligned_iff_dvd: "(t :: u64) AND 4095 = 0 \<longleftrightarrow> 4096 dvd unat t"
proof -
  have "t AND 4095 = take_bit 12 t" by (simp add: take_bit_eq_mask mask_eq_exp_minus_1)
  moreover have "unat (take_bit 12 t) = unat t mod 4096" by (simp only: unsigned_take_bit_eq) (simp add: take_bit_eq_mod)
  ultimately show ?thesis by (metis unat_eq_0 dvd_eq_mod_eq_0)
qed

lemma aligned_unat_add:
  assumes "(t :: u64) AND 4095 = 0" and "unat x < 4096"
  shows "unat (t + x) = unat t + unat x"
proof -
  obtain k where k: "unat t = 4096 * k" using assms(1) by (auto simp: aligned_iff_dvd dvd_def)
  have "unat t < 2 ^ 64" using unsigned_less [of t, where 'a = nat] by simp
  then have "unat t + unat x < 2 ^ 64" using k assms(2) by simp
  then show ?thesis by (simp add: unat_word_ariths)
qed

lemma aligned_cell_inj:
  assumes "(t :: u64) AND 4095 = 0" "t' AND 4095 = 0" "unat x < 4096" "unat y < 4096"
  shows "t + x = t' + y \<longleftrightarrow> t = t' \<and> x = y"
proof
  assume "t + x = t' + y"
  then have e: "unat t + unat x = unat t' + unat y"
    using aligned_unat_add assms by metis
  obtain k k' where "unat t = 4096 * k" "unat t' = 4096 * k'" using assms by (auto simp: aligned_iff_dvd dvd_def)
  with e have "(4096 * k + unat x) mod 4096 = (4096 * k' + unat y) mod 4096" by simp
  with assms(3,4) have "unat x = unat y" by simp
  with e have "unat t = unat t'" by simp
  with \<open>unat x = unat y\<close>
  show "t = t' \<and> x = y" by (simp add: word_unat_eq_iff)
qed simp

lemma aligned_page_iff:
  assumes "(t :: u64) AND 4095 = 0" "p AND 4095 = 0" "unat x < 4096"
  shows "t + x - p < 4096 \<longleftrightarrow> t = p"
proof
  assume *: "t + x - p < 4096"
  define y where "y = t + x - p"
  have "t + x = p + y" by (simp add: y_def)
  moreover have "unat y < 4096" using * by (simp add: y_def word_less_nat_alt)
  ultimately show "t = p" using aligned_cell_inj assms by blast
qed (use assms in \<open>simp add: word_less_nat_alt\<close>)

lemma unat_cell_offset: "i < 512 \<Longrightarrow> unat (8 * of_nat i :: u64) = 8 * i"
  by (simp add: unat_word_ariths unat_of_nat take_bit_eq_mod)

lemma masked_aligned [page_simps]: "((e :: u64) AND 0x000FFFFFFFFFF000) AND 4095 = 0"
  by (simp add: and.assoc)

lemma frame_entry_mask:
  assumes "(a :: u64) AND 4095 = 0" "unat a < 2 ^ 52" "f AND 0x000FFFFFFFFFF000 = 0"
  shows "(a OR f) AND 0x000FFFFFFFFFF000 = a"
proof -
  have "a AND 0xFFFFFFFFFFFFF = a"
  proof -
    have "a AND 0xFFFFFFFFFFFFF = take_bit 52 a" by (simp add: take_bit_eq_mask mask_eq_exp_minus_1)
    also have "\<dots> = a" using assms(2) by (simp add: word_unat_eq_iff unsigned_take_bit_eq take_bit_nat_eq_self_iff del: take_bit_eq_mod)
    finally show ?thesis .
  qed
  moreover have "a AND NOT 4095 = a"
  proof -
    have "a = a AND (4095 OR NOT 4095)" by (simp only: bit.disj_cancel_right and.right_neutral)
    also have "\<dots> = a AND NOT 4095" by (simp only: bit.conj_disj_distrib assms(1) or.left_neutral)
    finally show ?thesis by (rule sym)
  qed
  ultimately have "a AND 0x000FFFFFFFFFF000 = a" 
  proof -
    have "(0xFFFFFFFFFFFFF AND NOT 4095 :: u64) = 0x000FFFFFFFFFF000" by simp
    then have "a AND 0x000FFFFFFFFFF000 = (a AND 0xFFFFFFFFFFFFF) AND NOT 4095" by (simp only: and.assoc)
    also have "\<dots> = a" by (simp only: \<open>a AND 0xFFFFFFFFFFFFF = a\<close> \<open>a AND NOT 4095 = a\<close>)
    finally show ?thesis .
  qed
  with assms(3) show ?thesis by (simp add: bit.conj_disj_distrib2)
qed

text \<open>Rounding down with \<open>& ~mask\<close>.\<close>

lemma and_not_mask_unat:
  fixes w :: "'a::len word"
  shows "unat (w AND NOT (mask k)) = unat w div 2 ^ k * 2 ^ k"
proof -
  have "(w AND mask k) + (w AND NOT (mask k)) = (w AND mask k) OR (w AND NOT (mask k))"
    by (rule disjunctive_add) (simp add: bit_and_iff bit_not_iff)
  also have "\<dots> = w AND (mask k OR NOT (mask k))" by (simp only: bit.conj_disj_distrib)
  also have "\<dots> = w" by (simp only: bit.disj_cancel_right and.right_neutral)
  finally have e: "w AND NOT (mask k) = w - take_bit k w" by (simp only: take_bit_eq_mask) (simp only: eq_diff_eq add.commute)
  have u: "unat (take_bit k w) = unat w mod 2 ^ k" by (simp only: unsigned_take_bit_eq) (simp add: take_bit_eq_mod)
  have "take_bit k w \<le> w" unfolding word_le_nat_alt u by simp
  then have "unat (w - take_bit k w) = unat w - unat w mod 2 ^ k" by (simp only: unat_sub u)
  then show ?thesis unfolding e by (simp only: minus_mod_eq_div_mult)
qed

lemma and_not_15: "unat ((w :: u64) AND NOT 15) = unat w div 16 * 16"
  using and_not_mask_unat [of w 4] by (simp add: mask_eq_exp_minus_1)

lemma and_not_4095: "unat ((w :: u64) AND NOT 4095) = unat w div 4096 * 4096"
  using and_not_mask_unat [of w 12] by (simp add: mask_eq_exp_minus_1)

end
