(* ===== verification/Pmm.thy ===== *)
theory Pmm
  imports Gaia_Prelude
begin

text \<open>
  The physical frame allocator, \<open>kernel/memory/pmm.c\<close>: one bitmap over all RAM, a set bit
  per taken frame, next-fit single-frame allocation, bounded and contiguous allocation for
  low-memory devices, and release.  \<open>pmm_init\<close> (the boot-time construction of the bitmap)
  is in theory \<open>Pmm_Init\<close>, after the page tables it extends.

  Frame numbers are quotients of a 64-bit address by \<open>FRAME_SIZE\<close>, hence below \<open>2^52\<close>;
  arithmetic on them cannot wrap and they are modelled as \<open>nat\<close>.  Addresses and lengths
  stay 64-bit words, since sums such as \<open>base + length\<close> do wrap.
\<close>

section \<open>State and bitmap primitives\<close>

abbreviation FRAME_SIZE :: u64 where "FRAME_SIZE \<equiv> 4096"
abbreviation PMM_GENERAL_ALLOC_BASE :: u64 where "PMM_GENERAL_ALLOC_BASE \<equiv> 0x100000"
abbreviation GENERAL_FIRST :: nat where "GENERAL_FIRST \<equiv> 256" \<comment> \<open>base / FRAME_SIZE\<close>

record pmm =
  bitmap :: bytes
  bitmap_frames :: nat
  usable_frames :: nat
  used_frames :: nat
  next_free_frame :: nat

definition frame_addr :: "nat \<Rightarrow> u64" where
  "frame_addr f = of_nat f * FRAME_SIZE"

definition addr_frame :: "u64 \<Rightarrow> nat" where
  "addr_frame a = unat (a div FRAME_SIZE)"

definition bitmap_set :: "pmm \<Rightarrow> nat \<Rightarrow> pmm" where
  "bitmap_set s f = s\<lparr>bitmap := (bitmap s)[f div 8 := bitmap s ! (f div 8) OR push_bit (f mod 8) 1]\<rparr>"

definition bitmap_clear :: "pmm \<Rightarrow> nat \<Rightarrow> pmm" where
  "bitmap_clear s f = s\<lparr>bitmap := (bitmap s)[f div 8 := bitmap s ! (f div 8) AND NOT (push_bit (f mod 8) 1)]\<rparr>"

definition bitmap_test :: "pmm \<Rightarrow> nat \<Rightarrow> bool" where
  "bitmap_test s f \<longleftrightarrow> bitmap s ! (f div 8) AND push_bit (f mod 8) 1 \<noteq> 0"

text \<open>
  The byte-skipping search.  \<open>first & ~7\<close> is written \<open>first div 8 * 8\<close>; the complemented
  byte is widened to \<open>unsigned\<close> before it is masked, as in the source.
\<close>

function find_free_frame :: "pmm \<Rightarrow> nat \<Rightarrow> nat \<Rightarrow> nat" where
  "find_free_frame s first end =
     (if first < end then
        (let free_bits = (ucast (NOT (bitmap s ! (first div 8))) :: u32) AND push_bit (first mod 8) 0xFF
         in if free_bits \<noteq> 0
            then (let frame = first div 8 * 8 + ctz free_bits
                  in if frame < end then frame else bitmap_frames s)
            else find_free_frame s ((first OR 7) + 1) end)
      else bitmap_frames s)"
  by pat_completeness auto
termination
proof (relation "measure (\<lambda>(s, first, end). end - first)", goal_cases)
  case (2 s first "end" x)
  have "first < (first OR 7) + 1" unfolding or_7_nat by presburger
  with 2 show ?case by simp
qed simp

declare find_free_frame.simps [simp del]

section \<open>Marking regions\<close>

text \<open>
  The loops \<open>for (f = start; f < end && f < bitmap_frames; f++)\<close> of the two marking
  functions visit \<open>[start, min end bitmap_frames)\<close> in order.  The region ends are computed
  in 64-bit arithmetic, wrap-around included.
\<close>

definition use_step :: "nat \<Rightarrow> pmm \<Rightarrow> pmm" where
  "use_step f s = (if \<not> bitmap_test s f
                   then (bitmap_set s f)\<lparr>used_frames := used_frames s + 1\<rparr> else s)"

definition free_step :: "nat \<Rightarrow> pmm \<Rightarrow> pmm" where
  "free_step f s = (if bitmap_test s f
                    then (bitmap_clear s f)\<lparr>used_frames := used_frames s - 1\<rparr> else s)"

definition mark_region_used :: "pmm \<Rightarrow> u64 \<Rightarrow> u64 \<Rightarrow> pmm" where
  "mark_region_used s base len =
     fold use_step [addr_frame base..<min (addr_frame (base + len + FRAME_SIZE - 1)) (bitmap_frames s)] s"

definition mark_region_free :: "pmm \<Rightarrow> u64 \<Rightarrow> u64 \<Rightarrow> pmm" where
  "mark_region_free s base len =
     fold free_step [addr_frame base..<min (addr_frame (base + len)) (bitmap_frames s)] s"

definition pmm_test_reset :: "nat \<Rightarrow> pmm" where
  "pmm_test_reset frame_count =
     \<lparr>bitmap = replicate ((frame_count + 7) div 8) 0xFF, bitmap_frames = frame_count,
      usable_frames = 0, used_frames = frame_count, next_free_frame = GENERAL_FIRST\<rparr>"

definition pmm_test_mark_free :: "pmm \<Rightarrow> u64 \<Rightarrow> u64 \<Rightarrow> pmm" where
  "pmm_test_mark_free s base len =
     (let before = used_frames s; s1 = mark_region_free s base len
      in s1\<lparr>usable_frames := usable_frames s1 + (before - used_frames s1)\<rparr>)"

section \<open>Allocation and release\<close>

definition allocate_frame_at :: "pmm \<Rightarrow> nat \<Rightarrow> u64 \<times> pmm" where
  "allocate_frame_at s f =
     (let s1 = bitmap_set s f;
          s2 = s1\<lparr>used_frames := used_frames s1 + 1\<rparr>;
          n = f + 1
      in (frame_addr f,
          s2\<lparr>next_free_frame := (if n \<ge> bitmap_frames s2 then GENERAL_FIRST else n)\<rparr>))"

text \<open>
  One of the two scan loops of \<open>pmm_alloc_frame\<close>: test the frame at hand, otherwise jump to
  the next free one.  Both callers pass \<open>end \<le> bitmap_frames\<close>; the conjunct makes that
  explicit, because the search reports "none" by returning \<open>bitmap_frames\<close>.
\<close>

function scan_free :: "pmm \<Rightarrow> nat \<Rightarrow> nat \<Rightarrow> nat option" where
  "scan_free s f end =
     (if f < end \<and> end \<le> bitmap_frames s then
        (if \<not> bitmap_test s f then Some f
         else scan_free s (find_free_frame s (f + 1) end) end)
      else None)"
  by pat_completeness auto

lemma find_free_frame_progress:
  "find_free_frame s first end = bitmap_frames s \<or> first \<le> find_free_frame s first end"
proof (induction s first "end" rule: find_free_frame.induct)
  case (1 s first "end")
  let ?fb = "(ucast (NOT (bitmap s ! (first div 8))) :: u32) AND push_bit (first mod 8) 0xFF"
  show ?case
  proof (cases "first < end \<and> ?fb \<noteq> 0")
    case True
    then have "bit ?fb (ctz ?fb)" by (blast intro: bit_ctz)
    then have "first mod 8 \<le> ctz ?fb" by (auto simp: bit_simps)
    then have "first \<le> first div 8 * 8 + ctz ?fb"
      by (metis add_le_cancel_left div_mult_mod_eq)
    with True show ?thesis by (simp add: find_free_frame.simps [of s first] Let_def)
  next
    case False
    show ?thesis
    proof (cases "first < end")
      case True
      with False have "?fb = 0" by simp
      moreover have "first \<le> (first OR 7) + 1" by (simp add: or_7_nat)
      ultimately show ?thesis
        using 1 True by (auto simp: find_free_frame.simps [of s first] Let_def)
    qed (simp add: find_free_frame.simps [of s first])
  qed
qed

termination scan_free
proof (relation "measure (\<lambda>(s, f, end). end - f)", goal_cases)
  case (2 s f "end")
  with find_free_frame_progress [of s "f + 1" "end"] show ?case by auto
qed simp

declare scan_free.simps [simp del]

definition pmm_alloc_frame :: "pmm \<Rightarrow> u64 \<times> pmm" where
  "pmm_alloc_frame s =
     (let first = GENERAL_FIRST;
          start = (if next_free_frame s < first \<or> next_free_frame s \<ge> bitmap_frames s
                   then first else next_free_frame s)
      in case scan_free s start (bitmap_frames s) of
           Some f \<Rightarrow> allocate_frame_at s f
         | None \<Rightarrow>
             (case scan_free s first start of
                Some f \<Rightarrow> allocate_frame_at s f
              | None \<Rightarrow> (0, s)))"

definition pmm_alloc_frame_below :: "pmm \<Rightarrow> u64 \<Rightarrow> u64 \<times> pmm" where
  "pmm_alloc_frame_below s limit =
     (let frames = min (addr_frame limit) (bitmap_frames s);
          first_frame = (if limit > PMM_GENERAL_ALLOC_BASE then GENERAL_FIRST else 0);
          f = find_free_frame s first_frame frames
      in if f < frames then
           (let s1 = bitmap_set s f;
                s2 = s1\<lparr>used_frames := used_frames s1 + 1\<rparr>;
                s3 = (if f \<ge> GENERAL_FIRST
                      then s2\<lparr>next_free_frame :=
                             (if f + 1 \<ge> bitmap_frames s2 then GENERAL_FIRST else f + 1)\<rparr>
                      else s2)
            in (frame_addr f, s3))
         else (0, s))"

text \<open>The marking loop \<open>for (i = start; i < start + n; i++)\<close> of the contiguous allocator.\<close>

fun mark_run :: "pmm \<Rightarrow> nat \<Rightarrow> nat \<Rightarrow> pmm" where
  "mark_run s i 0 = s"
| "mark_run s i (Suc n) =
     (let s1 = bitmap_set s i in mark_run (s1\<lparr>used_frames := used_frames s1 + 1\<rparr>) (Suc i) n)"

text \<open>The run search: \<open>k\<close> frames are left to look at, starting at \<open>f\<close>.\<close>

fun find_run :: "pmm \<Rightarrow> nat \<Rightarrow> nat \<Rightarrow> nat \<Rightarrow> nat \<Rightarrow> nat \<Rightarrow> nat option" where
  "find_run s num_frames f 0 consecutive start_frame = None"
| "find_run s num_frames f (Suc k) consecutive start_frame =
     (if \<not> bitmap_test s f then
        (let start' = (if consecutive = 0 then f else start_frame);
             c' = consecutive + 1
         in if c' = num_frames then Some start'
            else find_run s num_frames (Suc f) k c' start')
      else find_run s num_frames (Suc f) k 0 start_frame)"

definition pmm_alloc_contiguous_below :: "pmm \<Rightarrow> u64 \<Rightarrow> nat \<Rightarrow> u64 \<times> pmm" where
  "pmm_alloc_contiguous_below s limit num_frames =
     (if num_frames = 0 then (0, s)
      else
        (let max_frames = min (addr_frame limit) (bitmap_frames s);
             first_frame = (if limit > PMM_GENERAL_ALLOC_BASE then GENERAL_FIRST else 0)
         in case find_run s num_frames first_frame (max_frames - first_frame) 0 0 of
              None \<Rightarrow> (0, s)
            | Some start_frame \<Rightarrow>
                (let s1 = mark_run s start_frame num_frames;
                     e = start_frame + num_frames;
                     s2 = (if start_frame \<ge> GENERAL_FIRST
                           then s1\<lparr>next_free_frame :=
                                  (if e \<ge> bitmap_frames s1 then GENERAL_FIRST else e)\<rparr>
                           else s1)
                 in (frame_addr start_frame, s2))))"

definition pmm_free_frame :: "pmm \<Rightarrow> u64 \<Rightarrow> pmm" where
  "pmm_free_frame s frame =
     (let f = addr_frame frame
      in if f \<ge> bitmap_frames s then s
         else if bitmap_test s f then
           (let s1 = bitmap_clear s f;
                s2 = s1\<lparr>used_frames := used_frames s1 - 1\<rparr>
            in if f \<ge> GENERAL_FIRST \<and> f < next_free_frame s2
               then s2\<lparr>next_free_frame := f\<rparr> else s2)
         else s)"

text \<open>\<open>for (i = 0; i < num_frames; i++) pmm_free_frame (frame + i * FRAME_SIZE)\<close>.\<close>

fun pmm_free_contiguous :: "pmm \<Rightarrow> u64 \<Rightarrow> nat \<Rightarrow> pmm" where
  "pmm_free_contiguous s frame 0 = s"
| "pmm_free_contiguous s frame (Suc n) = pmm_free_contiguous (pmm_free_frame s frame) (frame + FRAME_SIZE) n"

section \<open>The abstract view: a set of free frames\<close>

definition free_frames :: "pmm \<Rightarrow> nat set" where
  "free_frames s = {f. f < bitmap_frames s \<and> \<not> bitmap_test s f}"

text \<open>
  The invariant: the bitmap has one bit per frame (rounded up to bytes), the counter counts
  the taken ones, the hint never points into the ISA DMA pool, and frame numbers come from
  64-bit addresses.
\<close>

definition pmm_inv :: "pmm \<Rightarrow> bool" where
  "pmm_inv s \<longleftrightarrow> length (bitmap s) = (bitmap_frames s + 7) div 8 \<and> bitmap_frames s \<le> 2 ^ 52
     \<and> used_frames s + card (free_frames s) = bitmap_frames s
     \<and> GENERAL_FIRST \<le> next_free_frame s"

section \<open>Bitmap lemmas\<close>

lemma bitmap_test_iff: "bitmap_test s f \<longleftrightarrow> bit (bitmap s ! (f div 8)) (f mod 8)"
  unfolding bitmap_test_def by (rule and_single_bit_iff) simp

lemma pmm_inv_byte: "pmm_inv s \<Longrightarrow> f < bitmap_frames s \<Longrightarrow> f div 8 < length (bitmap s)"
proof -
  assume i: "pmm_inv s" and "f < bitmap_frames s"
  then have "(f + 8) div 8 \<le> (bitmap_frames s + 7) div 8"
    by (intro div_le_mono) simp
  with i show ?thesis unfolding pmm_inv_def by linarith
qed

lemma same_byte_iff: "f = g \<longleftrightarrow> f div 8 = g div 8 \<and> f mod 8 = (g::nat) mod 8"
  by (metis div_mult_mod_eq)

lemma bitmap_test_set [pmm_simps]:
  assumes "f div 8 < length (bitmap s)"
  shows "bitmap_test (bitmap_set s f) g \<longleftrightarrow> g = f \<or> bitmap_test s g"
proof (cases "g div 8 = f div 8")
  case True
  then have "g = f \<longleftrightarrow> g mod 8 = f mod 8" using same_byte_iff by blast
  moreover have "g mod 8 < 8" by simp
  ultimately show ?thesis
    using True assms by (auto simp: bitmap_test_iff bitmap_set_def bit_single_bit_iff bit_or_iff)
next
  case False
  then show ?thesis by (auto simp: bitmap_test_iff bitmap_set_def)
qed

lemma bitmap_test_clear [pmm_simps]:
  assumes "f div 8 < length (bitmap s)"
  shows "bitmap_test (bitmap_clear s f) g \<longleftrightarrow> g \<noteq> f \<and> bitmap_test s g"
proof (cases "g div 8 = f div 8")
  case True
  then have "g = f \<longleftrightarrow> g mod 8 = f mod 8" using same_byte_iff by blast
  moreover have "g mod 8 < 8" by simp
  ultimately show ?thesis
    using True assms by (auto simp: bitmap_test_iff bitmap_clear_def bit_single_bit_iff bit_and_iff bit_not_iff)
next
  case False
  then show ?thesis by (auto simp: bitmap_test_iff bitmap_clear_def)
qed

lemma bitmap_set_fields [simp]:
  "bitmap_frames (bitmap_set s f) = bitmap_frames s"
  "usable_frames (bitmap_set s f) = usable_frames s"
  "used_frames (bitmap_set s f) = used_frames s"
  "next_free_frame (bitmap_set s f) = next_free_frame s"
  "length (bitmap (bitmap_set s f)) = length (bitmap s)"
  by (simp_all add: bitmap_set_def)

lemma bitmap_clear_fields [simp]:
  "bitmap_frames (bitmap_clear s f) = bitmap_frames s"
  "usable_frames (bitmap_clear s f) = usable_frames s"
  "used_frames (bitmap_clear s f) = used_frames s"
  "next_free_frame (bitmap_clear s f) = next_free_frame s"
  "length (bitmap (bitmap_clear s f)) = length (bitmap s)"
  by (simp_all add: bitmap_clear_def)

lemma bitmap_test_updates [simp]:
  "bitmap_test (s\<lparr>used_frames := n\<rparr>) f = bitmap_test s f"
  "bitmap_test (s\<lparr>next_free_frame := n\<rparr>) f = bitmap_test s f"
  "bitmap_test (s\<lparr>usable_frames := n\<rparr>) f = bitmap_test s f"
  by (simp_all add: bitmap_test_def)

lemma free_frames_updates [simp]:
  "free_frames (s\<lparr>used_frames := n\<rparr>) = free_frames s"
  "free_frames (s\<lparr>next_free_frame := n\<rparr>) = free_frames s"
  "free_frames (s\<lparr>usable_frames := n\<rparr>) = free_frames s"
  by (simp_all add: free_frames_def)

lemma finite_free_frames [simp]: "finite (free_frames s)"
  unfolding free_frames_def by simp

lemma free_frames_bitmap_set:
  "pmm_inv s \<Longrightarrow> f < bitmap_frames s \<Longrightarrow> free_frames (bitmap_set s f) = free_frames s - {f}"
  by (auto simp: free_frames_def pmm_simps pmm_inv_byte)

lemma free_frames_bitmap_clear:
  "pmm_inv s \<Longrightarrow> f < bitmap_frames s \<Longrightarrow> free_frames (bitmap_clear s f) = insert f (free_frames s)"
  by (auto simp: free_frames_def pmm_simps pmm_inv_byte)

section \<open>The byte-skipping search\<close>

lemma free_bits_iff:
  "bit ((ucast (NOT b) :: u32) AND push_bit k 0xFF) i \<longleftrightarrow> k \<le> i \<and> i < 8 \<and> \<not> bit b i"
  for b :: u8
proof -
  have ff: "(0xFF :: u32) = mask 8" by (simp add: mask_eq_exp_minus_1)
  show ?thesis unfolding ff by (auto simp: bit_simps)
qed

text \<open>One byte of the search: either the byte holds the next free frame, or it is skipped.\<close>

lemma byte_hit:
  fixes s first
  defines "fb \<equiv> (ucast (NOT (bitmap s ! (first div 8))) :: u32) AND push_bit (first mod 8) 0xFF"
  assumes "fb \<noteq> 0"
  shows "first \<le> first div 8 * 8 + ctz fb" (is ?ge)
    and "\<not> bitmap_test s (first div 8 * 8 + ctz fb)" (is ?free)
    and "first \<le> j \<Longrightarrow> j < first div 8 * 8 + ctz fb \<Longrightarrow> bitmap_test s j"
proof -
  from assms have b: "first mod 8 \<le> ctz fb" "ctz fb < 8" "\<not> bit (bitmap s ! (first div 8)) (ctz fb)"
    using bit_ctz [of fb] by (auto simp: free_bits_iff)
  show ?ge using b(1) by (metis add_le_cancel_left div_mult_mod_eq)
  show ?free using b by (simp add: bitmap_test_iff)
  show "bitmap_test s j" if j: "first \<le> j" "j < first div 8 * 8 + ctz fb"
  proof -
    have q: "j div 8 = first div 8" using j b(2) by linarith
    then have "j mod 8 < ctz fb" and "first mod 8 \<le> j mod 8"
      using j by (metis add_less_cancel_left div_mult_mod_eq, metis add_le_cancel_left div_mult_mod_eq)
    with ctz_least [of "j mod 8" fb] q show ?thesis
      by (auto simp: fb_def free_bits_iff bitmap_test_iff)
  qed
qed

lemma byte_skip:
  assumes "(ucast (NOT (bitmap s ! (first div 8))) :: u32) AND push_bit (first mod 8) 0xFF = 0"
    and "first \<le> j" and "j < (first OR 7) + 1"
  shows "bitmap_test s j"
proof -
  have q: "j div 8 = first div 8" using assms(2,3) unfolding or_7_nat by linarith
  then have "first mod 8 \<le> j mod 8"
    using assms(2) by (metis add_le_cancel_left div_mult_mod_eq)
  moreover have "\<not> bit ((ucast (NOT (bitmap s ! (first div 8))) :: u32) AND push_bit (first mod 8) 0xFF) (j mod 8)"
    using assms(1) by simp
  ultimately show ?thesis unfolding free_bits_iff by (simp add: bitmap_test_iff q)
qed

text \<open>Equivalence with the obvious linear search over \<open>[first, end)\<close>.\<close>

definition first_free :: "pmm \<Rightarrow> nat \<Rightarrow> nat \<Rightarrow> nat option" where
  "first_free s a b = find (\<lambda>f. \<not> bitmap_test s f) [a..<b]"

lemma find_free_frame_eq:
  "find_free_frame s first end = (case first_free s first end of Some f \<Rightarrow> f | None \<Rightarrow> bitmap_frames s)"
proof (induction s first "end" rule: find_free_frame.induct)
  case (1 s first "end")
  let ?fb = "(ucast (NOT (bitmap s ! (first div 8))) :: u32) AND push_bit (first mod 8) 0xFF"
  let ?f = "first div 8 * 8 + ctz ?fb"
  consider (stop) "\<not> first < end" | (hit) "first < end" "?fb \<noteq> 0" | (skip) "first < end" "?fb = 0"
    by blast
  then show ?case
  proof cases
    case stop
    then show ?thesis by (simp add: find_free_frame.simps [of s first] first_free_def)
  next
    case hit
    note h = byte_hit [OF hit(2)]
    have "first_free s first end = (if ?f < end then Some ?f else None)"
      unfolding first_free_def using h by (auto simp: find_upt_Some_iff find_upt_None_iff)
    with hit show ?thesis by (simp add: find_free_frame.simps [of s first] Let_def)
  next
    case skip
    let ?n = "(first OR 7) + 1"
    have "first_free s first end = first_free s ?n end"
      unfolding first_free_def
      by (rule find_upt_skip) (simp_all add: or_7_nat byte_skip [OF skip(2), unfolded or_7_nat])
    with skip 1 show ?thesis by (simp add: find_free_frame.simps [of s first] Let_def)
  qed
qed

lemma first_free_Some:
  "first_free s a b = Some f \<longleftrightarrow>
     a \<le> f \<and> f < b \<and> \<not> bitmap_test s f \<and> (\<forall>j. a \<le> j \<and> j < f \<longrightarrow> bitmap_test s j)"
  unfolding first_free_def find_upt_Some_iff by simp

lemma first_free_None: "first_free s a b = None \<longleftrightarrow> (\<forall>f. a \<le> f \<and> f < b \<longrightarrow> bitmap_test s f)"
  unfolding first_free_def find_upt_None_iff by simp

lemma scan_free_eq:
  assumes "end \<le> bitmap_frames s"
  shows "scan_free s f end = first_free s f end"
proof (cases "f < end \<and> bitmap_test s f")
  case True
  have cut: "first_free s f end = first_free s (Suc f) end"
    using True by (simp add: first_free_def upt_conv_Cons)
  show ?thesis
  proof (cases "first_free s (Suc f) end")
    case None
    then have "find_free_frame s (Suc f) end = bitmap_frames s"
      by (simp add: find_free_frame_eq)
    with True None cut assms show ?thesis
      by (simp add: scan_free.simps [of s f] scan_free.simps [of s "bitmap_frames s"])
  next
    case (Some g)
    then have "find_free_frame s (Suc f) end = g"
      by (simp add: find_free_frame_eq)
    moreover have "g < end" "\<not> bitmap_test s g" using Some by (simp_all add: first_free_Some)
    ultimately have "scan_free s (find_free_frame s (Suc f) end) end = Some g"
      using assms by (simp add: scan_free.simps [of s g])
    with True Some cut assms show ?thesis
      by (simp add: scan_free.simps [of s f])
  qed
next
  case False
  with assms show ?thesis
    by (auto simp: scan_free.simps [of s f] first_free_def upt_conv_Cons)
qed

section \<open>Frame addresses\<close>

lemma unat_frame_addr: "f < 2 ^ 52 \<Longrightarrow> unat (frame_addr f) = f * 4096"
  unfolding frame_addr_def by (simp add: unat_word_ariths unat_of_nat)

lemma addr_frame_frame_addr [simp]: "f < 2 ^ 52 \<Longrightarrow> addr_frame (frame_addr f) = f"
  using unat_frame_addr [of f] by (simp add: addr_frame_def unat_div)

lemma frame_addr_inj: "f < 2 ^ 52 \<Longrightarrow> g < 2 ^ 52 \<Longrightarrow> frame_addr f = frame_addr g \<longleftrightarrow> f = g"
  by (metis addr_frame_frame_addr)

lemma frame_addr_0 [simp]: "frame_addr 0 = 0"
  by (simp add: frame_addr_def)

lemma frame_addr_eq_0: "f < 2 ^ 52 \<Longrightarrow> frame_addr f = 0 \<longleftrightarrow> f = 0"
  using frame_addr_inj [of f 0] by simp

lemma addr_frame_less: "addr_frame a < 2 ^ 52"
proof -
  have "unat a < 2 ^ 64" using unsigned_less [of a, where 'a = nat] by simp
  then show ?thesis by (simp add: addr_frame_def unat_div less_mult_imp_div_less)
qed

lemma frame_addr_aligned: "frame_addr f AND 4095 = 0"
proof -
  have "frame_addr f = push_bit 12 (of_nat f)"
    by (simp add: frame_addr_def push_bit_eq_mult mult.commute)
  moreover have "push_bit 12 w AND mask 12 = 0" for w :: u64
    by (rule bit_eqI) (auto simp: bit_simps)
  moreover have "(mask 12 :: u64) = 4095" by (simp add: mask_eq_exp_minus_1)
  ultimately show ?thesis by metis
qed

lemma free_framesD:
  "pmm_inv s \<Longrightarrow> f \<in> free_frames s \<Longrightarrow> f < bitmap_frames s \<and> f < 2 ^ 52 \<and> \<not> bitmap_test s f"
  by (auto simp: free_frames_def pmm_inv_def)

section \<open>Allocation and release on the abstract view\<close>

lemma pmm_inv_next: "pmm_inv s \<Longrightarrow> GENERAL_FIRST \<le> n \<Longrightarrow> pmm_inv (s\<lparr>next_free_frame := n\<rparr>)"
  by (simp add: pmm_inv_def)

lemma take_frame:
  assumes "pmm_inv s" and "f \<in> free_frames s"
  defines "s' \<equiv> (bitmap_set s f)\<lparr>used_frames := used_frames s + 1\<rparr>"
  shows "free_frames s' = free_frames s - {f}" and "pmm_inv s'"
proof -
  note f = free_framesD [OF assms(1,2)]
  show fr: "free_frames s' = free_frames s - {f}"
    unfolding s'_def using f free_frames_bitmap_set [OF assms(1)] by simp
  have "card (free_frames s) = Suc (card (free_frames s - {f}))"
    using assms(2) by (intro card.remove) simp_all
  with assms(1) fr show "pmm_inv s'" by (simp add: pmm_inv_def s'_def)
qed

lemma release_frame:
  assumes "pmm_inv s" and "f < bitmap_frames s" and "bitmap_test s f"
  defines "s' \<equiv> (bitmap_clear s f)\<lparr>used_frames := used_frames s - 1\<rparr>"
  shows "free_frames s' = insert f (free_frames s)" and "pmm_inv s'"
proof -
  show fr: "free_frames s' = insert f (free_frames s)"
    unfolding s'_def using free_frames_bitmap_clear [OF assms(1,2)] by simp
  have nin: "f \<notin> free_frames s" using assms(3) by (simp add: free_frames_def)
  have "insert f (free_frames s) \<subseteq> {..<bitmap_frames s}"
    using assms(2) by (auto simp: free_frames_def)
  from card_mono [OF _ this] nin have "Suc (card (free_frames s)) \<le> bitmap_frames s" by simp
  with assms(1) fr nin show "pmm_inv s'" by (simp add: pmm_inv_def s'_def)
qed

lemma allocate_frame_at:
  assumes "pmm_inv s" and "f \<in> free_frames s" and "GENERAL_FIRST \<le> f"
    and "allocate_frame_at s f = (a, s')"
  shows "a = frame_addr f" and "free_frames s' = free_frames s - {f}" and "pmm_inv s'"
proof -
  define n where "n = (if bitmap_frames s \<le> f + 1 then GENERAL_FIRST else f + 1)"
  have n: "GENERAL_FIRST \<le> n" using assms(3) by (simp add: n_def)
  have s': "s' = (bitmap_set s f\<lparr>used_frames := used_frames s + 1\<rparr>)\<lparr>next_free_frame := n\<rparr>"
    and a: "a = frame_addr f"
    using assms(4) by (auto simp: allocate_frame_at_def Let_def n_def)
  show "a = frame_addr f" by (rule a)
  show "free_frames s' = free_frames s - {f}"
    unfolding s' using take_frame(1) [OF assms(1,2)] by simp
  show "pmm_inv s'" unfolding s' using take_frame(2) [OF assms(1,2)] n by (rule pmm_inv_next)
qed

lemma pmm_inv_free_bound: "pmm_inv s \<Longrightarrow> bitmap_frames s \<le> 2 ^ 52"
  by (simp add: pmm_inv_def)

lemma use_step:
  assumes "pmm_inv s" and "f < bitmap_frames s"
  shows "pmm_inv (use_step f s)" and "free_frames (use_step f s) = free_frames s - {f}"
    and "bitmap_frames (use_step f s) = bitmap_frames s"
  using assms take_frame [OF assms(1), of f]
  by (auto simp: use_step_def free_frames_def)

lemma free_step:
  assumes "pmm_inv s" and "f < bitmap_frames s"
  shows "pmm_inv (free_step f s)" and "free_frames (free_step f s) = insert f (free_frames s)"
    and "bitmap_frames (free_step f s) = bitmap_frames s"
  using assms release_frame [OF assms(1), of f]
  by (auto simp: free_step_def free_frames_def)

lemma fold_use_step:
  assumes "pmm_inv s" and "set fs \<subseteq> {..<bitmap_frames s}"
  shows "pmm_inv (fold use_step fs s) \<and> free_frames (fold use_step fs s) = free_frames s - set fs
    \<and> bitmap_frames (fold use_step fs s) = bitmap_frames s"
  using assms by (induction fs arbitrary: s) (auto simp: use_step)

lemma fold_free_step:
  assumes "pmm_inv s" and "set fs \<subseteq> {..<bitmap_frames s}"
  shows "pmm_inv (fold free_step fs s) \<and> free_frames (fold free_step fs s) = free_frames s \<union> set fs
    \<and> bitmap_frames (fold free_step fs s) = bitmap_frames s"
  using assms by (induction fs arbitrary: s) (auto simp: free_step)

lemma mark_region_used:
  assumes "pmm_inv s"
  shows "pmm_inv (mark_region_used s base len)"
    and "free_frames (mark_region_used s base len)
      = free_frames s - {addr_frame base..<addr_frame (base + len + FRAME_SIZE - 1)}"
    and "bitmap_frames (mark_region_used s base len) = bitmap_frames s"
proof -
  let ?fs = "[addr_frame base..<min (addr_frame (base + len + FRAME_SIZE - 1)) (bitmap_frames s)]"
  have "set ?fs \<subseteq> {..<bitmap_frames s}" by auto
  note f = fold_use_step [OF assms this]
  have "free_frames s - set ?fs = free_frames s - {addr_frame base..<addr_frame (base + len + FRAME_SIZE - 1)}"
    by (auto simp: free_frames_def)
  with f show "pmm_inv (mark_region_used s base len)"
    and "free_frames (mark_region_used s base len)
      = free_frames s - {addr_frame base..<addr_frame (base + len + FRAME_SIZE - 1)}"
    and "bitmap_frames (mark_region_used s base len) = bitmap_frames s"
    by (simp_all only: mark_region_used_def)
qed

lemma mark_region_free:
  assumes "pmm_inv s"
  shows "pmm_inv (mark_region_free s base len)"
    and "free_frames (mark_region_free s base len)
      = free_frames s \<union> {addr_frame base..<min (addr_frame (base + len)) (bitmap_frames s)}"
    and "bitmap_frames (mark_region_free s base len) = bitmap_frames s"
proof -
  let ?fs = "[addr_frame base..<min (addr_frame (base + len)) (bitmap_frames s)]"
  have "set ?fs \<subseteq> {..<bitmap_frames s}" by auto
  note f = fold_free_step [OF assms this]
  have "set ?fs = {addr_frame base..<min (addr_frame (base + len)) (bitmap_frames s)}" by simp
  with f show "pmm_inv (mark_region_free s base len)"
    and "free_frames (mark_region_free s base len)
      = free_frames s \<union> {addr_frame base..<min (addr_frame (base + len)) (bitmap_frames s)}"
    and "bitmap_frames (mark_region_free s base len) = bitmap_frames s"
    by (simp_all only: mark_region_free_def)
qed

lemma pmm_test_reset:
  assumes "n \<le> 2 ^ 52"
  shows "pmm_inv (pmm_test_reset n)" and "free_frames (pmm_test_reset n) = {}"
proof -
  have "bitmap_test (pmm_test_reset n) f" if "f < n" for f
  proof -
    have "(f + 8) div 8 \<le> (n + 7) div 8" using that by (intro div_le_mono) simp
    then have "f div 8 < (n + 7) div 8" by linarith
    moreover have "bit (0xFF :: u8) (f mod 8)" by (rule bit_0xFF) simp
    ultimately show ?thesis by (simp add: bitmap_test_iff pmm_test_reset_def)
  qed
  then show e: "free_frames (pmm_test_reset n) = {}"
    by (auto simp: free_frames_def pmm_test_reset_def)
  with assms show "pmm_inv (pmm_test_reset n)"
    by (simp add: pmm_inv_def) (simp add: pmm_test_reset_def)
qed

text \<open>Next-fit as a choice on the abstract view: the hint's tail first, then from 1 MiB up to it.\<close>

definition scan_start :: "pmm \<Rightarrow> nat" where
  "scan_start s = (if next_free_frame s < GENERAL_FIRST \<or> next_free_frame s \<ge> bitmap_frames s
                   then GENERAL_FIRST else next_free_frame s)"

definition next_fit :: "pmm \<Rightarrow> nat option" where
  "next_fit s = (case first_free s (scan_start s) (bitmap_frames s) of
                   Some f \<Rightarrow> Some f
                 | None \<Rightarrow> first_free s GENERAL_FIRST (scan_start s))"

lemma pmm_alloc_frame_next_fit:
  "pmm_alloc_frame s = (case next_fit s of Some f \<Rightarrow> allocate_frame_at s f | None \<Rightarrow> (0, s))"
proof -
  have 1: "scan_free s (scan_start s) (bitmap_frames s) = first_free s (scan_start s) (bitmap_frames s)"
    by (simp add: scan_free_eq)
  have 2: "scan_free s GENERAL_FIRST (scan_start s) = first_free s GENERAL_FIRST (scan_start s)"
  proof (cases "scan_start s = GENERAL_FIRST")
    case True
    then show ?thesis by (simp add: scan_free.simps first_free_def)
  next
    case False
    then have "scan_start s \<le> bitmap_frames s" by (auto simp: scan_start_def split: if_splits)
    then show ?thesis by (rule scan_free_eq)
  qed
  show ?thesis
    unfolding pmm_alloc_frame_def Let_def scan_start_def [symmetric] 1 2 next_fit_def
    by (simp split: option.split)
qed

lemma next_fit_Some:
  assumes "next_fit s = Some f"
  shows "f \<in> free_frames s" and "GENERAL_FIRST \<le> f"
proof -
  have st: "GENERAL_FIRST \<le> scan_start s" "scan_start s \<le> max GENERAL_FIRST (bitmap_frames s)"
    by (auto simp: scan_start_def)
  from assms consider "first_free s (scan_start s) (bitmap_frames s) = Some f"
    | "first_free s GENERAL_FIRST (scan_start s) = Some f"
    by (auto simp: next_fit_def split: option.splits)
  then have "f < bitmap_frames s \<and> \<not> bitmap_test s f \<and> GENERAL_FIRST \<le> f"
    using st by cases (auto simp: first_free_Some)
  then show "f \<in> free_frames s" and "GENERAL_FIRST \<le> f" by (simp_all add: free_frames_def)
qed

lemma next_fit_None: "next_fit s = None \<longleftrightarrow> free_frames s \<inter> {GENERAL_FIRST..} = {}"
proof
  assume "next_fit s = None"
  then have n: "first_free s (scan_start s) (bitmap_frames s) = None"
      "first_free s GENERAL_FIRST (scan_start s) = None"
    by (auto simp: next_fit_def split: option.splits)
  have "bitmap_test s f" if "GENERAL_FIRST \<le> f" "f < bitmap_frames s" for f
    using n that unfolding first_free_None by (cases "f < scan_start s") auto
  then show "free_frames s \<inter> {GENERAL_FIRST..} = {}" by (auto simp: free_frames_def)
next
  assume e: "free_frames s \<inter> {GENERAL_FIRST..} = {}"
  show "next_fit s = None"
  proof (rule ccontr)
    assume "next_fit s \<noteq> None"
    then obtain f where "next_fit s = Some f" by blast
    from next_fit_Some [OF this] e show False by auto
  qed
qed

text \<open>How the bounded allocators move the hint past a run \<open>[f, e)\<close> they took.\<close>

definition bump_hint :: "nat \<Rightarrow> nat \<Rightarrow> pmm \<Rightarrow> pmm" where
  "bump_hint f e t =
     (if GENERAL_FIRST \<le> f
      then t\<lparr>next_free_frame := (if e \<ge> bitmap_frames t then GENERAL_FIRST else e)\<rparr> else t)"

lemma bump_hint:
  "f \<le> e \<Longrightarrow> pmm_inv t \<Longrightarrow> pmm_inv (bump_hint f e t)"
  "free_frames (bump_hint f e t) = free_frames t"
  by (auto simp: bump_hint_def intro!: pmm_inv_next)

section \<open>Contiguous runs\<close>

definition run_at :: "pmm \<Rightarrow> nat \<Rightarrow> nat \<Rightarrow> nat \<Rightarrow> bool" where
  "run_at s n b r \<longleftrightarrow> r + n \<le> b \<and> (\<forall>i<n. \<not> bitmap_test s (r + i))"

lemma find_run_eq:
  assumes "c < n" and "c \<le> f" and "c \<noteq> 0 \<Longrightarrow> st = f - c"
    and "\<And>i. i < c \<Longrightarrow> \<not> bitmap_test s (f - c + i)"
  shows "find_run s n f k c st = find (run_at s n (f + k)) [f - c..<f + k]"
  using assms
proof (induction k arbitrary: f c st)
  case 0
  then have "find (run_at s n f) [f - c..<f] = None"
    by (auto simp: find_upt_None_iff run_at_def)
  then show ?case by simp
next
  case (Suc k)
  show ?case
  proof (cases "bitmap_test s f")
    case True
    have "\<not> run_at s n (f + Suc k) r" if "f - c \<le> r" "r < Suc f" for r
    proof
      assume r: "run_at s n (f + Suc k) r"
      have "f - r < n" using that Suc.prems(1,2) by simp
      with r have "\<not> bitmap_test s (r + (f - r))" unfolding run_at_def by blast
      with that True show False by simp
    qed
    then have "find (run_at s n (f + Suc k)) [f - c..<f + Suc k]
        = find (run_at s n (f + Suc k)) [Suc f..<f + Suc k]"
      by (intro find_upt_skip) auto
    moreover have "find_run s n (Suc f) k 0 st = find (run_at s n (Suc f + k)) [Suc f..<Suc f + k]"
      using Suc.IH [of 0 "Suc f" st] Suc.prems(1) by simp
    ultimately show ?thesis using True by simp
  next
    case False
    have fr: "\<not> bitmap_test s (f - c + i)" if "i < Suc c" for i
      using that Suc.prems(2,4) False by (cases "i = c") auto
    have st: "(if c = 0 then f else st) = f - c" using Suc.prems(3) by simp
    show ?thesis
    proof (cases "Suc c = n")
      case True
      then have "run_at s n (f + Suc k) (f - c)"
        using fr Suc.prems(2) by (auto simp: run_at_def)
      then have "find (run_at s n (f + Suc k)) [f - c..<f + Suc k] = Some (f - c)"
        unfolding find_upt_Some_iff by auto
      with True False st show ?thesis by simp
    next
      case neq: False
      have "find_run s n (Suc f) k (Suc c) (f - c)
          = find (run_at s n (Suc f + k)) [Suc f - Suc c..<Suc f + k]"
        using neq Suc.prems(1,2) fr by (intro Suc.IH) auto
      with neq False st show ?thesis by simp
    qed
  qed
qed

lemma mark_run:
  assumes "pmm_inv s" and "\<And>i. i < n \<Longrightarrow> start + i \<in> free_frames s"
  shows "pmm_inv (mark_run s start n) \<and> free_frames (mark_run s start n) = free_frames s - {start..<start + n}
    \<and> bitmap_frames (mark_run s start n) = bitmap_frames s \<and> next_free_frame (mark_run s start n) = next_free_frame s"
  using assms
proof (induction n arbitrary: s start)
  case (Suc n)
  let ?s = "(bitmap_set s start)\<lparr>used_frames := used_frames s + 1\<rparr>"
  have "start \<in> free_frames s" using Suc.prems(2) [of 0] by simp
  note t = take_frame [OF Suc.prems(1) this]
  have "Suc start + i \<in> free_frames ?s" if "i < n" for i
    using Suc.prems(2) [of "Suc i"] that t(1) by simp
  note ih = Suc.IH [OF t(2) this]
  have "{start..<start + Suc n} = insert start {Suc start..<Suc start + n}" by auto
  with ih t(1) show ?case by auto
qed simp

lemma mark_run_frames: "bitmap_frames (mark_run s start n) = bitmap_frames s"
  by (induction s start n rule: mark_run.induct) (simp_all add: Let_def)

section \<open>The interface the rest of the kernel uses\<close>

text \<open>
  What the heap, the page tables and the user address space rely on: a set of available frame
  bases, from which \<open>alloc\<close> takes one (or fails with 0 and changes nothing) and to which
  \<open>free\<close> returns one.  \<open>managed\<close> are the bases the allocator covers at all.
\<close>

locale frame_allocator =
  fixes alloc :: "'s \<Rightarrow> u64 \<times> 's"
    and free :: "'s \<Rightarrow> u64 \<Rightarrow> 's"
    and avail :: "'s \<Rightarrow> u64 set"
    and managed :: "'s \<Rightarrow> u64 set"
    and inv :: "'s \<Rightarrow> bool"
  assumes alloc_inv: "inv s \<Longrightarrow> inv (snd (alloc s))"
    and free_inv: "inv s \<Longrightarrow> inv (free s a)"
    and alloc_zero: "inv s \<Longrightarrow> fst (alloc s) = 0 \<Longrightarrow> snd (alloc s) = s"
    and alloc_avail: "inv s \<Longrightarrow> fst (alloc s) \<noteq> 0 \<Longrightarrow> fst (alloc s) \<in> avail s"
    and alloc_takes: "inv s \<Longrightarrow> fst (alloc s) \<noteq> 0 \<Longrightarrow> avail (snd (alloc s)) = avail s - {fst (alloc s)}"
    and free_gives: "inv s \<Longrightarrow> a \<in> managed s \<Longrightarrow> avail (free s a) = insert a (avail s)"
    and avail_managed: "inv s \<Longrightarrow> avail s \<subseteq> managed s"
    and alloc_managed: "managed (snd (alloc s)) = managed s"
    and free_managed: "managed (free s a) = managed s"
    and managed_aligned: "a \<in> managed s \<Longrightarrow> a AND 4095 = 0"
begin

lemma alloc_avail_subset: "inv s \<Longrightarrow> avail (snd (alloc s)) \<subseteq> avail s"
  by (cases "fst (alloc s) = 0") (auto simp: alloc_zero alloc_takes)

lemma alloc_gone: "inv s \<Longrightarrow> fst (alloc s) \<noteq> 0 \<Longrightarrow> fst (alloc s) \<notin> avail (snd (alloc s))"
  by (simp add: alloc_takes)

lemma alloc_aligned: "inv s \<Longrightarrow> fst (alloc s) AND 4095 = 0"
proof (cases "fst (alloc s) = 0")
  case False
  assume "inv s"
  with False have "fst (alloc s) \<in> managed s" using alloc_avail avail_managed by blast
  then show ?thesis by (rule managed_aligned)
qed simp

lemma alloc_twice_distinct:
  assumes "inv s" and "alloc s = (a, s1)" and "alloc s1 = (b, s2)" and "a \<noteq> 0" and "b \<noteq> 0"
  shows "a \<noteq> b"
proof -
  have "inv s1" using alloc_inv [OF assms(1)] assms(2) by simp
  then have "b \<in> avail s1" using alloc_avail [of s1] assms(3,5) by simp
  moreover have "a \<notin> avail s1" using alloc_gone [OF assms(1)] assms(2,4) by simp
  ultimately show ?thesis by blast
qed

lemma alloc_free_avail:
  assumes "inv s" and "alloc s = (a, s1)" and "a \<noteq> 0"
  shows "avail (free s1 a) = avail s"
proof -
  have a: "a \<in> avail s" "avail s1 = avail s - {a}" "inv s1" "managed s1 = managed s"
    using alloc_avail [OF assms(1)] alloc_takes [OF assms(1)] alloc_inv [OF assms(1)]
      alloc_managed [of s] assms(2,3) by simp_all
  then have "avail (free s1 a) = insert a (avail s1)"
    using avail_managed [OF assms(1)] by (intro free_gives) auto
  with a show ?thesis by auto
qed

end

definition avail_frames :: "pmm \<Rightarrow> u64 set" where
  "avail_frames s = frame_addr ` free_frames s"

definition managed_frames :: "pmm \<Rightarrow> u64 set" where
  "managed_frames s = {frame_addr f | f. f < bitmap_frames s \<and> f < 2 ^ 52}"

lemma allocate_frame_at_frames: "bitmap_frames (snd (allocate_frame_at s f)) = bitmap_frames s"
  by (simp add: allocate_frame_at_def Let_def)

lemma pmm_alloc_frame_frames: "bitmap_frames (snd (pmm_alloc_frame s)) = bitmap_frames s"
  by (simp add: pmm_alloc_frame_next_fit allocate_frame_at_frames split: option.split)

lemma pmm_alloc_frame_cases:
  assumes "pmm_inv s"
  obtains (none) "pmm_alloc_frame s = (0, s)" "free_frames s \<inter> {GENERAL_FIRST..} = {}"
  | (some) f s' where "pmm_alloc_frame s = (frame_addr f, s')" "next_fit s = Some f" "f \<in> free_frames s"
      "GENERAL_FIRST \<le> f" "frame_addr f \<noteq> 0" "free_frames s' = free_frames s - {f}" "pmm_inv s'"
proof (cases "next_fit s")
  case None
  with that(1) show ?thesis by (simp add: pmm_alloc_frame_next_fit next_fit_None)
next
  case (Some f)
  note f = next_fit_Some [OF Some]
  obtain a s' where "allocate_frame_at s f = (a, s')" by fastforce
  note r = this allocate_frame_at [OF assms f this]
  have "frame_addr f \<noteq> 0" using free_framesD [OF assms f(1)] f(2) by (simp add: frame_addr_eq_0)
  with that(2) Some f r show ?thesis by (simp add: pmm_alloc_frame_next_fit)
qed

lemma pmm_free_frame_effect:
  assumes "pmm_inv s"
  shows "pmm_inv (pmm_free_frame s a)"
    and "free_frames (pmm_free_frame s a)
      = (if addr_frame a < bitmap_frames s then insert (addr_frame a) (free_frames s) else free_frames s)"
    and "bitmap_frames (pmm_free_frame s a) = bitmap_frames s"
  using assms release_frame [OF assms, of "addr_frame a"]
  by (auto simp: pmm_free_frame_def Let_def free_frames_def intro!: pmm_inv_next)

lemma frame_addr_image_remove:
  assumes "pmm_inv s" and "f \<in> free_frames s"
  shows "frame_addr ` (free_frames s - {f}) = frame_addr ` free_frames s - {frame_addr f}"
proof -
  have "inj_on frame_addr (free_frames s)"
    using free_framesD [OF assms(1)] by (auto simp: inj_on_def frame_addr_inj)
  with assms(2) show ?thesis by (auto simp: inj_on_def)
qed

interpretation pm: frame_allocator pmm_alloc_frame pmm_free_frame avail_frames managed_frames pmm_inv
proof unfold_locales
  fix s a
  show "managed_frames (snd (pmm_alloc_frame s)) = managed_frames s"
    by (simp add: managed_frames_def pmm_alloc_frame_frames)
  show "managed_frames (pmm_free_frame s a) = managed_frames s"
    by (simp add: managed_frames_def pmm_free_frame_def Let_def)
  show "a \<in> managed_frames s \<Longrightarrow> a AND 4095 = 0"
    by (auto simp: managed_frames_def frame_addr_aligned)
next
  fix s a assume i: "pmm_inv s"
  show "pmm_inv (snd (pmm_alloc_frame s))" using i by (rule pmm_alloc_frame_cases) (simp_all add: i)
  show "pmm_inv (pmm_free_frame s a)" by (rule pmm_free_frame_effect [OF i])
  show "avail_frames s \<subseteq> managed_frames s"
    using free_framesD [OF i] by (auto simp: avail_frames_def managed_frames_def)
  show "avail_frames (pmm_free_frame s a) = insert a (avail_frames s)" if "a \<in> managed_frames s"
    using that by (auto simp: avail_frames_def managed_frames_def pmm_free_frame_effect [OF i])
  show "snd (pmm_alloc_frame s) = s" if "fst (pmm_alloc_frame s) = 0"
    using i that by (cases rule: pmm_alloc_frame_cases) auto
  show "fst (pmm_alloc_frame s) \<in> avail_frames s" if "fst (pmm_alloc_frame s) \<noteq> 0"
    using i that by (cases rule: pmm_alloc_frame_cases) (auto simp: avail_frames_def)
  show "avail_frames (snd (pmm_alloc_frame s)) = avail_frames s - {fst (pmm_alloc_frame s)}"
    if "fst (pmm_alloc_frame s) \<noteq> 0"
    using i that
    by (cases rule: pmm_alloc_frame_cases) (auto simp: avail_frames_def frame_addr_image_remove [OF i])
qed

section \<open>Properties of the frame allocator\<close>

text \<open>
  C2. \<open>find_free_frame\<close>, which skips fully occupied bytes of the bitmap and masks the partial
  first byte, returns exactly what a frame-by-frame search of \<open>[first, end)\<close> returns, and
  \<open>bitmap_frames\<close> when the interval holds no free frame.
\<close>

theorem find_free_frame_linear:
  "find_free_frame s first end =
     (case find (\<lambda>f. \<not> bitmap_test s f) [first..<end] of Some f \<Rightarrow> f | None \<Rightarrow> bitmap_frames s)"
  using find_free_frame_eq by (simp add: first_free_def)

text \<open>
  C1. \<open>pmm_alloc_frame\<close> on a well-formed state: it fails (returning 0 and changing nothing)
  only when no frame at or above 1 MiB is free; otherwise it returns the base of the next-fit
  frame, a frame that was free, which leaves the free set and nothing else does.
\<close>

theorem pmm_alloc_frame_correct:
  assumes "pmm_inv s" and "pmm_alloc_frame s = (a, s')"
  shows "pmm_inv s' \<and>
    (if a = 0 then s' = s \<and> free_frames s \<inter> {GENERAL_FIRST..} = {}
     else \<exists>f. next_fit s = Some f \<and> f \<in> free_frames s \<and> GENERAL_FIRST \<le> f
            \<and> a = frame_addr f \<and> free_frames s' = free_frames s - {f})"
  using assms(1)
proof (cases rule: pmm_alloc_frame_cases)
  case none
  with assms show ?thesis by simp
next
  case (some f s1)
  with assms show ?thesis by simp
qed

text \<open>
  C3. \<open>pmm_alloc_frame_below\<close> returns the lowest free frame under the limit, never dipping into
  the ISA DMA pool below 1 MiB unless the limit itself is at or below 1 MiB; it fails only when
  there is no such frame.
\<close>

theorem pmm_alloc_frame_below_correct:
  assumes "pmm_inv s" and "pmm_alloc_frame_below s limit = (a, s')"
    and lo_def: "lo = (if limit > PMM_GENERAL_ALLOC_BASE then GENERAL_FIRST else 0)"
  shows "pmm_inv s' \<and>
    (if free_frames s \<inter> {lo..<addr_frame limit} = {} then a = 0 \<and> s' = s
     else let f = Min (free_frames s \<inter> {lo..<addr_frame limit})
          in a = frame_addr f \<and> free_frames s' = free_frames s - {f})"
proof -
  let ?n = "min (addr_frame limit) (bitmap_frames s)"
  have set: "free_frames s \<inter> {lo..<addr_frame limit} = {f. lo \<le> f \<and> f < ?n \<and> \<not> bitmap_test s f}"
    by (auto simp: free_frames_def)
  show ?thesis
  proof (cases "first_free s lo ?n")
    case None
    then have "free_frames s \<inter> {lo..<addr_frame limit} = {}"
      unfolding set by (auto simp: first_free_None)
    moreover have "find_free_frame s lo ?n = bitmap_frames s"
      using None by (simp add: find_free_frame_eq)
    ultimately show ?thesis using assms by (simp add: pmm_alloc_frame_below_def Let_def)
  next
    case (Some f)
    then have f: "lo \<le> f" "f < ?n" "\<not> bitmap_test s f" "\<And>j. lo \<le> j \<Longrightarrow> j < f \<Longrightarrow> bitmap_test s j"
      by (auto simp: first_free_Some)
    then have free: "f \<in> free_frames s" by (simp add: free_frames_def)
    have ff: "find_free_frame s lo ?n = f" using Some by (simp add: find_free_frame_eq)
    from assms(2) have r: "(frame_addr f, bump_hint f (f + 1) ((bitmap_set s f)\<lparr>used_frames := used_frames s + 1\<rparr>)) = (a, s')"
      unfolding pmm_alloc_frame_below_def Let_def lo_def [symmetric] ff bump_hint_def
      using f(2) by (auto split: if_splits)
    have "Min {f. lo \<le> f \<and> f < ?n \<and> \<not> bitmap_test s f} = f"
      using f by (intro Min_eqI) (auto simp: not_less [symmetric])
    moreover have "pmm_inv s' \<and> free_frames s' = free_frames s - {f}"
      using r take_frame [OF assms(1) free] bump_hint [of f "f + 1"] by auto
    ultimately show ?thesis using r f unfolding set Let_def by auto
  qed
qed

lemma contiguous_below_effect:
  assumes "pmm_inv s" and "0 < n" and "pmm_alloc_contiguous_below s limit n = (a, s')"
    and lo_def: "lo = (if limit > PMM_GENERAL_ALLOC_BASE then GENERAL_FIRST else 0)"
  shows "pmm_inv s' \<and>
    (case find (\<lambda>r. {r..<r + n} \<subseteq> free_frames s \<and> r + n \<le> addr_frame limit) [lo..<addr_frame limit] of
       None \<Rightarrow> a = 0 \<and> s' = s
     | Some r \<Rightarrow> a = frame_addr r \<and> free_frames s' = free_frames s - {r..<r + n})"
proof -
  let ?b = "min (addr_frame limit) (bitmap_frames s)"
  let ?P = "\<lambda>r. {r..<r + n} \<subseteq> free_frames s \<and> r + n \<le> addr_frame limit"
  have P: "?P r \<longleftrightarrow> run_at s n (lo + (?b - lo)) r" if "lo \<le> r" for r
  proof
    assume p: "?P r"
    have fr: "\<not> bitmap_test s (r + i)" if "i < n" for i
    proof -
      have "r + i \<in> free_frames s" using p that by auto
      then show ?thesis by (simp add: free_frames_def)
    qed
    have "r + (n - 1) \<in> free_frames s" using p \<open>0 < n\<close> by auto
    then have "r + n \<le> bitmap_frames s" by (auto simp: free_frames_def)
    with fr p that show "run_at s n (lo + (?b - lo)) r" by (auto simp: run_at_def)
  next
    assume r: "run_at s n (lo + (?b - lo)) r"
    with that \<open>0 < n\<close> have b: "r + n \<le> ?b" by (auto simp: run_at_def)
    have "j \<in> free_frames s" if "r \<le> j" "j < r + n" for j
    proof -
      have "j - r < n" using that by simp
      with r have "\<not> bitmap_test s (r + (j - r))" unfolding run_at_def by blast
      with that b show ?thesis by (simp add: free_frames_def)
    qed
    with b show "?P r" by auto
  qed
  have run: "find_run s n lo (?b - lo) 0 0 = find (run_at s n (lo + (?b - lo))) [lo..<lo + (?b - lo)]"
    using find_run_eq [of 0 n lo 0 s "?b - lo"] \<open>0 < n\<close> by simp
  show ?thesis
  proof (cases "find_run s n lo (?b - lo) 0 0")
    case None
    then have no: "\<not> run_at s n (lo + (?b - lo)) r" if "lo \<le> r" for r
      using run that \<open>0 < n\<close> by (cases "r < lo + (?b - lo)") (auto simp: find_upt_None_iff run_at_def)
    have "find ?P [lo..<addr_frame limit] = None"
      using P no by (auto simp: find_upt_None_iff)
    moreover have "a = 0 \<and> s' = s"
      using None assms(2,3) lo_def by (auto simp: pmm_alloc_contiguous_below_def Let_def)
    ultimately show ?thesis using assms(1) by simp
  next
    case (Some r)
    then have r: "lo \<le> r" "run_at s n (lo + (?b - lo)) r"
        "\<And>j. lo \<le> j \<Longrightarrow> j < r \<Longrightarrow> \<not> run_at s n (lo + (?b - lo)) j"
      unfolding run by (auto simp: find_upt_Some_iff)
    have pr: "?P r" using P r(1,2) by blast
    moreover have "\<not> ?P j" if "lo \<le> j" "j < r" for j using P r(3) that by blast
    ultimately have f: "find ?P [lo..<addr_frame limit] = Some r"
      using r(1) \<open>0 < n\<close> unfolding find_upt_Some_iff by auto
    have "r + i \<in> free_frames s" if "i < n" for i using pr that by auto
    note m = mark_run [OF assms(1) this]
    have "(frame_addr r, bump_hint r (r + n) (mark_run s r n)) = (a, s')"
      using assms(2,3) unfolding pmm_alloc_contiguous_below_def Let_def lo_def [symmetric] Some bump_hint_def
      by simp
    with m f bump_hint [of r "r + n"] show ?thesis by auto
  qed
qed

text \<open>
  C4. \<open>pmm_alloc_contiguous_below\<close> with a positive count returns the lowest run of that many
  consecutive free frames inside the permitted window and takes exactly that run; it fails
  only when the window holds no such run.
\<close>

theorem pmm_alloc_contiguous_below_correct:
  assumes "pmm_inv s" and "0 < n" and "pmm_alloc_contiguous_below s limit n = (a, s')"
    and "lo = (if limit > PMM_GENERAL_ALLOC_BASE then GENERAL_FIRST else 0)"
  shows "pmm_inv s' \<and>
    (case find (\<lambda>r. {r..<r + n} \<subseteq> free_frames s \<and> r + n \<le> addr_frame limit) [lo..<addr_frame limit] of
       None \<Rightarrow> a = 0 \<and> s' = s
     | Some r \<Rightarrow> a = frame_addr r \<and> free_frames s' = free_frames s - {r..<r + n})"
  using assms by (rule contiguous_below_effect)

lemma frame_addr_Suc: "frame_addr r + FRAME_SIZE = frame_addr (Suc r)"
  by (simp add: frame_addr_def algebra_simps)

lemma pmm_free_contiguous_effect:
  assumes "pmm_inv s" and "r + n \<le> bitmap_frames s"
  shows "pmm_inv (pmm_free_contiguous s (frame_addr r) n)
    \<and> free_frames (pmm_free_contiguous s (frame_addr r) n) = free_frames s \<union> {r..<r + n}"
  using assms
proof (induction n arbitrary: s r)
  case (Suc n)
  have r: "r < bitmap_frames s" "r < 2 ^ 52"
    using Suc.prems(2) pmm_inv_free_bound [OF Suc.prems(1)] by simp_all
  note e = pmm_free_frame_effect [OF Suc.prems(1), of "frame_addr r"]
  have "Suc r + n \<le> bitmap_frames (pmm_free_frame s (frame_addr r))" using Suc.prems(2) e(3) by simp
  note ih = Suc.IH [OF e(1) this]
  have "{r..<r + Suc n} = insert r {Suc r..<Suc r + n}" by auto
  with ih e r show ?case by (simp add: frame_addr_Suc)
qed simp

text \<open>
  C5. Releasing a frame makes exactly that frame available again, releasing it twice is the
  same as releasing it once (the bitmap absorbs the double free and the counters stay right),
  and an address beyond the bitmap is ignored.
\<close>

theorem pmm_free_frame_correct:
  assumes "pmm_inv s"
  shows "pmm_inv (pmm_free_frame s a) \<and>
    free_frames (pmm_free_frame s a) =
      (if addr_frame a < bitmap_frames s then insert (addr_frame a) (free_frames s) else free_frames s) \<and>
    pmm_free_frame (pmm_free_frame s a) a = pmm_free_frame s a"
proof -
  note e = pmm_free_frame_effect [OF assms, of a]
  have "pmm_free_frame t a = t" if "addr_frame a < bitmap_frames t \<longrightarrow> addr_frame a \<in> free_frames t" for t
    using that by (auto simp: pmm_free_frame_def Let_def free_frames_def)
  with e show ?thesis by simp
qed

text \<open>
  C6. Round trip: a run obtained from \<open>pmm_alloc_contiguous_below\<close> and handed back with
  \<open>pmm_free_contiguous\<close> restores the set of free frames.
\<close>

theorem pmm_contiguous_roundtrip:
  assumes "pmm_inv s" and "0 < n" and "pmm_alloc_contiguous_below s limit n = (a, s')" and "a \<noteq> 0"
  shows "pmm_inv (pmm_free_contiguous s' a n) \<and> free_frames (pmm_free_contiguous s' a n) = free_frames s"
proof -
  let ?lo = "if limit > PMM_GENERAL_ALLOC_BASE then GENERAL_FIRST else 0"
  let ?P = "\<lambda>r. {r..<r + n} \<subseteq> free_frames s \<and> r + n \<le> addr_frame limit"
  note c = contiguous_below_effect [OF assms(1-3) refl]
  with assms(4) obtain r where r: "find ?P [?lo..<addr_frame limit] = Some r"
      "a = frame_addr r" "free_frames s' = free_frames s - {r..<r + n}" "pmm_inv s'"
    by (auto split: option.splits)
  from r(1) have sub: "{r..<r + n} \<subseteq> free_frames s" unfolding find_upt_Some_iff by blast
  then have "r + (n - 1) \<in> free_frames s" using assms(2) by auto
  then have "r + n \<le> bitmap_frames s" by (auto simp: free_frames_def)
  moreover have "bitmap_frames s' = bitmap_frames s"
    using assms(3) mark_run_frames [of s] by (auto simp: pmm_alloc_contiguous_below_def Let_def split: if_splits option.splits)
  ultimately show ?thesis
    using pmm_free_contiguous_effect [OF r(4), of r n] r(2,3) sub by auto
qed

section \<open>Witnesses\<close>

text \<open>A 264-frame machine whose free frames are 256 and 257 (the two pages at 1 MiB).\<close>

definition pmm_w :: pmm where
  "pmm_w = pmm_test_mark_free (pmm_test_reset 264) 0x100000 0x2000"

lemma pmm_w_state: "pmm_inv pmm_w" "free_frames pmm_w = {256, 257}" "bitmap_frames pmm_w = 264"
proof -
  have i: "pmm_inv (pmm_test_reset 264)" and e: "free_frames (pmm_test_reset 264) = {}"
    by (rule pmm_test_reset; simp)+
  note m = mark_region_free [OF i, of "0x100000" "0x2000"]
  have "bitmap_frames (pmm_test_reset 264) = 264" by (simp add: pmm_test_reset_def)
  with m e show "pmm_inv pmm_w" "free_frames pmm_w = {256, 257}" "bitmap_frames pmm_w = 264"
    by (auto simp: pmm_w_def pmm_test_mark_free_def Let_def addr_frame_def pmm_inv_def)
qed

lemma fold_free_step_hint: "next_free_frame (fold free_step fs s) = next_free_frame s"
  by (induction fs arbitrary: s) (simp_all add: free_step_def)

lemma pmm_w_next_fit: "next_fit pmm_w = Some 256"
proof -
  have "next_free_frame pmm_w = 256"
    by (simp add: pmm_w_def pmm_test_mark_free_def mark_region_free_def fold_free_step_hint Let_def)
      (simp add: pmm_test_reset_def)
  then have "scan_start pmm_w = 256" by (simp add: scan_start_def pmm_w_state)
  moreover have "\<not> bitmap_test pmm_w 256" using pmm_w_state(2) by (auto simp: free_frames_def)
  then have "first_free pmm_w 256 264 = Some 256" unfolding first_free_Some by auto
  ultimately show ?thesis by (simp add: next_fit_def pmm_w_state)
qed

lemma pmm_w_window: "free_frames pmm_w \<inter> {256..<addr_frame 0x200000} = {256, 257}"
  by (auto simp: pmm_w_state addr_frame_def)

lemma pmm_w_run:
  "find (\<lambda>r. {r..<r + 2} \<subseteq> free_frames pmm_w \<and> r + 2 \<le> addr_frame 0x200000) [256..<addr_frame 0x200000] = Some 256"
  unfolding find_upt_Some_iff by (auto simp: pmm_w_state addr_frame_def)

theorem pmm_alloc_frame_witness:
  "pmm_inv pmm_w \<and> pmm_alloc_frame pmm_w = (0x100000, snd (pmm_alloc_frame pmm_w))
   \<and> free_frames (snd (pmm_alloc_frame pmm_w)) = {257}"
proof -
  have "fst (pmm_alloc_frame pmm_w) = frame_addr 256"
    by (simp add: pmm_alloc_frame_next_fit pmm_w_next_fit allocate_frame_at_def Let_def)
  then have a: "fst (pmm_alloc_frame pmm_w) = 0x100000" by (simp add: frame_addr_def)
  with pmm_alloc_frame_correct [OF pmm_w_state(1) surjective_pairing]
  have "free_frames (snd (pmm_alloc_frame pmm_w)) = free_frames pmm_w - {256}"
    by (auto simp: pmm_w_next_fit)
  with a pmm_w_state show ?thesis by (auto intro: prod_eqI)
qed

theorem pmm_alloc_frame_below_witness:
  "pmm_inv pmm_w \<and> fst (pmm_alloc_frame_below pmm_w 0x200000) = 0x100000
   \<and> free_frames (snd (pmm_alloc_frame_below pmm_w 0x200000)) = {257}"
  using pmm_alloc_frame_below_correct [OF pmm_w_state(1) surjective_pairing, of 256 "0x200000"]
  unfolding pmm_w_window by (auto simp: Let_def frame_addr_def pmm_w_state)

theorem pmm_alloc_contiguous_below_witness:
  "pmm_inv pmm_w \<and> fst (pmm_alloc_contiguous_below pmm_w 0x200000 2) = 0x100000
   \<and> free_frames (snd (pmm_alloc_contiguous_below pmm_w 0x200000 2)) = {}"
  using pmm_alloc_contiguous_below_correct [OF pmm_w_state(1) _ surjective_pairing refl, of 2 "0x200000"]
    pmm_w_state pmm_w_run
  by (auto simp: frame_addr_def)

theorem pmm_free_frame_witness:
  "pmm_inv pmm_w \<and> free_frames (pmm_free_frame pmm_w 0x102000) = {256, 257, 258}"
  using pmm_free_frame_correct [OF pmm_w_state(1), of "0x102000"] pmm_w_state
  by (auto simp: addr_frame_def)

theorem pmm_contiguous_roundtrip_witness:
  "fst (pmm_alloc_contiguous_below pmm_w 0x200000 2) \<noteq> 0 \<and>
   free_frames (pmm_free_contiguous (snd (pmm_alloc_contiguous_below pmm_w 0x200000 2))
     (fst (pmm_alloc_contiguous_below pmm_w 0x200000 2)) 2) = {256, 257}"
proof -
  have a: "fst (pmm_alloc_contiguous_below pmm_w 0x200000 2) = frame_addr 256"
    using contiguous_below_effect [OF pmm_w_state(1) _ surjective_pairing refl, of 2 "0x200000"] pmm_w_run
    by simp
  then have "fst (pmm_alloc_contiguous_below pmm_w 0x200000 2) \<noteq> 0" by (simp add: frame_addr_eq_0)
  with pmm_contiguous_roundtrip [OF pmm_w_state(1) _ surjective_pairing, of 2 "0x200000"] pmm_w_state
  show ?thesis by simp
qed

end
