(* ===== verification/Vmm.thy ===== *)
theory Vmm
  imports Pmm
begin

text \<open>
  Long-mode four-level paging, \<open>kernel/memory/vmm.c\<close>, over an explicit physical memory.
  Tables are reached through the higher-half direct map, so a \<open>u64 *\<close> to a table is
  represented by the table's physical address (\<open>phys_to_virt\<close> and \<open>virt_to_phys\<close> of
  \<open>hhdm.h\<close> are mutually inverse offsets).  The TLB is not modelled: \<open>invlpg\<close> has no
  counterpart here.
\<close>

section \<open>Machine state\<close>

text \<open>Physical memory as 8-byte cells, the frame allocator, and the active page-table register.\<close>

record mach =
  pmm_st :: pmm
  pmem :: "u64 \<Rightarrow> u64"
  cr3 :: u64

abbreviation VMM_PRESENT :: u64 where "VMM_PRESENT \<equiv> 0x1"
abbreviation VMM_WRITE :: u64 where "VMM_WRITE \<equiv> 0x2"
abbreviation VMM_USER :: u64 where "VMM_USER \<equiv> 0x4"
abbreviation VMM_PS :: u64 where "VMM_PS \<equiv> 0x80"
abbreviation VMM_SHARED :: u64 where "VMM_SHARED \<equiv> 0x200"
abbreviation VMM_NX :: u64 where "VMM_NX \<equiv> 0x8000000000000000"
abbreviation VMM_ADDR_MASK :: u64 where "VMM_ADDR_MASK \<equiv> 0x000FFFFFFFFFF000"

definition HHDM_BASE :: u64 where "HHDM_BASE = 0xffff800000000000"
definition phys_to_virt :: "u64 \<Rightarrow> u64" where "phys_to_virt p = HHDM_BASE + p"
definition virt_to_phys :: "u64 \<Rightarrow> u64" where "virt_to_phys v = v - HHDM_BASE"

definition rd :: "mach \<Rightarrow> u64 \<Rightarrow> nat \<Rightarrow> u64" where
  "rd m tbl i = pmem m (tbl + 8 * of_nat i)"

definition wr :: "mach \<Rightarrow> u64 \<Rightarrow> nat \<Rightarrow> u64 \<Rightarrow> mach" where
  "wr m tbl i v = m\<lparr>pmem := (pmem m)(tbl + 8 * of_nat i := v)\<rparr>"

text \<open>\<open>memset(phys_to_virt(p), 0, PAGE_SIZE)\<close>.\<close>

definition zero_page :: "mach \<Rightarrow> u64 \<Rightarrow> mach" where
  "zero_page m p = m\<lparr>pmem := (\<lambda>a. if a - p < 4096 then 0 else pmem m a)\<rparr>"

definition alloc_frame :: "mach \<Rightarrow> u64 \<times> mach" where
  "alloc_frame m = (let (a, p) = pmm_alloc_frame (pmm_st m) in (a, m\<lparr>pmm_st := p\<rparr>))"

definition free_frame :: "mach \<Rightarrow> u64 \<Rightarrow> mach" where
  "free_frame m a = m\<lparr>pmm_st := pmm_free_frame (pmm_st m) a\<rparr>"

section \<open>Walking and changing the tables\<close>

text \<open>The index of level \<open>k\<close>: 0 for the PML4, 1 for the PDPT, 2 for the PD, 3 for the PT.\<close>

definition va_split :: "u64 \<Rightarrow> nat \<Rightarrow> nat" where
  "va_split virt k = unat (drop_bit (39 - 9 * k) virt AND 0x1FF)"

text \<open>
  One level of \<open>walk_or_create\<close>.  The source writes the block out three times; the PML4 level
  has no huge-page test (\<open>ps = False\<close>).  \<open>None\<close> is the \<open>return -1\<close> of the block.
\<close>

definition descend :: "bool \<Rightarrow> mach \<Rightarrow> u64 \<Rightarrow> nat \<Rightarrow> u64 \<Rightarrow> u64 option \<times> mach" where
  "descend ps m tbl i flags =
     (let e = rd m tbl i
      in if e AND VMM_PRESENT \<noteq> 0 then
           (if ps \<and> e AND VMM_PS \<noteq> 0 then (None, m)
            else
              (let m1 = (if flags AND VMM_USER \<noteq> 0 \<and> e AND VMM_USER = 0
                         then wr m tbl i (e OR VMM_USER) else m)
               in (Some (rd m1 tbl i AND VMM_ADDR_MASK), m1)))
         else
           (let (phys, m1) = alloc_frame m
            in if phys = 0 then (None, m1)
               else
                 (let m2 = zero_page m1 phys;
                      m3 = wr m2 tbl i (phys OR VMM_PRESENT OR VMM_WRITE OR (flags AND VMM_USER))
                  in (Some phys, m3))))"

text \<open>\<open>walk_or_create\<close> yields the address of the leaf entry, or \<open>None\<close> for \<open>-1\<close>.\<close>

definition walk_or_create :: "mach \<Rightarrow> u64 \<Rightarrow> u64 \<Rightarrow> u64 \<Rightarrow> u64 option \<times> mach" where
  "walk_or_create m pml4 virt flags =
     (case descend False m pml4 (va_split virt 0) flags of
        (None, m1) \<Rightarrow> (None, m1)
      | (Some pdpt, m1) \<Rightarrow>
          (case descend True m1 pdpt (va_split virt 1) flags of
             (None, m2) \<Rightarrow> (None, m2)
           | (Some pd, m2) \<Rightarrow>
               (case descend True m2 pd (va_split virt 2) flags of
                  (None, m3) \<Rightarrow> (None, m3)
                | (Some pt, m3) \<Rightarrow> (Some (pt + 8 * of_nat (va_split virt 3)), m3))))"

definition walk_only :: "mach \<Rightarrow> u64 \<Rightarrow> u64 \<Rightarrow> u64 option" where
  "walk_only m pml4 virt =
     (let e = rd m pml4 (va_split virt 0)
      in if e AND VMM_PRESENT = 0 then None
         else
           (let pdpt = e AND VMM_ADDR_MASK; e1 = rd m pdpt (va_split virt 1)
            in if e1 AND VMM_PRESENT = 0 \<or> e1 AND VMM_PS \<noteq> 0 then None
               else
                 (let pd = e1 AND VMM_ADDR_MASK; e2 = rd m pd (va_split virt 2)
                  in if e2 AND VMM_PRESENT = 0 \<or> e2 AND VMM_PS \<noteq> 0 then None
                     else Some ((e2 AND VMM_ADDR_MASK) + 8 * of_nat (va_split virt 3)))))"

definition vmm_map_in :: "mach \<Rightarrow> u64 \<Rightarrow> u64 \<Rightarrow> u64 \<Rightarrow> u64 \<Rightarrow> int \<times> mach" where
  "vmm_map_in m pml4 virt phys flags =
     (if phys AND 0xFFFF800000000000 \<noteq> 0 then (-1, m)
      else
        (case walk_or_create m pml4 virt flags of
           (None, m1) \<Rightarrow> (-1, m1)
         | (Some pte, m1) \<Rightarrow>
             (0, m1\<lparr>pmem := (pmem m1)(pte := (phys AND VMM_ADDR_MASK) OR (flags OR VMM_PRESENT))\<rparr>)))"

definition vmm_protect_in :: "mach \<Rightarrow> u64 \<Rightarrow> u64 \<Rightarrow> u64 \<Rightarrow> int \<times> mach" where
  "vmm_protect_in m pml4 virt flags =
     (case walk_only m pml4 virt of
        None \<Rightarrow> (-1, m)
      | Some pte \<Rightarrow>
          (if pmem m pte AND VMM_PRESENT = 0 then (-1, m)
           else
             (let keep = (pmem m pte AND VMM_ADDR_MASK) OR (pmem m pte AND VMM_SHARED)
              in (0, m\<lparr>pmem := (pmem m)(pte := keep OR (flags OR VMM_PRESENT))\<rparr>))))"

definition vmm_entry_in :: "mach \<Rightarrow> u64 \<Rightarrow> u64 \<Rightarrow> u64" where
  "vmm_entry_in m pml4 virt =
     (case walk_only m pml4 virt of
        None \<Rightarrow> 0
      | Some pte \<Rightarrow> (if pmem m pte AND VMM_PRESENT = 0 then 0 else pmem m pte))"

definition vmm_unmap_in :: "mach \<Rightarrow> u64 \<Rightarrow> u64 \<Rightarrow> int \<times> mach" where
  "vmm_unmap_in m pml4 virt =
     (case walk_only m pml4 virt of
        None \<Rightarrow> (-1, m)
      | Some pte \<Rightarrow> (0, m\<lparr>pmem := (pmem m)(pte := 0)\<rparr>))"

definition vmm_translate_in :: "mach \<Rightarrow> u64 \<Rightarrow> u64 \<Rightarrow> u64" where
  "vmm_translate_in m pml4 virt =
     (let e = rd m pml4 (va_split virt 0)
      in if e AND VMM_PRESENT = 0 then 0
         else
           (let e1 = rd m (e AND VMM_ADDR_MASK) (va_split virt 1)
            in if e1 AND VMM_PRESENT = 0 then 0
               else if e1 AND VMM_PS \<noteq> 0 then (e1 AND VMM_ADDR_MASK) OR (virt AND 0x3FFFFFFF)
               else
                 (let e2 = rd m (e1 AND VMM_ADDR_MASK) (va_split virt 2)
                  in if e2 AND VMM_PRESENT = 0 then 0
                     else if e2 AND VMM_PS \<noteq> 0 then (e2 AND VMM_ADDR_MASK) OR (virt AND 0x1FFFFF)
                     else
                       (let e3 = rd m (e2 AND VMM_ADDR_MASK) (va_split virt 3)
                        in if e3 AND VMM_PRESENT = 0 then 0
                           else (e3 AND VMM_ADDR_MASK) OR (virt AND 0xFFF)))))"

definition current_pml4 :: "mach \<Rightarrow> u64" where
  "current_pml4 m = cr3 m AND VMM_ADDR_MASK"

definition vmm_map :: "mach \<Rightarrow> u64 \<Rightarrow> u64 \<Rightarrow> u64 \<Rightarrow> int \<times> mach" where
  "vmm_map m virt phys flags = vmm_map_in m (current_pml4 m) virt phys flags"

definition vmm_unmap :: "mach \<Rightarrow> u64 \<Rightarrow> int \<times> mach" where
  "vmm_unmap m virt = vmm_unmap_in m (current_pml4 m) virt"

definition vmm_translate :: "mach \<Rightarrow> u64 \<Rightarrow> u64" where
  "vmm_translate m virt = vmm_translate_in m (current_pml4 m) virt"

text \<open>
  \<open>for (i = 256; i < 512; i++)\<close> over the kernel half of the boot PML4: every missing slot
  gets a zeroed PDPT; out of memory ends the loop early.  The list holds the slots to visit.
\<close>

fun reserve_kernel_pml4_entries :: "mach \<Rightarrow> u64 \<Rightarrow> nat list \<Rightarrow> mach" where
  "reserve_kernel_pml4_entries m kernel_pml4 [] = m"
| "reserve_kernel_pml4_entries m kernel_pml4 (i # is) =
     (if rd m kernel_pml4 i AND VMM_PRESENT \<noteq> 0 then reserve_kernel_pml4_entries m kernel_pml4 is
      else
        (let (phys, m1) = alloc_frame m
         in if phys = 0 then m1
            else reserve_kernel_pml4_entries
                   (wr (zero_page m1 phys) kernel_pml4 i (phys OR VMM_PRESENT OR VMM_WRITE))
                   kernel_pml4 is))"

text \<open>\<open>vmm_init\<close> returns the boot PML4 it stores in \<open>kernel_pml4\<close>.\<close>

definition vmm_init :: "mach \<Rightarrow> u64 \<times> mach" where
  "vmm_init m = (let k = cr3 m AND VMM_ADDR_MASK in (k, reserve_kernel_pml4_entries m k [256..<512]))"

section \<open>The table tree\<close>

text \<open>
  What an entry found at level \<open>k\<close> says: nothing (not present), a leaf (a page-table entry or a
  huge page), or the next table.
\<close>

definition view :: "nat \<Rightarrow> u64 \<Rightarrow> (bool \<times> u64) option" where
  "view k e = (if e AND VMM_PRESENT = 0 then None
               else if k = 3 \<or> (k \<noteq> 0 \<and> e AND VMM_PS \<noteq> 0) then Some (True, e)
               else Some (False, e AND VMM_ADDR_MASK))"

text \<open>
  \<open>tab m r p\<close> is the table reached from the root \<open>r\<close> along the indices of \<open>p\<close>, last index
  first; \<open>look m r virt\<close> is the leaf entry that governs \<open>virt\<close> with its level (3, or 1 and 2 for
  huge pages), and \<open>(0, 0)\<close> where nothing is mapped.
\<close>

fun tab :: "mach \<Rightarrow> u64 \<Rightarrow> nat list \<Rightarrow> u64 option" where
  "tab m r [] = Some r"
| "tab m r (i # p) =
     (case tab m r p of
        None \<Rightarrow> None
      | Some t \<Rightarrow> (case view (length p) (rd m t i) of Some (False, a) \<Rightarrow> Some a | _ \<Rightarrow> None))"

fun look_from :: "mach \<Rightarrow> u64 \<Rightarrow> nat \<Rightarrow> nat list \<Rightarrow> nat \<times> u64" where
  "look_from m t k [] = (0, 0)"
| "look_from m t k (i # is) =
     (case view k (rd m t i) of
        None \<Rightarrow> (0, 0)
      | Some (True, e) \<Rightarrow> (k, e)
      | Some (False, a) \<Rightarrow> look_from m a (Suc k) is)"

definition path :: "u64 \<Rightarrow> nat list" where
  "path virt = [va_split virt 0, va_split virt 1, va_split virt 2, va_split virt 3]"

definition look :: "mach \<Rightarrow> u64 \<Rightarrow> u64 \<Rightarrow> nat \<times> u64" where
  "look m r virt = look_from m r 0 (path virt)"

text \<open>
  Well-formed address spaces: the tables form a tree of page-aligned frames, none of which the
  frame allocator still considers free; physical addresses have at most 52 bits.
\<close>

definition pt_wf :: "mach \<Rightarrow> u64 \<Rightarrow> bool" where
  "pt_wf m r \<longleftrightarrow> pmm_inv (pmm_st m) \<and> bitmap_frames (pmm_st m) \<le> 2 ^ 40
     \<and> (\<forall>p t. set p \<subseteq> {..<512} \<longrightarrow> tab m r p = Some t \<longrightarrow> t AND 4095 = 0 \<and> t \<notin> avail_frames (pmm_st m))
     \<and> (\<forall>p q t. set p \<subseteq> {..<512} \<longrightarrow> set q \<subseteq> {..<512} \<longrightarrow> tab m r p = Some t \<longrightarrow> tab m r q = Some t \<longrightarrow> p = q)"

lemma va_split_less: "va_split virt k < 512"
proof -
  have "drop_bit (39 - 9 * k) virt AND 0x1FF < 512"
    by (rule le_less_trans [of _ "0x1FF"]) (simp_all add: word_and_le1)
  then show ?thesis by (simp add: va_split_def word_less_nat_alt)
qed

lemma path_bound: "set (path virt) \<subseteq> {..<512}"
  by (auto simp: path_def va_split_less)

lemma length_path: "length (path virt) = 4"
  by (simp add: path_def)

lemma view_0 [simp]: "view k 0 = None"
  by (simp add: view_def)

lemma view_Suc3: "view 3 e \<noteq> Some (False, a)"
  by (simp add: view_def)

lemma tab_length: "tab m r p = Some t \<Longrightarrow> length p \<le> 3"
proof (induction p arbitrary: t)
  case (Cons i p)
  then obtain u a where u: "tab m r p = Some u" "view (length p) (rd m u i) = Some (False, a)"
    by (auto split: option.splits bool.splits)
  then have "length p \<le> 3" "length p \<noteq> 3" using Cons.IH view_Suc3 by metis+
  then show ?case by simp
qed simp

lemma cell_inj:
  assumes "(t :: u64) AND 4095 = 0" "t' AND 4095 = 0" "i < 512" "j < 512"
  shows "t + 8 * of_nat i = t' + 8 * of_nat j \<longleftrightarrow> t = t' \<and> i = j"
proof -
  have "unat (8 * of_nat i :: u64) < 4096" "unat (8 * of_nat j :: u64) < 4096"
    using assms(3,4) by (simp_all add: unat_cell_offset)
  then have "t + 8 * of_nat i = t' + 8 * of_nat j \<longleftrightarrow> t = t' \<and> (8 * of_nat i :: u64) = 8 * of_nat j"
    by (rule aligned_cell_inj [OF assms(1,2)])
  moreover have "(8 * of_nat i :: u64) = 8 * of_nat j \<longleftrightarrow> i = j"
    unfolding word_unat_eq_iff unat_cell_offset [OF assms(3)] unat_cell_offset [OF assms(4)] by simp
  ultimately show ?thesis by simp
qed

lemma rd_wr:
  assumes "t AND 4095 = 0" "t' AND 4095 = 0" "i < 512" "j < 512"
  shows "rd (wr m t i v) t' j = (if t' = t \<and> j = i then v else rd m t' j)"
  using cell_inj [OF assms(2,1,4,3)] by (simp add: rd_def wr_def)

lemma rd_zero_page:
  assumes "a AND 4095 = 0" "t AND 4095 = 0" "i < 512"
  shows "rd (zero_page m a) t i = (if t = a then 0 else rd m t i)"
  using aligned_page_iff [OF assms(2,1), of "8 * of_nat i"] assms(3)
  by (simp add: rd_def zero_page_def unat_cell_offset)

lemma pt_wfD:
  assumes "pt_wf m r"
  shows "pmm_inv (pmm_st m)" "bitmap_frames (pmm_st m) \<le> 2 ^ 40"
    and "set p \<subseteq> {..<512} \<Longrightarrow> tab m r p = Some t \<Longrightarrow> t AND 4095 = 0"
    and "set p \<subseteq> {..<512} \<Longrightarrow> tab m r p = Some t \<Longrightarrow> t \<notin> avail_frames (pmm_st m)"
    and "set p \<subseteq> {..<512} \<Longrightarrow> set q \<subseteq> {..<512} \<Longrightarrow> tab m r p = Some t \<Longrightarrow> tab m r q = Some t \<Longrightarrow> p = q"
  using assms unfolding pt_wf_def by blast+

text \<open>Changing entries without changing what they say leaves tree and mappings alone.\<close>

lemma tab_view_cong:
  assumes "\<And>q t i. set q \<subseteq> {..<512} \<Longrightarrow> tab m r q = Some t \<Longrightarrow> i < 512 \<Longrightarrow>
      (case view (length q) (rd m' t i) of Some (False, a) \<Rightarrow> Some a | _ \<Rightarrow> None)
      = (case view (length q) (rd m t i) of Some (False, a) \<Rightarrow> Some a | _ \<Rightarrow> None)"
    and "set p \<subseteq> {..<512}"
  shows "tab m' r p = tab m r p"
  using assms(2)
proof (induction p)
  case (Cons i p)
  then show ?case using assms(1) [of p _ i] by (auto split: option.split)
qed simp

lemma look_view_cong:
  assumes "\<And>q t i. set q \<subseteq> {..<512} \<Longrightarrow> tab m r q = Some t \<Longrightarrow> i < 512 \<Longrightarrow>
      view (length q) (rd m' t i) = view (length q) (rd m t i)"
    and "set p \<subseteq> {..<512}" "set is \<subseteq> {..<512}" "tab m r p = Some t"
  shows "look_from m' t (length p) is = look_from m t (length p) is"
  using assms(2-4)
proof (induction "is" arbitrary: p t)
  case (Cons i "is")
  have v: "view (length p) (rd m' t i) = view (length p) (rd m t i)" using assms(1) Cons.prems by simp
  show ?case
  proof (cases "view (length p) (rd m t i)")
    case (Some x)
    obtain b a where [simp]: "x = (b, a)" by (cases x)
    show ?thesis
    proof (cases b)
      case False
      then have "tab m r (i # p) = Some a" using Cons.prems Some by simp
      then show ?thesis using Cons.IH [of "i # p" a] Cons.prems Some v False by simp
    qed (simp add: v Some)
  qed (simp add: v)
qed simp


text \<open>Hooking a freshly zeroed frame into an empty slot adds one empty table and maps nothing.\<close>

lemma link_table:
  assumes wf: "pt_wf m r" and p: "set p \<subseteq> {..<512}" "tab m r p = Some t" "length p \<le> 2" and i: "i < 512"
    and empty: "rd m t i AND VMM_PRESENT = 0"
    and a: "a \<in> avail_frames (pmm_st m)" "a AND 4095 = 0" "view (length p) e = Some (False, a)"
    and new: "\<And>t' j. t' AND 4095 = 0 \<Longrightarrow> j < 512 \<Longrightarrow>
        rd m' t' j = (if t' = t \<and> j = i then e else if t' = a then 0 else rd m t' j)"
  shows tab_link: "set q \<subseteq> {..<512} \<Longrightarrow> tab m' r q = (if q = i # p then Some a else tab m r q)"
    and look_link: "set q \<subseteq> {..<512} \<Longrightarrow> set is \<subseteq> {..<512} \<Longrightarrow> tab m r q = Some u \<Longrightarrow>
        look_from m' u (length q) is = look_from m u (length q) is"
proof -
  have at: "a \<noteq> t'" if "set q \<subseteq> {..<512}" "tab m r q = Some t'" for q t'
    using pt_wfD(4) [OF wf that] a(1) by blast
  have none: "view (length p) (rd m t i) = None" using empty by (simp add: view_def)
  have al: "t AND 4095 = 0" by (rule pt_wfD(3) [OF wf p(1,2)])
  have rd': "rd m' t' j = (if q = p \<and> j = i then e else rd m t' j)"
    if "set q \<subseteq> {..<512}" "tab m r q = Some t'" "j < 512" for q t' j
  proof -
    have "t' = t \<longleftrightarrow> q = p" using pt_wfD(5) [OF wf that(1) p(1)] that(2) p(2) by auto
    then show ?thesis using new [OF pt_wfD(3) [OF wf that(1,2)] that(3)] at [OF that(1,2)] by auto
  qed
  have rda: "rd m' a j = 0" if "j < 512" for j
    using new [OF a(2) that] at [OF p(1,2)] by auto
  show tab: "tab m' r q = (if q = i # p then Some a else tab m r q)" if "set q \<subseteq> {..<512}" for q
    using that
  proof (induction q)
    case (Cons j q)
    have j: "j < 512" "set q \<subseteq> {..<512}" using Cons.prems by auto
    show ?case
    proof (cases "q = i # p")
      case True
      then have "tab m r (j # q) = None" using p(2) none by simp
      moreover have "tab m' r (j # q) = None" using Cons.IH j True rda by simp
      ultimately show ?thesis using True by auto
    next
      case False
      then show ?thesis using Cons.IH j p(2) none a(3) rd' [of q _ j] by (auto split: option.splits)
    qed
  qed simp
  show "look_from m' u (length q) is = look_from m u (length q) is"
    if "set q \<subseteq> {..<512}" "set is \<subseteq> {..<512}" "tab m r q = Some u" for q "is" u
    using that
  proof (induction "is" arbitrary: q u)
    case (Cons j "is")
    have j: "j < 512" "set is \<subseteq> {..<512}" using Cons.prems by auto
    note r = rd' [OF Cons.prems(1,3) j(1)]
    show ?case
    proof (cases "q = p \<and> j = i")
      case True
      then have ut: "u = t" using Cons.prems(3) p(2) by simp
      have "look_from m' a (Suc (length q)) is = (0, 0)"
        using j rda by (cases "is") auto
      then show ?thesis using True r a(3) none ut by simp
    next
      case False
      have "look_from m' b (Suc (length q)) is = look_from m b (Suc (length q)) is"
        if "view (length q) (rd m u j) = Some (False, b)" for b
        using Cons.IH [of "j # q" b] Cons.prems j that by simp
      then show ?thesis using False r by (auto split: option.splits bool.splits)
    qed
  qed simp
qed

lemma alloc_frame_cases:
  assumes "pt_wf m r"
  obtains (none) "alloc_frame m = (0, m)" "free_frames (pmm_st m) \<inter> {GENERAL_FIRST..} = {}"
  | (some) a s' where "alloc_frame m = (a, m\<lparr>pmm_st := s'\<rparr>)" "a \<noteq> 0" "a \<in> avail_frames (pmm_st m)"
      "a AND 4095 = 0" "unat a < 2 ^ 52" "pmm_inv s'" "bitmap_frames s' = bitmap_frames (pmm_st m)"
      "avail_frames s' = avail_frames (pmm_st m) - {a}"
  using pt_wfD(1) [OF assms]
proof (cases rule: pmm_alloc_frame_cases)
  case none
  then show ?thesis using that(1) by (simp add: alloc_frame_def)
next
  case (some f s')
  have f: "f < 2 ^ 40"
    using some(3) pt_wfD(2) [OF assms] by (auto simp: free_frames_def)
  have "unat (frame_addr f) = f * 4096"
    using f by (simp add: frame_addr_def unat_word_ariths unat_of_nat take_bit_eq_mod)
  moreover have "frame_addr f \<in> avail_frames (pmm_st m)"
    "avail_frames s' = avail_frames (pmm_st m) - {frame_addr f}"
    using some frame_addr_image_remove [OF pt_wfD(1) [OF assms] some(3)] by (auto simp: avail_frames_def)
  moreover have "bitmap_frames s' = bitmap_frames (pmm_st m)"
    using pmm_alloc_frame_frames [of "pmm_st m"] some(1) by simp
  ultimately show ?thesis
    using that(2) [of "frame_addr f" s'] some f by (simp add: alloc_frame_def frame_addr_aligned)
qed

lemma or_bit_masks:
  fixes e :: u64
  shows "(e OR 4) AND VMM_PRESENT = e AND VMM_PRESENT" "(e OR 4) AND VMM_PS = e AND VMM_PS"
    "(e OR 4) AND VMM_ADDR_MASK = e AND VMM_ADDR_MASK"
  by (simp_all add: bit.conj_disj_distrib2)

lemma table_flags:
  fixes flags :: u64
  defines "f \<equiv> 3 OR (flags AND 4)"
  shows "f AND VMM_ADDR_MASK = 0" "f AND VMM_PS = 0" "f AND VMM_PRESENT = 1"
  unfolding f_def by (simp_all add: bit.conj_disj_distrib2 and.assoc)

lemma table_entry_view:
  assumes "a AND 4095 = 0" "unat a < 2 ^ 52" "k \<le> 2"
  shows "view k (a OR VMM_PRESENT OR VMM_WRITE OR (flags AND VMM_USER)) = Some (False, a)"
proof -
  define f :: u64 where "f = 3 OR (flags AND 4)"
  have e: "a OR VMM_PRESENT OR VMM_WRITE OR (flags AND VMM_USER) = a OR f"
    by (simp add: f_def or.assoc flip: or.assoc)
  have low: "a AND n = 0" if "n AND 4095 = n" for n
  proof -
    have "a AND n = a AND (4095 AND n)" using that by (simp only: and.commute)
    also have "\<dots> = 0" by (simp only: assms(1) and_zero_eq zero_and_eq flip: and.assoc)
    finally show ?thesis .
  qed
  have "(a OR f) AND VMM_PRESENT = 1" "(a OR f) AND VMM_PS = 0"
    using table_flags [of flags] low [of 1] low [of "0x80"] by (simp_all add: f_def bit.conj_disj_distrib2)
  moreover have "(a OR f) AND VMM_ADDR_MASK = a"
    using frame_entry_mask [OF assms(1,2)] table_flags(1) [of flags] by (simp add: f_def)
  ultimately show ?thesis unfolding e using assms(3) by (simp add: view_def)
qed


lemma look_tab:
  "tab m r p = Some t \<Longrightarrow> look_from m r 0 (rev p @ is) = look_from m t (length p) is"
proof (induction p arbitrary: t "is")
  case (Cons i p)
  then obtain u where "tab m r p = Some u" "view (length p) (rd m u i) = Some (False, t)"
    by (auto split: option.splits bool.splits)
  with Cons.IH [of u "i # is"] show ?case by simp
qed simp

lemma pt_wf_viewI:
  assumes "pt_wf m r" and "\<And>p. set p \<subseteq> {..<512} \<Longrightarrow> tab m' r p = tab m r p"
    and "pmm_st m' = pmm_st m"
  shows "pt_wf m' r"
  using assms unfolding pt_wf_def by simp

lemma descend_effect:
  assumes wf: "pt_wf m r" and p: "set p \<subseteq> {..<512}" "tab m r p = Some t" "length p \<le> 2" and i: "i < 512"
    and d: "descend (p \<noteq> []) m t i flags = (res, m')"
  shows "pt_wf m' r" and "look m' r virt = look m r virt" and "cr3 m' = cr3 m"
    and "avail_frames (pmm_st m') \<subseteq> avail_frames (pmm_st m)"
    and "managed_frames (pmm_st m') = managed_frames (pmm_st m)"
    and "res = Some t' \<Longrightarrow> tab m' r (i # p) = Some t'"
    and "res = None \<Longrightarrow> (\<exists>e. view (length p) (rd m t i) = Some (True, e)) \<or> free_frames (pmm_st m') \<inter> {GENERAL_FIRST..} = {}"
    and "set q \<subseteq> {..<512} \<Longrightarrow> tab m' r q = Some u \<Longrightarrow> tab m r q = Some u \<or> u \<in> avail_frames (pmm_st m)"
proof -
  let ?e = "rd m t i"
  note al = pt_wfD(3) [OF wf p(1,2)]
  have "pt_wf m' r \<and> (\<forall>virt. look m' r virt = look m r virt) \<and> cr3 m' = cr3 m
    \<and> avail_frames (pmm_st m') \<subseteq> avail_frames (pmm_st m) \<and> managed_frames (pmm_st m') = managed_frames (pmm_st m)
    \<and> (\<forall>t'. res = Some t' \<longrightarrow> tab m' r (i # p) = Some t')
    \<and> (res = None \<longrightarrow> (\<exists>e. view (length p) ?e = Some (True, e)) \<or> free_frames (pmm_st m') \<inter> {GENERAL_FIRST..} = {})
    \<and> (\<forall>q u. set q \<subseteq> {..<512} \<longrightarrow> tab m' r q = Some u \<longrightarrow> tab m r q = Some u \<or> u \<in> avail_frames (pmm_st m))"
  proof (cases "?e AND VMM_PRESENT \<noteq> 0")
    case present: True
    show ?thesis
    proof (cases "p \<noteq> [] \<and> ?e AND VMM_PS \<noteq> 0")
      case True
      then show ?thesis using d present wf by (auto simp: descend_def view_def)
    next
      case False
      let ?m = "if flags AND VMM_USER \<noteq> 0 \<and> ?e AND VMM_USER = 0 then wr m t i (?e OR VMM_USER) else m"
      have r: "res = Some (rd ?m t i AND VMM_ADDR_MASK)" "m' = ?m"
        using d present False by (auto simp: descend_def Let_def split: if_splits)
      have eq: "rd m' t' j = (if m' \<noteq> m \<and> t' = t \<and> j = i then ?e OR 4 else rd m t' j)"
        if "t' AND 4095 = 0" "j < 512" for t' j
        using rd_wr [OF al that(1) i that(2), of m "?e OR 4"] by (auto simp: r(2))
      have v: "view (length p) ?e = Some (False, ?e AND VMM_ADDR_MASK)"
        using present False p(3) by (auto simp: view_def)
      have v': "view (length p) (?e OR 4) = view (length p) ?e"
        using False p(3) by (auto simp: view_def or_bit_masks)
      have cong: "view (length q) (rd m' t' j) = view (length q) (rd m t' j)"
        if "set q \<subseteq> {..<512}" "tab m r q = Some t'" "j < 512" for q t' j
      proof -
        have "t' = t \<Longrightarrow> q = p" using pt_wfD(5) [OF wf that(1) p(1)] that(2) p(2) by auto
        then show ?thesis using eq [OF pt_wfD(3) [OF wf that(1,2)] that(3)] v' by auto
      qed
      have tab: "tab m' r q = tab m r q" if "set q \<subseteq> {..<512}" for q
        using cong that by (intro tab_view_cong) auto
      have "pmm_st m' = pmm_st m" "cr3 m' = cr3 m" by (simp_all add: r(2) wr_def)
      moreover have "look m' r virt = look m r virt" for virt
        unfolding look_def using look_view_cong [where p = "[]", of m r m'] cong path_bound by simp
      moreover have "rd m' t i AND VMM_ADDR_MASK = ?e AND VMM_ADDR_MASK"
        using eq [OF al i] by (simp add: or_bit_masks)
      then have "tab m' r (i # p) = Some (rd m' t i AND VMM_ADDR_MASK)"
        using tab [of "i # p"] p i v by simp
      ultimately show ?thesis using pt_wf_viewI [OF wf tab] r tab by simp
    qed
  next
    case absent: False
    from wf show ?thesis
    proof (cases rule: alloc_frame_cases)
      case none
      then show ?thesis using d absent wf by (simp add: descend_def)
    next
      case (some a s')
      let ?n = "a OR VMM_PRESENT OR VMM_WRITE OR (flags AND VMM_USER)"
      have r: "res = Some a" "m' = wr (zero_page (m\<lparr>pmm_st := s'\<rparr>) a) t i ?n"
        using d absent some by (simp_all add: descend_def Let_def)
      have st: "pmm_st m' = s'" "cr3 m' = cr3 m" by (simp_all add: r(2) wr_def zero_page_def)
      have ne: "t \<noteq> a" using pt_wfD(4) [OF wf p(1,2)] some(3) by blast
      have new: "rd m' t' j = (if t' = t \<and> j = i then ?n else if t' = a then 0 else rd m t' j)"
        if "t' AND 4095 = 0" "j < 512" for t' j
        unfolding r(2) rd_wr [OF al that(1) i that(2)] rd_zero_page [OF some(4) that] by (simp add: rd_def)
      have e: "rd m t i AND VMM_PRESENT = 0" using absent by simp
      note link = link_table [OF wf p i e some(3,4) table_entry_view [OF some(4,5) p(3)] new]
      have "pt_wf m' r"
        unfolding pt_wf_def st
        using link(1) some(3,4,6-8) pt_wfD [OF wf] by (auto split: if_splits)
      moreover have "look m' r virt = look m r virt" for virt
        unfolding look_def using link(2) [of "[]" _ r] path_bound by simp
      moreover have "managed_frames s' = managed_frames (pmm_st m)"
        by (simp add: managed_frames_def some(7))
      moreover have "tab m r q = Some u \<or> u \<in> avail_frames (pmm_st m)"
        if "set q \<subseteq> {..<512}" "tab m' r q = Some u" for q u
        using that link(1) [of q] some(3) by (auto split: if_splits)
      ultimately show ?thesis using r(1) st link(1) [of "i # p"] p(1) i some(8) by auto
    qed
  qed
  then show "pt_wf m' r" "look m' r virt = look m r virt" "cr3 m' = cr3 m"
    "avail_frames (pmm_st m') \<subseteq> avail_frames (pmm_st m)"
    "managed_frames (pmm_st m') = managed_frames (pmm_st m)"
    "res = Some t' \<Longrightarrow> tab m' r (i # p) = Some t'"
    "res = None \<Longrightarrow> (\<exists>e. view (length p) (rd m t i) = Some (True, e)) \<or> free_frames (pmm_st m') \<inter> {GENERAL_FIRST..} = {}"
    "set q \<subseteq> {..<512} \<Longrightarrow> tab m' r q = Some u \<Longrightarrow> tab m r q = Some u \<or> u \<in> avail_frames (pmm_st m)"
    by blast+
qed


lemma walk_or_create_effect:
  assumes wf: "pt_wf m r" and w: "walk_or_create m r virt flags = (res, m')"
  shows "pt_wf m' r" and "look m' r v = look m r v" and "cr3 m' = cr3 m"
    and "avail_frames (pmm_st m') \<subseteq> avail_frames (pmm_st m)"
    and "managed_frames (pmm_st m') = managed_frames (pmm_st m)"
    and "res = Some pte \<Longrightarrow> \<exists>pt. tab m' r [va_split virt 2, va_split virt 1, va_split virt 0] = Some pt
          \<and> pte = pt + 8 * of_nat (va_split virt 3)"
    and "res = None \<Longrightarrow> fst (look m r virt) \<in> {1, 2} \<or> free_frames (pmm_st m') \<inter> {GENERAL_FIRST..} = {}"
    and "set q \<subseteq> {..<512} \<Longrightarrow> tab m' r q = Some u \<Longrightarrow> tab m r q = Some u \<or> u \<in> avail_frames (pmm_st m)"
proof -
  let ?i = "va_split virt"
  note b = va_split_less [of virt]
  have h: "fst (look n r virt) = length p"
    if "tab n r p = Some t" "view (length p) (rd n t i) = Some (True, e)" "rev p @ i # is = path virt" for n p t i e "is"
    using look_tab [OF that(1), of "i # is"] that(2,3) by (simp add: look_def)
  obtain r1 m1 where d1: "descend False m r (?i 0) flags = (r1, m1)" by fastforce
  have d1': "descend ([] \<noteq> ([] :: nat list)) m r (?i 0) flags = (r1, m1)" using d1 by simp
  have "tab m r [] = Some r" "set [] \<subseteq> {..<512 :: nat}" "length ([] :: nat list) \<le> 2" by simp_all
  note e1 = descend_effect [OF wf this(2,1,3) b d1']
  have "pt_wf m' r \<and> (\<forall>v. look m' r v = look m r v) \<and> cr3 m' = cr3 m
    \<and> avail_frames (pmm_st m') \<subseteq> avail_frames (pmm_st m) \<and> managed_frames (pmm_st m') = managed_frames (pmm_st m)
    \<and> (\<forall>pte. res = Some pte \<longrightarrow> (\<exists>pt. tab m' r [?i 2, ?i 1, ?i 0] = Some pt \<and> pte = pt + 8 * of_nat (?i 3)))
    \<and> (res = None \<longrightarrow> fst (look m r virt) \<in> {1, 2} \<or> free_frames (pmm_st m') \<inter> {GENERAL_FIRST..} = {})
    \<and> (\<forall>q u. set q \<subseteq> {..<512} \<longrightarrow> tab m' r q = Some u \<longrightarrow> tab m r q = Some u \<or> u \<in> avail_frames (pmm_st m))"
  proof (cases r1)
    case None
    then have "free_frames (pmm_st m1) \<inter> {GENERAL_FIRST..} = {}" using e1(7) by (auto simp: view_def split: if_splits)
    moreover have "res = None" "m' = m1" using w d1 None by (simp_all add: walk_or_create_def)
    ultimately show ?thesis using e1(1-5,8) by simp
  next
    case (Some pdpt)
    obtain r2 m2 where d2: "descend True m1 pdpt (?i 1) flags = (r2, m2)" by fastforce
    have t1: "tab m1 r [?i 0] = Some pdpt" by (rule e1(6) [OF Some])
    have d2': "descend ([?i 0] \<noteq> []) m1 pdpt (?i 1) flags = (r2, m2)" using d2 by simp
    have "set [?i 0] \<subseteq> {..<512}" "length [?i 0] \<le> 2" using b by simp_all
    note e2 = descend_effect [OF e1(1) this(1) t1 this(2) b d2']
    show ?thesis
    proof (cases r2)
      case None
      then have "fst (look m r virt) = 1 \<or> free_frames (pmm_st m2) \<inter> {GENERAL_FIRST..} = {}"
        using e2(7) h [OF t1, of "?i 1" _ "[?i 2, ?i 3]"] e1(2) by (auto simp: path_def)
      moreover have "res = None" "m' = m2" using w d1 d2 Some None by (simp_all add: walk_or_create_def)
      moreover have "tab m r q = Some u \<or> u \<in> avail_frames (pmm_st m)"
        if "set q \<subseteq> {..<512}" "tab m2 r q = Some u" for q u
        using e2(8) [OF that] e1(8) [OF that(1)] e1(4) by blast
      ultimately show ?thesis using e1(2-5) e2(1-5) by (simp only: simp_thms option.distinct) auto
    next
      case (Some pd)
      obtain r3 m3 where d3: "descend True m2 pd (?i 2) flags = (r3, m3)" by fastforce
      have t2: "tab m2 r [?i 1, ?i 0] = Some pd" by (rule e2(6) [OF Some])
      have d3': "descend ([?i 1, ?i 0] \<noteq> []) m2 pd (?i 2) flags = (r3, m3)" using d3 by simp
      have "set [?i 1, ?i 0] \<subseteq> {..<512}" "length [?i 1, ?i 0] \<le> 2" using b by simp_all
      note e3 = descend_effect [OF e2(1) this(1) t2 this(2) b d3']
      have "fst (look m r virt) = 2 \<or> free_frames (pmm_st m3) \<inter> {GENERAL_FIRST..} = {}" if "r3 = None"
        using that e3(7) h [OF t2, of "?i 2" _ "[?i 3]"] e1(2) e2(2) by (auto simp: path_def numeral_2_eq_2)
      moreover have "tab m3 r [?i 2, ?i 1, ?i 0] = Some pt" if "r3 = Some pt" for pt by (rule e3(6) [OF that])
      moreover have "m' = m3" "res = (case r3 of None \<Rightarrow> None | Some pt \<Rightarrow> Some (pt + 8 * of_nat (?i 3)))"
        using w d1 d2 d3 \<open>r1 = Some pdpt\<close> Some by (auto simp: walk_or_create_def split: option.splits)
      moreover have "tab m r q = Some u \<or> u \<in> avail_frames (pmm_st m)"
        if "set q \<subseteq> {..<512}" "tab m3 r q = Some u" for q u
        using e3(8) [OF that] e2(8) [OF that(1)] e1(8) [OF that(1)] e1(4) e2(4) by blast
      ultimately show ?thesis using e1(2-5) e2(2-5) e3(1-5) by (cases r3) auto
    qed
  qed
  then show "pt_wf m' r" "look m' r v = look m r v" "cr3 m' = cr3 m"
    "avail_frames (pmm_st m') \<subseteq> avail_frames (pmm_st m)"
    "managed_frames (pmm_st m') = managed_frames (pmm_st m)"
    "res = Some pte \<Longrightarrow> \<exists>pt. tab m' r [?i 2, ?i 1, ?i 0] = Some pt \<and> pte = pt + 8 * of_nat (?i 3)"
    "res = None \<Longrightarrow> fst (look m r virt) \<in> {1, 2} \<or> free_frames (pmm_st m') \<inter> {GENERAL_FIRST..} = {}"
    "set q \<subseteq> {..<512} \<Longrightarrow> tab m' r q = Some u \<Longrightarrow> tab m r q = Some u \<or> u \<in> avail_frames (pmm_st m)"
    by blast+
qed

lemma walk_only_tab:
  "walk_only m r virt =
     (case tab m r [va_split virt 2, va_split virt 1, va_split virt 0] of
        None \<Rightarrow> None | Some pt \<Rightarrow> Some (pt + 8 * of_nat (va_split virt 3)))"
  by (simp add: walk_only_def Let_def view_def)

lemma vmm_entry_in_look:
  "vmm_entry_in m r virt = (case look m r virt of (k, e) \<Rightarrow> if k = 3 then e else 0)"
  by (simp add: vmm_entry_in_def walk_only_def Let_def look_def path_def view_def rd_def)

lemma vmm_translate_in_look:
  "vmm_translate_in m r virt =
     (case look m r virt of (k, e) \<Rightarrow>
        if k = 0 then 0
        else (e AND VMM_ADDR_MASK) OR
          (virt AND (if k = 1 then 0x3FFFFFFF else if k = 2 then 0x1FFFFF else 0xFFF)))"
  by (simp add: vmm_translate_in_def Let_def look_def path_def view_def)

text \<open>Writing a leaf entry changes the mapping of its page and of no other page.\<close>

lemma leaf_write:
  assumes wf: "pt_wf m r" and p: "set p \<subseteq> {..<512}" "tab m r p = Some t" "length p = 3" and i: "i < 512"
    and m': "m' = m\<lparr>pmem := (pmem m)(t + 8 * of_nat i := v)\<rparr>"
  shows "pt_wf m' r"
    and "look m' r virt = (if path virt = rev p @ [i] then (if v AND VMM_PRESENT = 0 then (0, 0) else (3, v))
                           else look m r virt)"
    and "set q \<subseteq> {..<512} \<Longrightarrow> tab m' r q = tab m r q"
proof -
  note al = pt_wfD(3) [OF wf p(1,2)]
  have w: "m' = wr m t i v" by (simp add: m' wr_def)
  have rd': "rd m' t' j = (if q = p \<and> j = i then v else rd m t' j)"
    if "set q \<subseteq> {..<512}" "tab m r q = Some t'" "j < 512" for q t' j
  proof -
    have "t' = t \<longleftrightarrow> q = p" using pt_wfD(5) [OF wf that(1) p(1)] that(2) p(2) by auto
    then show ?thesis unfolding w rd_wr [OF al pt_wfD(3) [OF wf that(1,2)] i that(3)] by simp
  qed
  have node: "(case view 3 e of Some (False, a) \<Rightarrow> Some a | _ \<Rightarrow> None) = None" for e
    by (simp add: view_def)
  have tab: "tab m' r q = tab m r q" if "set q \<subseteq> {..<512}" for q
    using that
  proof (rule tab_view_cong [rotated])
    fix q u j assume *: "set q \<subseteq> {..<512}" "tab m r q = Some u" "j < (512 :: nat)"
    show "(case view (length q) (rd m' u j) of Some (False, a) \<Rightarrow> Some a | _ \<Rightarrow> None)
        = (case view (length q) (rd m u j) of Some (False, a) \<Rightarrow> Some a | _ \<Rightarrow> None)"
      by (cases "q = p \<and> j = i") (simp_all only: rd' [OF *] p(3) node simp_thms if_True if_False)
  qed
  then show "set q \<subseteq> {..<512} \<Longrightarrow> tab m' r q = tab m r q" for q .
  from tab show "pt_wf m' r" by (intro pt_wf_viewI [OF wf]) (simp_all add: m')
  have other: "look_from m' u (length q) is = look_from m u (length q) is"
    if "set q \<subseteq> {..<512}" "set is \<subseteq> {..<512}" "tab m r q = Some u" "rev q @ is \<noteq> rev p @ [i]"
      "length q + length is = 4" for q "is" u
    using that
  proof (induction "is" arbitrary: q u)
    case (Cons j "is")
    then have "\<not> (q = p \<and> j = i)" using p(3) by auto
    then have r: "rd m' u j = rd m u j" using rd' [OF Cons.prems(1,3), of j] Cons.prems(2) by auto
    have "look_from m' b (Suc (length q)) is = look_from m b (Suc (length q)) is"
      if "view (length q) (rd m u j) = Some (False, b)" for b
      using Cons.IH [of "j # q" b] Cons.prems that by simp
    then show ?case using r by (auto split: option.splits bool.splits)
  qed simp
  have "tab m' r p = Some t" using tab [OF p(1)] p(2) by simp
  then have "look_from m' r 0 (rev p @ [i]) = look_from m' t 3 [i]" using look_tab [of m' r p t "[i]"] p(3) by simp
  moreover have "rd m' t i = v" using rd' [OF p(1,2) i] by simp
  ultimately have "look_from m' r 0 (rev p @ [i]) = (if v AND VMM_PRESENT = 0 then (0, 0) else (3, v))"
    by (simp add: view_def)
  then show "look m' r virt = (if path virt = rev p @ [i] then (if v AND VMM_PRESENT = 0 then (0, 0) else (3, v))
                           else look m r virt)"
    using other [of "[]" "path virt" r] path_bound [of virt] length_path [of virt]
    by (cases "path virt = rev p @ [i]") (simp_all add: look_def)
qed


lemma present_or [simp]: "(x OR (flags OR VMM_PRESENT)) AND VMM_PRESENT \<noteq> 0"
proof -
  have "(x OR (flags OR VMM_PRESENT)) AND VMM_PRESENT = (x OR flags) AND 1 OR 1"
    by (simp only: bit.conj_disj_distrib2 or.assoc and.idem)
  moreover have "bit ((x OR flags) AND 1 OR 1) 0" by (simp add: bit_simps)
  ultimately show ?thesis by (metis bit_0_eq bot_apply bot_bool_def)
qed

lemma vmm_map_in_effect:
  assumes wf: "pt_wf m r" and mp: "vmm_map_in m r virt phys flags = (res, m')"
  shows "pt_wf m' r" and "res = 0 \<or> res = -1"
    and "look m' r v = (if res = 0 \<and> path v = path virt then (3, (phys AND VMM_ADDR_MASK) OR (flags OR VMM_PRESENT))
                        else look m r v)"
    and "cr3 m' = cr3 m" "avail_frames (pmm_st m') \<subseteq> avail_frames (pmm_st m)"
    and "managed_frames (pmm_st m') = managed_frames (pmm_st m)"
    and "res = -1 \<Longrightarrow> phys AND 0xFFFF800000000000 \<noteq> 0 \<or> fst (look m r virt) \<in> {1, 2}
           \<or> free_frames (pmm_st m') \<inter> {GENERAL_FIRST..} = {}"
    and "set q \<subseteq> {..<512} \<Longrightarrow> tab m' r q = Some u \<Longrightarrow> tab m r q = Some u \<or> u \<in> avail_frames (pmm_st m)"
proof -
  let ?p = "[va_split virt 2, va_split virt 1, va_split virt 0]"
  let ?v = "(phys AND VMM_ADDR_MASK) OR (flags OR VMM_PRESENT)"
  have "pt_wf m' r \<and> (res = 0 \<or> res = -1)
    \<and> (\<forall>v. look m' r v = (if res = 0 \<and> path v = path virt then (3, ?v) else look m r v))
    \<and> cr3 m' = cr3 m \<and> avail_frames (pmm_st m') \<subseteq> avail_frames (pmm_st m)
    \<and> managed_frames (pmm_st m') = managed_frames (pmm_st m)
    \<and> (res = -1 \<longrightarrow> phys AND 0xFFFF800000000000 \<noteq> 0 \<or> fst (look m r virt) \<in> {1, 2}
           \<or> free_frames (pmm_st m') \<inter> {GENERAL_FIRST..} = {})
    \<and> (\<forall>q u. set q \<subseteq> {..<512} \<longrightarrow> tab m' r q = Some u \<longrightarrow> tab m r q = Some u \<or> u \<in> avail_frames (pmm_st m))"
  proof (cases "phys AND 0xFFFF800000000000 \<noteq> 0")
    case True
    then show ?thesis using mp wf by (simp add: vmm_map_in_def)
  next
    case False
    obtain o1 m1 where w: "walk_or_create m r virt flags = (o1, m1)" by fastforce
    note e = walk_or_create_effect [OF wf w]
    show ?thesis
    proof (cases o1)
      case None
      then show ?thesis using mp w e(1-5,7,8) False by (auto simp: vmm_map_in_def)
    next
      case (Some pte)
      obtain pt where pt: "tab m1 r ?p = Some pt" "pte = pt + 8 * of_nat (va_split virt 3)"
        using e(6) [OF Some] by blast
      have res: "res = 0" "m' = m1\<lparr>pmem := (pmem m1)(pt + 8 * of_nat (va_split virt 3) := ?v)\<rparr>"
        using mp w Some False pt(2) by (simp_all add: vmm_map_in_def)
      have "set ?p \<subseteq> {..<512}" "length ?p = 3" by (simp_all add: va_split_less)
      note l = leaf_write [OF e(1) this(1) pt(1) this(2) va_split_less res(2)]
      have "path v = rev ?p @ [va_split virt 3] \<longleftrightarrow> path v = path virt" for v by (simp add: path_def)
      then have "look m' r v = (if path v = path virt then (3, ?v) else look m r v)" for v
        using l(2) [of v] e(2) [of v] by (simp only: present_or if_False split: if_split)
      then show ?thesis using l(1,3) res e(3-5,8) by simp
    qed
  qed
  then show "pt_wf m' r" "res = 0 \<or> res = -1"
    "look m' r v = (if res = 0 \<and> path v = path virt then (3, ?v) else look m r v)"
    "cr3 m' = cr3 m" "avail_frames (pmm_st m') \<subseteq> avail_frames (pmm_st m)"
    "managed_frames (pmm_st m') = managed_frames (pmm_st m)"
    "res = -1 \<Longrightarrow> phys AND 0xFFFF800000000000 \<noteq> 0 \<or> fst (look m r virt) \<in> {1, 2}
           \<or> free_frames (pmm_st m') \<inter> {GENERAL_FIRST..} = {}"
    "set q \<subseteq> {..<512} \<Longrightarrow> tab m' r q = Some u \<Longrightarrow> tab m r q = Some u \<or> u \<in> avail_frames (pmm_st m)"
    by blast+
qed

lemma look_leaf:
  assumes "tab m r [va_split virt 2, va_split virt 1, va_split virt 0] = Some pt"
  shows "look m r virt = (if rd m pt (va_split virt 3) AND VMM_PRESENT = 0 then (0, 0)
                          else (3, rd m pt (va_split virt 3)))"
  using look_tab [OF assms, of "[va_split virt 3]"] by (simp add: look_def path_def view_def)

lemma look_no_leaf:
  assumes "tab m r [va_split virt 2, va_split virt 1, va_split virt 0] = None"
  shows "fst (look m r virt) \<noteq> 3"
  using assms by (auto simp: look_def path_def split: option.splits bool.splits)

lemma vmm_unmap_in_effect:
  assumes wf: "pt_wf m r" and u: "vmm_unmap_in m r virt = (res, m')"
  shows "pt_wf m' r" and "pmm_st m' = pmm_st m" and "cr3 m' = cr3 m"
    and "look m' r v = (if path v = path virt \<and> fst (look m r virt) = 3 then (0, 0) else look m r v)"
    and "fst (look m r virt) = 3 \<Longrightarrow> res = 0"
proof -
  let ?p = "[va_split virt 2, va_split virt 1, va_split virt 0]"
  have "pt_wf m' r \<and> pmm_st m' = pmm_st m \<and> cr3 m' = cr3 m
    \<and> (\<forall>v. look m' r v = (if path v = path virt \<and> fst (look m r virt) = 3 then (0, 0) else look m r v))
    \<and> (fst (look m r virt) = 3 \<longrightarrow> res = 0)"
  proof (cases "tab m r ?p")
    case None
    then show ?thesis using u wf look_no_leaf [OF None] by (simp add: vmm_unmap_in_def walk_only_tab)
  next
    case (Some pt)
    have res: "res = 0" "m' = m\<lparr>pmem := (pmem m)(pt + 8 * of_nat (va_split virt 3) := 0)\<rparr>"
      using u Some by (simp_all add: vmm_unmap_in_def walk_only_tab)
    have "set ?p \<subseteq> {..<512}" "length ?p = 3" by (simp_all add: va_split_less)
    note l = leaf_write [OF wf this(1) Some this(2) va_split_less res(2)]
    have "path v = rev ?p @ [va_split virt 3] \<longleftrightarrow> path v = path virt" for v by (simp add: path_def)
    then have l2: "look m' r v = (if path v = path virt then (0, 0) else look m r v)" for v
      using l(2) [of v] by simp
    have "path v = path virt \<Longrightarrow> look m r v = look m r virt" for v by (simp add: look_def)
    then show ?thesis using l(1) l2 res look_leaf [OF Some] by (auto split: if_splits)
  qed
  then show "pt_wf m' r" "pmm_st m' = pmm_st m" "cr3 m' = cr3 m"
    "look m' r v = (if path v = path virt \<and> fst (look m r virt) = 3 then (0, 0) else look m r v)"
    "fst (look m r virt) = 3 \<Longrightarrow> res = 0" by blast+
qed

lemma vmm_protect_in_effect:
  assumes wf: "pt_wf m r" and u: "vmm_protect_in m r virt flags = (res, m')"
  shows "pt_wf m' r" and "pmm_st m' = pmm_st m" and "cr3 m' = cr3 m"
    and "res = (if fst (look m r virt) = 3 then 0 else -1)"
    and "look m' r v = (if path v = path virt \<and> fst (look m r virt) = 3
           then (3, ((snd (look m r virt) AND VMM_ADDR_MASK) OR (snd (look m r virt) AND VMM_SHARED)) OR (flags OR VMM_PRESENT))
           else look m r v)"
proof -
  let ?p = "[va_split virt 2, va_split virt 1, va_split virt 0]"
  let ?new = "\<lambda>e. ((e AND VMM_ADDR_MASK) OR (e AND VMM_SHARED)) OR (flags OR VMM_PRESENT)"
  have "pt_wf m' r \<and> pmm_st m' = pmm_st m \<and> cr3 m' = cr3 m \<and> res = (if fst (look m r virt) = 3 then 0 else -1)
    \<and> (\<forall>v. look m' r v = (if path v = path virt \<and> fst (look m r virt) = 3
           then (3, ?new (snd (look m r virt))) else look m r v))"
  proof (cases "tab m r ?p")
    case None
    then show ?thesis using u wf look_no_leaf [OF None] by (simp add: vmm_protect_in_def walk_only_tab)
  next
    case (Some pt)
    let ?e = "rd m pt (va_split virt 3)"
    show ?thesis
    proof (cases "?e AND VMM_PRESENT = 0")
      case True
      then show ?thesis using u wf Some look_leaf [OF Some] by (simp add: vmm_protect_in_def walk_only_tab rd_def)
    next
      case False
      have res: "res = 0" "m' = m\<lparr>pmem := (pmem m)(pt + 8 * of_nat (va_split virt 3) := ?new ?e)\<rparr>"
        using u Some False by (simp_all add: vmm_protect_in_def walk_only_tab rd_def Let_def)
      have "set ?p \<subseteq> {..<512}" "length ?p = 3" by (simp_all add: va_split_less)
      note l = leaf_write [OF wf this(1) Some this(2) va_split_less res(2)]
      have "path v = rev ?p @ [va_split virt 3] \<longleftrightarrow> path v = path virt" for v by (simp add: path_def)
      then have l2: "look m' r v = (if path v = path virt then (3, ?new ?e) else look m r v)" for v
        using l(2) [of v] by (simp only: present_or if_False split: if_split)
      then show ?thesis using l(1) res look_leaf [OF Some] False by auto
    qed
  qed
  then show "pt_wf m' r" "pmm_st m' = pmm_st m" "cr3 m' = cr3 m"
    "res = (if fst (look m r virt) = 3 then 0 else -1)"
    "look m' r v = (if path v = path virt \<and> fst (look m r virt) = 3
           then (3, ?new (snd (look m r virt))) else look m r v)" by blast+
qed

text \<open>Allocating a frame, and releasing one that is not a table, keep the address space well formed.\<close>

lemma rd_pmm_st [simp]: "rd (m\<lparr>pmm_st := s\<rparr>) t i = rd m t i"
  by (simp add: rd_def)

lemma tab_pmm_st [simp]: "tab (m\<lparr>pmm_st := s\<rparr>) r p = tab m r p"
  by (induction p) (simp_all cong: option.case_cong)

lemma look_pmm_st [simp]: "look (m\<lparr>pmm_st := s\<rparr>) r v = look m r v"
proof -
  have "look_from (m\<lparr>pmm_st := s\<rparr>) t k is = look_from m t k is" for t k "is"
    by (induction "is" arbitrary: t k) (auto split: option.splits bool.splits)
  then show ?thesis by (simp add: look_def)
qed

lemma pt_wf_alloc:
  assumes "pt_wf m r" and "alloc_frame m = (a, m')"
  shows "pt_wf m' r"
  using assms(1)
proof (cases rule: alloc_frame_cases)
  case none
  then show ?thesis using assms by simp
next
  case (some b s')
  then have "m' = m\<lparr>pmm_st := s'\<rparr>" using assms(2) by simp
  then show ?thesis using some assms(1) unfolding pt_wf_def by auto
qed

lemma pt_wf_free:
  assumes "pt_wf m r" and "a \<in> managed_frames (pmm_st m)"
    and "\<And>p. set p \<subseteq> {..<512} \<Longrightarrow> tab m r p \<noteq> Some a"
  shows "pt_wf (free_frame m a) r"
proof -
  note i = pt_wfD(1) [OF assms(1)]
  have "bitmap_frames (pmm_free_frame (pmm_st m) a) = bitmap_frames (pmm_st m)"
    by (rule pmm_free_frame_effect(3) [OF i])
  then show ?thesis
    using assms(1,3) pm.free_inv [OF i] pm.free_gives [OF i assms(2)]
    unfolding pt_wf_def free_frame_def by (auto 0 3)
qed

end
