(* ===== verification/Vmm_Props.thy ===== *)
theory Vmm_Props
  imports Vmm
begin

text \<open>
  The mapper as its clients see it: the \<open>page_map\<close> interface and its interpretation on
  \<open>vmm.c\<close>, the kernel-half slots that \<open>vmm_init\<close> fixes, and the properties of the mapper.
\<close>

section \<open>The page-map interface\<close>

text \<open>Two addresses have the same table path iff they lie in the same 48-bit page.\<close>

lemma take_bit_eq_bits:
  fixes a b :: "'a::len word"
  shows "take_bit n a = take_bit n b \<longleftrightarrow> (\<forall>j<n. bit a j = bit b j)"
proof
  assume e: "take_bit n a = take_bit n b"
  show "\<forall>j<n. bit a j = bit b j"
  proof (intro allI impI)
    fix j assume "j < n"
    moreover have "bit (take_bit n a) j = bit (take_bit n b) j" by (simp only: e)
    ultimately show "bit a j = bit b j" by (simp add: bit_take_bit_iff)
  qed
qed (rule bit_eqI, auto simp: bit_take_bit_iff)

lemma va_split_eq_iff:
  assumes "k < 4"
  shows "va_split v k = va_split w k \<longleftrightarrow> (\<forall>j<9. bit v (39 - 9 * k + j) = bit w (39 - 9 * k + j))"
proof -
  have m: "(0x1FF :: u64) = mask 9" by (simp add: mask_eq_exp_minus_1)
  have "va_split v k = va_split w k
      \<longleftrightarrow> take_bit 9 (drop_bit (39 - 9 * k) v) = take_bit 9 (drop_bit (39 - 9 * k) w)"
    unfolding va_split_def m take_bit_eq_mask [symmetric] by (simp add: word_unat_eq_iff)
  also have "\<dots> \<longleftrightarrow> (\<forall>j<9. bit v (39 - 9 * k + j) = bit w (39 - 9 * k + j))"
    by (simp only: take_bit_eq_bits bit_drop_bit_eq comp_def)
  finally show ?thesis .
qed

lemma path_eq_iff: "path v = path w \<longleftrightarrow> (\<forall>n. 12 \<le> n \<and> n < 48 \<longrightarrow> bit v n = bit w n)"
proof
  assume p: "path v = path w"
  show "\<forall>n. 12 \<le> n \<and> n < 48 \<longrightarrow> bit v n = bit w n"
  proof (intro allI impI)
    fix n assume n: "12 \<le> n \<and> n < (48 :: nat)"
    have *: "\<forall>j<9. bit v (39 + j) = bit w (39 + j)" "\<forall>j<9. bit v (30 + j) = bit w (30 + j)"
      "\<forall>j<9. bit v (21 + j) = bit w (21 + j)" "\<forall>j<9. bit v (12 + j) = bit w (12 + j)"
      using p va_split_eq_iff [of 0 v w] va_split_eq_iff [of 1 v w]
        va_split_eq_iff [of 2 v w] va_split_eq_iff [of 3 v w]
      by (simp_all add: path_def)
    consider "39 \<le> n" | "30 \<le> n" "n < 39" | "21 \<le> n" "n < 30" | "n < 21" by linarith
    then show "bit v n = bit w n"
    proof cases
      case 1
      then show ?thesis using *(1) [rule_format, of "n - 39"] n by simp
    next
      case 2
      then show ?thesis using *(2) [rule_format, of "n - 30"] by simp
    next
      case 3
      then show ?thesis using *(3) [rule_format, of "n - 21"] by simp
    next
      case 4
      then show ?thesis using *(4) [rule_format, of "n - 12"] n by simp
    qed
  qed
next
  assume "\<forall>n. 12 \<le> n \<and> n < 48 \<longrightarrow> bit v n = bit w n"
  then show "path v = path w"
    by (simp add: path_def va_split_eq_iff)
qed

definition same_page :: "u64 \<Rightarrow> u64 \<Rightarrow> bool" where
  "same_page v w \<longleftrightarrow> v AND 0xFFFFFFFFF000 = w AND 0xFFFFFFFFF000"

lemma bit_page_mask: "bit (0xFFFFFFFFF000 :: u64) n \<longleftrightarrow> 12 \<le> n \<and> n < 48"
proof -
  have "bit (push_bit 12 (mask 36) :: u64) n \<longleftrightarrow> 12 \<le> n \<and> n < 48" by (auto simp: bit_simps)
  moreover have "push_bit 12 (mask 36) = (0xFFFFFFFFF000 :: u64)" by (simp add: mask_eq_exp_minus_1)
  ultimately show ?thesis by metis
qed

lemma same_page_path: "same_page v w \<longleftrightarrow> path v = path w"
proof
  assume s: "same_page v w"
  have "bit (v AND 0xFFFFFFFFF000) n = bit (w AND 0xFFFFFFFFF000) n" for n
    using s by (simp only: same_page_def)
  then show "path v = path w" unfolding path_eq_iff bit_and_iff bit_page_mask by blast
next
  assume "path v = path w"
  then have "bit (v AND 0xFFFFFFFFF000) n = bit (w AND 0xFFFFFFFFF000) n" for n
    unfolding path_eq_iff bit_and_iff bit_page_mask by blast
  then show "same_page v w" unfolding same_page_def by (intro bit_eqI) blast
qed

lemma look_from_leaf_present: "look_from m t k is = (3, e) \<Longrightarrow> e AND VMM_PRESENT \<noteq> 0"
proof (induction "is" arbitrary: t k)
  case (Cons i "is")
  then show ?case by (auto simp: view_def split: if_splits)
qed simp

lemma entry_nonzero: "vmm_entry_in m r v \<noteq> 0 \<longleftrightarrow> fst (look m r v) = 3"
  using look_from_leaf_present [of m r 0 "path v" "snd (look m r v)"]
  by (cases "look m r v") (auto simp: vmm_entry_in_look look_def)

lemma entry_present: "vmm_entry_in m r v \<noteq> 0 \<Longrightarrow> vmm_entry_in m r v AND VMM_PRESENT \<noteq> 0"
  using look_from_leaf_present [of m r 0 "path v" "snd (look m r v)"]
  by (cases "look m r v") (auto simp: vmm_entry_in_look look_def split: if_splits)

text \<open>
  What the clients of the mapper rely on: after each operation the entry of every page is
  determined, and the address space stays well formed.
\<close>

locale page_map =
  fixes map_in :: "'m \<Rightarrow> u64 \<Rightarrow> u64 \<Rightarrow> u64 \<Rightarrow> u64 \<Rightarrow> int \<times> 'm"
    and unmap_in :: "'m \<Rightarrow> u64 \<Rightarrow> u64 \<Rightarrow> int \<times> 'm"
    and protect_in :: "'m \<Rightarrow> u64 \<Rightarrow> u64 \<Rightarrow> u64 \<Rightarrow> int \<times> 'm"
    and entry_in :: "'m \<Rightarrow> u64 \<Rightarrow> u64 \<Rightarrow> u64"
    and wf :: "'m \<Rightarrow> u64 \<Rightarrow> bool"
  assumes map_wf: "wf m r \<Longrightarrow> wf (snd (map_in m r v p f)) r"
    and map_entry: "wf m r \<Longrightarrow> entry_in (snd (map_in m r v p f)) r w =
          (if fst (map_in m r v p f) = 0 \<and> same_page w v then (p AND VMM_ADDR_MASK) OR (f OR VMM_PRESENT)
           else entry_in m r w)"
    and unmap_wf: "wf m r \<Longrightarrow> wf (snd (unmap_in m r v)) r"
    and unmap_entry: "wf m r \<Longrightarrow> entry_in (snd (unmap_in m r v)) r w = (if same_page w v then 0 else entry_in m r w)"
    and protect_wf: "wf m r \<Longrightarrow> wf (snd (protect_in m r v f)) r"
    and protect_res: "wf m r \<Longrightarrow> fst (protect_in m r v f) = (if entry_in m r v = 0 then -1 else 0)"
    and protect_entry: "wf m r \<Longrightarrow> entry_in (snd (protect_in m r v f)) r w =
          (if same_page w v \<and> entry_in m r v \<noteq> 0
           then ((entry_in m r v AND VMM_ADDR_MASK) OR (entry_in m r v AND VMM_SHARED)) OR (f OR VMM_PRESENT)
           else entry_in m r w)"
begin

lemma map_unmap_entry:
  assumes "wf m r"
  shows "entry_in (snd (unmap_in (snd (map_in m r v p f)) r v)) r w = (if same_page w v then 0 else entry_in m r w)"
  using unmap_entry [OF map_wf [OF assms]] map_entry [OF assms] by simp

lemma protect_frame:
  assumes "wf m r" and "f AND VMM_ADDR_MASK = 0" and "entry_in m r v \<noteq> 0"
  shows "entry_in (snd (protect_in m r v f)) r v AND VMM_ADDR_MASK = entry_in m r v AND VMM_ADDR_MASK"
  using assms by (simp add: protect_entry same_page_def bit.conj_disj_distrib2 and.assoc)

lemma protect_shared:
  assumes "wf m r" and "f AND VMM_SHARED = 0" and "entry_in m r v \<noteq> 0"
  shows "entry_in (snd (protect_in m r v f)) r v AND VMM_SHARED = entry_in m r v AND VMM_SHARED"
  using assms by (simp add: protect_entry same_page_def bit.conj_disj_distrib2 and.assoc)

text \<open>Running one operation over a list of addresses.\<close>

definition unmap_all :: "u64 \<Rightarrow> u64 list \<Rightarrow> 'm \<Rightarrow> 'm" where
  "unmap_all r = fold (\<lambda>v m. snd (unmap_in m r v))"

lemma unmap_all_entry:
  "wf m r \<Longrightarrow> wf (unmap_all r vs m) r \<and>
     entry_in (unmap_all r vs m) r w = (if \<exists>v\<in>set vs. same_page w v then 0 else entry_in m r w)"
proof (induction vs arbitrary: m)
  case (Cons v vs)
  then show ?case using unmap_wf [OF Cons.prems, of v] unmap_entry [OF Cons.prems, of v w]
    by (auto simp: unmap_all_def)
qed (simp add: unmap_all_def)

end

interpretation vm: page_map vmm_map_in vmm_unmap_in vmm_protect_in vmm_entry_in pt_wf
proof unfold_locales
  fix m r v p f w assume wf: "pt_wf m r"
  note e = vmm_map_in_effect [OF wf surjective_pairing, of v p f]
  note u = vmm_unmap_in_effect [OF wf surjective_pairing, of v]
  note c = vmm_protect_in_effect [OF wf surjective_pairing, of v f]
  show "pt_wf (snd (vmm_map_in m r v p f)) r" by (rule e(1))
  show "pt_wf (snd (vmm_unmap_in m r v)) r" by (rule u(1))
  show "pt_wf (snd (vmm_protect_in m r v f)) r" by (rule c(1))
  show "vmm_entry_in (snd (vmm_map_in m r v p f)) r w =
          (if fst (vmm_map_in m r v p f) = 0 \<and> same_page w v then (p AND VMM_ADDR_MASK) OR (f OR VMM_PRESENT)
           else vmm_entry_in m r w)"
    unfolding vmm_entry_in_look same_page_path using e(3) [of w] by simp
  show "fst (vmm_protect_in m r v f) = (if vmm_entry_in m r v = 0 then -1 else 0)"
    using c(4) entry_nonzero [of m r v] by simp
  have l: "path w = path v \<Longrightarrow> look m r w = look m r v" by (simp add: look_def)
  show "vmm_entry_in (snd (vmm_unmap_in m r v)) r w = (if same_page w v then 0 else vmm_entry_in m r w)"
    unfolding vmm_entry_in_look same_page_path using u(4) [of w] l by (auto split: prod.splits)
  show "vmm_entry_in (snd (vmm_protect_in m r v f)) r w =
          (if same_page w v \<and> vmm_entry_in m r v \<noteq> 0
           then ((vmm_entry_in m r v AND VMM_ADDR_MASK) OR (vmm_entry_in m r v AND VMM_SHARED)) OR (f OR VMM_PRESENT)
           else vmm_entry_in m r w)"
    unfolding entry_nonzero unfolding vmm_entry_in_look same_page_path
    using c(5) [of w] by (cases "look m r v") simp
qed

section \<open>Kernel-half slots\<close>

text \<open>Steps below the root never write a root slot.\<close>

lemma descend_root:
  assumes wf: "pt_wf m r" and p: "set p \<subseteq> {..<512}" "tab m r p = Some t" "length p \<le> 2" "p \<noteq> []" and i: "i < 512"
    and d: "descend (p \<noteq> []) m t i flags = (res, m')" and j: "j < 512"
  shows "rd m' r j = rd m r j"
proof -
  have r: "tab m r [] = Some r" "set [] \<subseteq> {..<512 :: nat}" by simp_all
  have "t \<noteq> r" using pt_wfD(5) [OF wf p(1) r(2) _ r(1)] p(2,4) by auto
  note al = pt_wfD(3) [OF wf p(1,2)] and rl = pt_wfD(3) [OF wf r(2,1)]
  have w: "rd (wr n t i v) r j = rd n r j" for n v using \<open>t \<noteq> r\<close> rd_wr [OF al rl i j] by simp
  from wf show ?thesis
  proof (cases rule: alloc_frame_cases)
    case none
    then show ?thesis using d w by (auto simp: descend_def Let_def split: if_splits)
  next
    case (some a s')
    have "a \<noteq> r" using pt_wfD(4) [OF wf r(2,1)] some(3) by blast
    then have "rd (zero_page (m\<lparr>pmm_st := s'\<rparr>) a) r j = rd m r j"
      using rd_zero_page [OF some(4) rl j] by (simp add: rd_def)
    then show ?thesis using d w some(1,2) by (auto simp: descend_def Let_def split: if_splits)
  qed
qed

lemma walk_or_create_root:
  assumes wf: "pt_wf m r" and present: "rd m r (va_split virt 0) AND VMM_PRESENT \<noteq> 0"
    and user: "flags AND VMM_USER = 0" and w: "walk_or_create m r virt flags = (res, m')" and j: "j < 512"
  shows "rd m' r j = rd m r j"
proof -
  let ?i = "va_split virt"
  note b = va_split_less [of virt]
  define pdpt where "pdpt = rd m r (?i 0) AND VMM_ADDR_MASK"
  have d1: "descend False m r (?i 0) flags = (Some pdpt, m)"
    using present user by (simp add: descend_def pdpt_def)
  have t1: "tab m r [?i 0] = Some pdpt" using present by (simp add: view_def pdpt_def)
  obtain r2 m2 where d2: "descend True m pdpt (?i 1) flags = (r2, m2)" by fastforce
  then have d2': "descend ([?i 0] \<noteq> []) m pdpt (?i 1) flags = (r2, m2)" by simp
  have s1: "set [?i 0] \<subseteq> {..<512}" "length [?i 0] \<le> 2" "[?i 0] \<noteq> []" using b by simp_all
  note e2 = descend_effect [OF wf s1(1) t1 s1(2) b d2'] and k2 = descend_root [OF wf s1(1) t1 s1(2,3) b d2' j]
  show ?thesis
  proof (cases r2)
    case None
    then show ?thesis using w d1 d2 k2 by (simp add: walk_or_create_def)
  next
    case (Some pd)
    obtain r3 m3 where d3: "descend True m2 pd (?i 2) flags = (r3, m3)" by fastforce
    then have d3': "descend ([?i 1, ?i 0] \<noteq> []) m2 pd (?i 2) flags = (r3, m3)" by simp
    have s2: "set [?i 1, ?i 0] \<subseteq> {..<512}" "length [?i 1, ?i 0] \<le> 2" "[?i 1, ?i 0] \<noteq> []" using b by simp_all
    note k3 = descend_root [OF e2(1) s2(1) e2(6) [OF Some] s2(2,3) b d3' j]
    show ?thesis using w d1 d2 d3 Some k2 k3 by (auto simp: walk_or_create_def split: option.splits)
  qed
qed

lemma vmm_map_in_root:
  assumes wf: "pt_wf m r" and "rd m r (va_split virt 0) AND VMM_PRESENT \<noteq> 0"
    and "flags AND VMM_USER = 0" and mp: "vmm_map_in m r virt phys flags = (res, m')" and j: "j < 512"
  shows "rd m' r j = rd m r j"
proof (cases "phys AND 0xFFFF800000000000 \<noteq> 0")
  case True
  then show ?thesis using mp by (simp add: vmm_map_in_def)
next
  case False
  obtain o1 m1 where w: "walk_or_create m r virt flags = (o1, m1)" by fastforce
  note k = walk_or_create_root [OF assms(1-3) w j] and e = walk_or_create_effect [OF wf w]
  show ?thesis
  proof (cases o1)
    case None
    then show ?thesis using mp w k False by (simp add: vmm_map_in_def)
  next
    case (Some pte)
    let ?p = "[va_split virt 2, va_split virt 1, va_split virt 0]"
    obtain pt where pt: "tab m1 r ?p = Some pt" "pte = pt + 8 * of_nat (va_split virt 3)"
      using e(6) [OF Some] by blast
    have s: "set ?p \<subseteq> {..<512}" "tab m1 r [] = Some r" "set [] \<subseteq> {..<512 :: nat}" by (simp_all add: va_split_less)
    have "pt \<noteq> r" using pt_wfD(5) [OF e(1) s(1,3) _ s(2)] pt(1) by auto
    then have "r + 8 * of_nat j \<noteq> pte"
      using cell_inj [OF pt_wfD(3) [OF e(1) s(3,2)] pt_wfD(3) [OF e(1) s(1) pt(1)] j va_split_less]
      unfolding pt(2) by blast
    then show ?thesis using mp w k False Some by (auto simp: vmm_map_in_def rd_def)
  qed
qed

lemma reserve_slots:
  assumes "pt_wf m r" and "set is \<subseteq> {..<512}"
  shows "pt_wf (reserve_kernel_pml4_entries m r is) r
    \<and> (\<forall>v. look (reserve_kernel_pml4_entries m r is) r v = look m r v)
    \<and> (\<forall>j<512. rd m r j AND VMM_PRESENT \<noteq> 0 \<longrightarrow> rd (reserve_kernel_pml4_entries m r is) r j = rd m r j)
    \<and> ((\<forall>i\<in>set is. rd (reserve_kernel_pml4_entries m r is) r i AND VMM_PRESENT \<noteq> 0)
       \<or> free_frames (pmm_st (reserve_kernel_pml4_entries m r is)) \<inter> {GENERAL_FIRST..} = {})"
  using assms
proof (induction "is" arbitrary: m)
  case (Cons i "is")
  have i: "i < 512" "set is \<subseteq> {..<512}" using Cons.prems by auto
  show ?case
  proof (cases "rd m r i AND VMM_PRESENT \<noteq> 0")
    case True
    then show ?thesis using Cons.IH [OF Cons.prems(1) i(2)] i(1) by auto
  next
    case absent: False
    from Cons.prems(1) show ?thesis
    proof (cases rule: alloc_frame_cases)
      case none
      then show ?thesis using absent Cons.prems(1) by simp
    next
      case (some a s')
      let ?m = "wr (zero_page (m\<lparr>pmm_st := s'\<rparr>) a) r i (a OR VMM_PRESENT OR VMM_WRITE)"
      have d: "descend ([] \<noteq> ([] :: nat list)) m r i 0 = (Some a, ?m)"
        using absent some by (simp add: descend_def)
      have r: "tab m r [] = Some r" "set [] \<subseteq> {..<512 :: nat}" "length ([] :: nat list) \<le> 2" by simp_all
      note e = descend_effect [OF Cons.prems(1) r(2,1,3) i(1) d]
      note rl = pt_wfD(3) [OF Cons.prems(1) r(2,1)]
      have "a \<noteq> r" using pt_wfD(4) [OF Cons.prems(1) r(2,1)] some(3) by blast
      then have k: "rd ?m r j = (if j = i then a OR VMM_PRESENT OR VMM_WRITE else rd m r j)" if "j < 512" for j
        unfolding rd_wr [OF rl rl i(1) that] rd_zero_page [OF some(4) rl that] by (simp add: rd_def)
      have "(a OR VMM_PRESENT OR VMM_WRITE) AND VMM_PRESENT \<noteq> 0"
        using present_or [of a VMM_WRITE] by (simp only: or.commute [of VMM_WRITE] not_False_eq_True)
      then have pi: "rd ?m r i AND VMM_PRESENT \<noteq> 0" using k [OF i(1)] by metis
      define n where "n = reserve_kernel_pml4_entries ?m r is"
      note ih = Cons.IH [OF e(1) i(2), folded n_def]
      have keep: "rd n r j = rd ?m r j" if "j < 512" "rd ?m r j AND VMM_PRESENT \<noteq> 0" for j using ih that by blast
      have keep': "rd n r j = rd m r j" if "j < 512" "rd m r j AND VMM_PRESENT \<noteq> 0" for j
      proof -
        have "j \<noteq> i" using that(2) absent by metis
        then have "rd ?m r j = rd m r j" using k [OF that(1)] by simp
        then show ?thesis using keep [OF that(1)] that(2) by metis
      qed
      have "rd n r i AND VMM_PRESENT \<noteq> 0" using keep [OF i(1) pi] pi by metis
      then have "(\<forall>i\<in>set (i # is). rd n r i AND VMM_PRESENT \<noteq> 0) \<or> free_frames (pmm_st n) \<inter> {GENERAL_FIRST..} = {}"
        using ih by (simp only: list.set ball_simps) blast
      moreover have "look n r v = look m r v" for v using ih e(2) by metis
      moreover have "reserve_kernel_pml4_entries m r (i # is) = n"
        using absent some by (simp add: n_def)
      ultimately show ?thesis using ih keep' by (simp only:) blast
    qed
  qed
qed simp

section \<open>Properties of the mapper\<close>





section \<open>Witnesses\<close>

text \<open>
  A small address space: PML4 at 0x1000, one chain of PDPT, PD and PT in frames 2 to 4 with the
  page 0x5000 mapped, a second chain in frames 6 to 8 for the start of the kernel heap, and the
  frame allocator of \<open>pmm_w\<close>.
\<close>

definition vm_w :: mach where
  "vm_w = \<lparr>pmm_st = pmm_w,
           pmem = (\<lambda>_. 0)(0x1000 := 0x2007, 0x2000 := 0x3007, 0x3000 := 0x4007, 0x4028 := 0x9007,
                          0x1900 := 0x6003, 0x6000 := 0x7003, 0x7000 := 0x8003),
           cr3 = 0x1000\<rparr>"

lemma vm_w_rd:
  assumes "t AND 4095 = 0" "i < 512"
  shows "rd vm_w t i = (if t = 0x1000 \<and> i = 0 then 0x2007 else if t = 0x2000 \<and> i = 0 then 0x3007
    else if t = 0x3000 \<and> i = 0 then 0x4007 else if t = 0x4000 \<and> i = 5 then 0x9007
    else if t = 0x1000 \<and> i = 288 then 0x6003 else if t = 0x6000 \<and> i = 0 then 0x7003
    else if t = 0x7000 \<and> i = 0 then 0x8003 else 0)"
  using cell_inj [OF assms(1) _ assms(2), of "0x1000" 0] cell_inj [OF assms(1) _ assms(2), of "0x2000" 0]
    cell_inj [OF assms(1) _ assms(2), of "0x3000" 0] cell_inj [OF assms(1) _ assms(2), of "0x4000" 5]
    cell_inj [OF assms(1) _ assms(2), of "0x1000" 288] cell_inj [OF assms(1) _ assms(2), of "0x6000" 0]
    cell_inj [OF assms(1) _ assms(2), of "0x7000" 0]
  by (simp add: rd_def vm_w_def)

lemma vm_w_tab:
  assumes "set p \<subseteq> {..<512}"
  shows "tab vm_w 0x1000 p = (if p = [] then Some 0x1000 else if p = [0] then Some 0x2000
    else if p = [0, 0] then Some 0x3000 else if p = [0, 0, 0] then Some 0x4000
    else if p = [288] then Some 0x6000 else if p = [0, 288] then Some 0x7000
    else if p = [0, 0, 288] then Some 0x8000 else None)"
  using assms
proof (induction p)
  case (Cons i p)
  then show ?case by (auto simp: vm_w_rd view_def)
qed simp

lemma frame_addr_small: "f < 2 ^ 52 \<Longrightarrow> unat (frame_addr f) = f * 4096"
  by (simp add: frame_addr_def unat_word_ariths unat_of_nat take_bit_eq_mod)

lemma vm_w_wf: "pt_wf vm_w 0x1000"
proof -
  have "avail_frames pmm_w = {0x100000, 0x101000}" by (simp add: avail_frames_def pmm_w_state frame_addr_def)
  then show ?thesis
    unfolding pt_wf_def using pmm_w_state(1,3)
    by (auto simp: vm_w_tab vm_w_def [THEN arg_cong [of _ _ pmm_st]] split: if_splits)
qed

lemma vm_w_map: "fst (vmm_map_in vm_w 0x1000 0x6000 0xA000 6) = 0"
  by (simp add: vmm_map_in_def walk_or_create_def descend_def va_split_def rd_def vm_w_def)




text \<open>A PML4 whose kernel half is fully populated, slot \<open>i\<close> holding the table in frame \<open>512 + i\<close>.\<close>

definition vm_k :: mach where
  "vm_k = \<lparr>pmm_st = pmm_w,
           pmem = (\<lambda>a. if 0x1800 \<le> a \<and> a < 0x2000 then frame_addr (unat (a - 0x1000) div 8 + 512) OR 3 else 0),
           cr3 = 0x1000\<rparr>"

lemma vm_k_rd:
  assumes "t AND 4095 = 0" "i < 512"
  shows "rd vm_k t i = (if t = 0x1000 \<and> 256 \<le> i then frame_addr (i + 512) OR 3 else 0)"
proof -
  have o: "unat (8 * of_nat i :: u64) = 8 * i" by (rule unat_cell_offset [OF assms(2)])
  have u: "unat (t + 8 * of_nat i) = unat t + 8 * i"
    using aligned_unat_add [OF assms(1), of "8 * of_nat i"] o assms(2) by simp
  obtain k where k: "unat t = 4096 * k" using assms(1) by (auto simp: aligned_iff_dvd dvd_def)
  have range: "0x1800 \<le> t + 8 * of_nat i \<and> t + 8 * of_nat i < 0x2000 \<longleftrightarrow> k = 1 \<and> 256 \<le> i"
  proof (cases "k = 1")
    case True
    then show ?thesis using assms(2) by (simp add: word_le_nat_alt word_less_nat_alt u k)
  next
    case False
    then have "k = 0 \<or> 2 \<le> k" by linarith
    then show ?thesis using assms(2) False by (auto simp: word_le_nat_alt word_less_nat_alt u k)
  qed
  have "t = 0x1000 \<longleftrightarrow> k = 1" using k by (simp add: word_unat_eq_iff)
  then show ?thesis using range o by (cases "t = 0x1000") (auto simp: rd_def vm_k_def)
qed

lemma vm_k_slot:
  assumes "i < 512"
  shows "view 0 (frame_addr (i + 512) OR 3) = Some (False, frame_addr (i + 512))"
    "(frame_addr (i + 512) OR 3) AND VMM_PRESENT \<noteq> 0"
proof -
  have "unat (frame_addr (i + 512)) < 2 ^ 52" using assms by (simp add: frame_addr_small)
  then show "view 0 (frame_addr (i + 512) OR 3) = Some (False, frame_addr (i + 512))"
    using table_entry_view [OF frame_addr_aligned, of "i + 512" 0 0] by simp
  then show "(frame_addr (i + 512) OR 3) AND VMM_PRESENT \<noteq> 0" by (auto simp: view_def split: if_splits)
qed

lemma vm_k_tab:
  assumes "set p \<subseteq> {..<512}"
  shows "tab vm_k 0x1000 p = (if p = [] then Some 0x1000
    else if length p = 1 \<and> 256 \<le> hd p then Some (frame_addr (hd p + 512)) else None)"
  using assms
proof (induction p)
  case (Cons i p)
  have "frame_addr (hd p + 512) \<noteq> 0x1000" if "length p = 1" using Cons.prems that
    by (cases p) (auto simp: word_unat_eq_iff frame_addr_small)
  then show ?case using Cons by (cases p) (auto simp: vm_k_rd vm_k_slot frame_addr_aligned split: if_splits)
qed simp

lemma vm_k_wf: "pt_wf vm_k 0x1000"
proof -
  have a: "avail_frames pmm_w = {0x100000, 0x101000}" by (simp add: avail_frames_def pmm_w_state frame_addr_def)
  have st: "pmm_st vm_k = pmm_w" by (simp add: vm_k_def)
  have f: "unat (frame_addr (i + 512)) = (i + 512) * 4096" if "i < 512" for i using that by (simp add: frame_addr_small)
  have ne: "frame_addr (i + 512) \<noteq> w" if "i < 512" "unat w < 0x200000" for i w
  proof
    assume "frame_addr (i + 512) = w"
    then show False using f [OF that(1)] that(2) by simp
  qed
  have inj: "i = j" if "i < 512" "j < 512" "frame_addr (i + 512) = frame_addr (j + 512)" for i j
  proof -
    have "(i + 512) * 4096 = (j + 512) * 4096" unfolding f [OF that(1), symmetric] f [OF that(2), symmetric] that(3) ..
    then show ?thesis by simp
  qed
  have c: "(p = [] \<and> t = 0x1000) \<or> (\<exists>i<512. p = [i] \<and> t = frame_addr (i + 512))"
    if "set p \<subseteq> {..<512}" "tab vm_k 0x1000 p = Some t" for p t
    using that unfolding vm_k_tab [OF that(1)] by (cases p) (auto split: if_splits)
  have u: "unat (0x1000 :: u64) < 0x200000" "unat (0x100000 :: u64) < 0x200000" "unat (0x101000 :: u64) < 0x200000"
    by simp_all
  show ?thesis
    unfolding pt_wf_def st a
  proof (intro conjI allI impI)
    fix p q t assume p: "set p \<subseteq> {..<512}" "tab vm_k 0x1000 p = Some t"
    show "t AND 4095 = 0" using c [OF p] by (auto simp: frame_addr_aligned)
    show "t \<notin> {0x100000, 0x101000}" using c [OF p] ne u(2,3) by auto
    assume q: "set q \<subseteq> {..<512}" "tab vm_k 0x1000 q = Some t"
    show "p = q" using c [OF p] c [OF q] ne [OF _ u(1)] inj by metis
  qed (simp_all add: pmm_w_state)
qed

lemma reserve_noop:
  "\<forall>i\<in>set is. rd m r i AND VMM_PRESENT \<noteq> 0 \<Longrightarrow> reserve_kernel_pml4_entries m r is = m"
  by (induction "is") simp_all

lemma vm_k_init: "vmm_init vm_k = (0x1000, vm_k)"
proof -
  have "cr3 vm_k AND VMM_ADDR_MASK = 0x1000" by (simp add: vm_k_def)
  moreover have "\<forall>i\<in>set [256..<512]. rd vm_k 0x1000 i AND VMM_PRESENT \<noteq> 0"
    unfolding set_upt using vm_k_slot(2) by (auto simp: vm_k_rd)
  then have "reserve_kernel_pml4_entries vm_k 0x1000 [256..<512] = vm_k" by (rule reserve_noop)
  ultimately show ?thesis unfolding vmm_init_def Let_def by (simp only:)
qed

lemma and_2_4: "(2 :: u64) AND 4 = 0"
  by simp


end
