(* ===== verification/Heap.thy ===== *)
theory Heap
  imports Vmm_Props
begin

text \<open>
  The kernel heap, \<open>kernel/memory/heap.c\<close>: a doubly linked first-fit allocator that grows by
  mapping frames at its top, and the forward-only \<open>large_alloc\<close>.  The model keeps the block
  headers in a store indexed by their address, with the source's four header fields, so that
  every pointer assignment of \<open>kmalloc\<close>, \<open>list_append\<close> and \<open>kfree\<close> is an update of that store;
  the invariant then relates the store to the sequence of blocks that tiles the heap.
\<close>

section \<open>State and operations\<close>

record block =
  bsize :: u64
  bfree :: bool
  bnext :: u64
  bprev :: u64

record heap =
  blk :: "u64 \<Rightarrow> block"
  heap_head :: u64
  heap_tail :: u64
  heap_end :: u64
  large_alloc_virt_offset :: u64
  hm :: mach

abbreviation HEAP_BASE :: u64 where "HEAP_BASE \<equiv> 0xFFFF900000000000"
abbreviation LARGE_ALLOC_VBASE :: u64 where "LARGE_ALLOC_VBASE \<equiv> 0xFFFFA00000000000"

text \<open>\<open>sizeof(struct block)\<close>: two words, an \<open>int\<close> padded to a word, and two pointers.\<close>

abbreviation HDR :: u64 where "HDR \<equiv> 32"

fun heap_grow :: "heap \<Rightarrow> nat \<Rightarrow> nat \<times> heap" where
  "heap_grow h 0 = (0, h)"
| "heap_grow h (Suc pages) =
     (let (phys, m1) = alloc_frame (hm h)
      in if phys = 0 then (0, h\<lparr>hm := m1\<rparr>)
         else
           (let (r, m2) = vmm_map m1 (heap_end h) phys (VMM_PRESENT OR VMM_WRITE)
            in if r \<noteq> 0 then (0, h\<lparr>hm := free_frame m2 phys\<rparr>)
               else
                 (let (mapped, h') = heap_grow (h\<lparr>hm := m2, heap_end := heap_end h + 4096\<rparr>) pages
                  in (Suc mapped, h'))))"

text \<open>\<open>heap_init\<close>; \<open>None\<close> is the halt loop the code enters when not one page could be mapped.\<close>

definition heap_init :: "mach \<Rightarrow> heap option" where
  "heap_init m =
     (let h0 = \<lparr>blk = (\<lambda>_. \<lparr>bsize = 0, bfree = False, bnext = 0, bprev = 0\<rparr>), heap_head = 0, heap_tail = 0,
                heap_end = HEAP_BASE, large_alloc_virt_offset = LARGE_ALLOC_VBASE, hm = m\<rparr>;
          (initial_pages, h) = heap_grow h0 256
      in if initial_pages = 0 then None
         else Some (h\<lparr>blk := (blk h)(HEAP_BASE :=
                          \<lparr>bsize = of_nat initial_pages * 4096 - HDR, bfree = True, bnext = 0, bprev = 0\<rparr>),
                      heap_head := HEAP_BASE, heap_tail := HEAP_BASE\<rparr>))"

definition list_append :: "heap \<Rightarrow> u64 \<Rightarrow> u64 \<Rightarrow> heap" where
  "list_append h region_start region_bytes =
     (if heap_tail h \<noteq> 0 \<and> bfree (blk h (heap_tail h)) then
        (let t = heap_tail h
         in h\<lparr>blk := (blk h)(t := (blk h t)\<lparr>bsize := bsize (blk h t) + region_bytes\<rparr>)\<rparr>)
      else
        (let nb = region_start; t = heap_tail h;
             B1 = (blk h)(nb := \<lparr>bsize = region_bytes - HDR, bfree = True, bnext = 0, bprev = t\<rparr>);
             B2 = (if t \<noteq> 0 then B1(t := (B1 t)\<lparr>bnext := nb\<rparr>) else B1)
         in h\<lparr>blk := B2, heap_tail := nb, heap_head := (if heap_head h = 0 then nb else heap_head h)\<rparr>))"

text \<open>The scan \<open>for (b = head; b; b = b->next)\<close>: the first free block that is large enough, or 0.\<close>

partial_function (option) find_fit :: "(u64 \<Rightarrow> block) \<Rightarrow> u64 \<Rightarrow> u64 \<Rightarrow> u64 option" where
  "find_fit B b sz =
     (if b = 0 then Some 0
      else if \<not> bfree (B b) \<or> bsize (B b) < sz then find_fit B (bnext (B b)) sz
      else Some b)"

text \<open>The body of the scan for the block it stops at: split if worthwhile, mark it used.\<close>

definition take_block :: "heap \<Rightarrow> u64 \<Rightarrow> u64 \<Rightarrow> heap" where
  "take_block h b sz =
     (let B = blk h;
          h1 = (if sz + HDR + 16 \<le> bsize (B b) then
                  (let split = b + HDR + sz; nx = bnext (B b);
                       B1 = B(split := \<lparr>bsize = bsize (B b) - sz - HDR, bfree = True, bnext = nx, bprev = b\<rparr>);
                       B2 = (if nx \<noteq> 0 then B1(nx := (B1 nx)\<lparr>bprev := split\<rparr>) else B1);
                       B3 = B2(b := (B2 b)\<lparr>bsize := sz, bnext := split\<rparr>)
                   in h\<lparr>blk := B3, heap_tail := (if nx \<noteq> 0 then heap_tail h else split)\<rparr>)
                else h)
      in h1\<lparr>blk := (blk h1)(b := (blk h1 b)\<lparr>bfree := False\<rparr>)\<rparr>)"

text \<open>The outer \<open>for (;;)\<close>: scan, or grow the heap and scan again.\<close>

partial_function (option) kmalloc_loop :: "heap \<Rightarrow> u64 \<Rightarrow> (u64 \<times> heap) option" where
  "kmalloc_loop h sz =
     Option.bind (find_fit (blk h) (heap_head h) sz)
       (\<lambda>b. if b \<noteq> 0 then Some (b + HDR, take_block h b sz)
            else
              (let needed = (sz + HDR + 4095) div 4096;
                   old_end = heap_end h;
                   (mapped, h1) = heap_grow h (unat needed)
               in if mapped = 0 then Some (0, h1)
                  else kmalloc_loop (list_append h1 old_end (of_nat mapped * 4096)) sz))"

definition kmalloc :: "heap \<Rightarrow> u64 \<Rightarrow> (u64 \<times> heap) option" where
  "kmalloc h sz = (if sz = 0 then Some (0, h) else kmalloc_loop h ((sz + 15) AND NOT 15))"

text \<open>\<open>kfree\<close> in three steps: mark the block, absorb a free successor, be absorbed by a free predecessor.\<close>

definition kfree_forward :: "heap \<Rightarrow> u64 \<Rightarrow> heap" where
  "kfree_forward h b =
     (let B = blk h; n = bnext (B b)
      in if n \<noteq> 0 \<and> bfree (B n) then
           (let nn = bnext (B n);
                B1 = B(b := (B b)\<lparr>bsize := bsize (B b) + (HDR + bsize (B n)), bnext := nn\<rparr>)
            in if nn \<noteq> 0 then h\<lparr>blk := B1(nn := (B1 nn)\<lparr>bprev := b\<rparr>)\<rparr>
               else h\<lparr>blk := B1, heap_tail := b\<rparr>)
         else h)"

definition kfree_backward :: "heap \<Rightarrow> u64 \<Rightarrow> heap" where
  "kfree_backward h b =
     (let B = blk h; p = bprev (B b)
      in if p \<noteq> 0 \<and> bfree (B p) then
           (let nx = bnext (B b);
                B1 = B(p := (B p)\<lparr>bsize := bsize (B p) + (HDR + bsize (B b)), bnext := nx\<rparr>)
            in if nx \<noteq> 0 then h\<lparr>blk := B1(nx := (B1 nx)\<lparr>bprev := p\<rparr>)\<rparr>
               else h\<lparr>blk := B1, heap_tail := p\<rparr>)
         else h)"

definition kfree :: "heap \<Rightarrow> u64 \<Rightarrow> heap" where
  "kfree h ptr =
     (if ptr = 0 then h
      else
        (let b = ptr - HDR;
             h1 = h\<lparr>blk := (blk h)(b := (blk h b)\<lparr>bfree := True\<rparr>)\<rparr>
         in kfree_backward (kfree_forward h1 b) b))"

text \<open>The mapping loop of \<open>large_alloc\<close>; both failures return with what was mapped so far in place.\<close>

fun large_map :: "mach \<Rightarrow> u64 \<Rightarrow> nat \<Rightarrow> bool \<times> mach" where
  "large_map m virt 0 = (True, m)"
| "large_map m virt (Suc n) =
     (let (phys, m1) = alloc_frame m
      in if phys = 0 then (False, m1)
         else
           (let (r, m2) = vmm_map m1 virt phys (VMM_PRESENT OR VMM_WRITE)
            in if r \<noteq> 0 then (False, m2) else large_map m2 (virt + 4096) n))"

definition large_alloc :: "heap \<Rightarrow> u64 \<Rightarrow> u64 \<times> heap" where
  "large_alloc h sz =
     (if sz = 0 then (0, h)
      else
        (let pages = (sz + 4095) div 4096;
             virt_start = large_alloc_virt_offset h;
             (ok, m1) = large_map (hm h) virt_start (unat pages)
         in if ok then (virt_start, h\<lparr>hm := m1, large_alloc_virt_offset := virt_start + pages * 4096\<rparr>)
            else (0, h\<lparr>hm := m1\<rparr>)))"

section \<open>Block sequences\<close>

text \<open>
  The abstract view of the heap: the sequence of its blocks, each an address, a payload size
  and a free flag.  \<open>linked\<close> reads the sequence off the headers, \<open>tiled\<close> says that the blocks
  fill an interval of addresses without gaps.
\<close>

type_synonym ablk = "u64 \<times> u64 \<times> bool"

fun first :: "ablk list \<Rightarrow> u64 \<Rightarrow> u64" where
  "first [] n = n"
| "first ((a, s, f) # bs) n = a"

definition lasta :: "u64 \<Rightarrow> ablk list \<Rightarrow> u64" where
  "lasta p bs = (if bs = [] then p else fst (last bs))"

fun linked :: "(u64 \<Rightarrow> block) \<Rightarrow> u64 \<Rightarrow> ablk list \<Rightarrow> u64 \<Rightarrow> bool" where
  "linked B p [] n = True"
| "linked B p ((a, s, f) # bs) n =
     (B a = \<lparr>bsize = s, bfree = f, bnext = first bs n, bprev = p\<rparr> \<and> linked B a bs n)"

fun tiled :: "nat \<Rightarrow> ablk list \<Rightarrow> nat \<Rightarrow> bool" where
  "tiled x [] e = (x = e)"
| "tiled x ((a, s, f) # bs) e =
     (unat a = x \<and> 16 dvd unat s \<and> 16 \<le> unat s \<and> tiled (x + 32 + unat s) bs e)"

definition live :: "ablk list \<Rightarrow> (u64 \<times> u64) set" where
  "live bs = {(a, s). (a, s, False) \<in> set bs}"

definition not_both_free :: "ablk \<Rightarrow> ablk \<Rightarrow> bool" where
  "not_both_free x y \<longleftrightarrow> \<not> (snd (snd x) \<and> snd (snd y))"

definition heap_lk :: "heap \<Rightarrow> ablk list \<Rightarrow> bool" where
  "heap_lk h bs \<longleftrightarrow>
     bs \<noteq> [] \<and> linked (blk h) 0 bs 0 \<and> heap_head h = first bs 0 \<and> heap_tail h = lasta 0 bs
     \<and> tiled (unat HEAP_BASE) bs (unat (heap_end h))
     \<and> 4096 dvd unat (heap_end h) \<and> pt_wf (hm h) (current_pml4 (hm h))"

definition heap_inv :: "heap \<Rightarrow> ablk list \<Rightarrow> bool" where
  "heap_inv h bs \<longleftrightarrow> heap_lk h bs \<and> successively not_both_free bs"

text \<open>The free frames of the machine fit into the address window of the heap.\<close>

definition heap_room :: "heap \<Rightarrow> bool" where
  "heap_room h \<longleftrightarrow> unat (heap_end h) + 4096 * card (avail_frames (pmm_st (hm h))) \<le> unat LARGE_ALLOC_VBASE"

lemma first_append [simp]: "first (xs @ ys) n = first xs (first ys n)"
  by (cases xs) auto

lemma lasta_append [simp]: "lasta p (xs @ ys) = lasta (lasta p xs) ys"
  by (simp add: lasta_def)

lemma lasta_simps [simp]: "lasta p [] = p" "lasta p [(a, s, f)] = a" "lasta p ((a, s, f) # y # ys) = lasta p (y # ys)"
  by (simp_all add: lasta_def)

lemma lasta_Cons: "lasta p ((a, s, f) # ys) = lasta a ys"
  by (simp add: lasta_def)

lemma linked_append [simp]:
  "linked B p (xs @ ys) n \<longleftrightarrow> linked B p xs (first ys n) \<and> linked B (lasta p xs) ys n"
proof (induction xs arbitrary: p)
  case (Cons x xs)
  then show ?case by (cases x) (auto simp: lasta_Cons)
qed simp

lemma linked_upd [simp]:
  "a \<notin> fst ` set bs \<Longrightarrow> linked (B(a := v)) p bs n \<longleftrightarrow> linked B p bs n"
proof (induction bs arbitrary: p)
  case (Cons x xs)
  then show ?case by (cases x) auto
qed simp

lemma tiled_append: "tiled x (xs @ ys) e \<longleftrightarrow> (\<exists>y. tiled x xs y \<and> tiled y ys e)"
proof (induction xs arbitrary: x)
  case (Cons a xs)
  then show ?case by (cases a) auto
qed simp

lemma tiled_le: "tiled x bs e \<Longrightarrow> x \<le> e"
proof (induction bs arbitrary: x)
  case (Cons b bs)
  obtain a s f where [simp]: "b = (a, s, f)" by (cases b)
  from Cons show ?case by force
qed simp

lemma tiled_mem:
  "tiled x bs e \<Longrightarrow> (a, s, f) \<in> set bs \<Longrightarrow>
     x \<le> unat a \<and> unat a + 32 + unat s \<le> e \<and> 16 dvd unat s \<and> 16 \<le> unat s"
proof (induction bs arbitrary: x)
  case (Cons b bs)
  obtain a' s' f' where [simp]: "b = (a', s', f')" by (cases b)
  show ?case
  proof (cases "(a, s, f) = b")
    case True
    then show ?thesis using Cons.prems tiled_le [of _ bs e] by fastforce
  next
    case False
    then show ?thesis using Cons.IH [of "x + 32 + unat s'"] Cons.prems by auto
  qed
qed simp

lemma tiled_addr: "tiled x bs e \<Longrightarrow> a \<in> fst ` set bs \<Longrightarrow> x \<le> unat a \<and> unat a < e"
  using tiled_mem by fastforce

lemma tiled_align: "tiled x bs e \<Longrightarrow> 16 dvd x \<Longrightarrow> a \<in> fst ` set bs \<Longrightarrow> 16 dvd unat a"
proof (induction bs arbitrary: x)
  case (Cons b bs)
  obtain a' s' f' where [simp]: "b = (a', s', f')" by (cases b)
  have "16 dvd x + 32 + unat s'" using Cons.prems by (simp add: dvd_add)
  then show ?case using Cons.IH [of "x + 32 + unat s'"] Cons.prems by auto
qed simp

lemma tiled_distinct: "tiled x bs e \<Longrightarrow> distinct (map fst bs)"
proof (induction bs arbitrary: x)
  case (Cons b bs)
  obtain a s f where [simp]: "b = (a, s, f)" by (cases b)
  have t: "tiled (x + 32 + unat s) bs e" "unat a = x" using Cons.prems by simp_all
  have "a \<notin> fst ` set bs" using tiled_addr [OF t(1), of a] t(2) by auto
  then show ?case using Cons.IH [OF t(1)] by simp
qed simp

text \<open>The decomposition of the heap around one block, which every operation starts from.\<close>

lemma heap_split:
  assumes "heap_lk h bs" and "bs = xs @ (a, s, f) # ys"
  shows "a \<notin> fst ` set xs" "a \<notin> fst ` set ys" "fst ` set xs \<inter> fst ` set ys = {}"
    "tiled (unat HEAP_BASE) xs (unat a)" "tiled (unat a + 32 + unat s) ys (unat (heap_end h))"
    "unat a + 32 + unat s \<le> unat (heap_end h)" "16 dvd unat s" "16 \<le> unat s" "a \<noteq> 0"
    "0 \<notin> fst ` set xs" "0 \<notin> fst ` set ys"
    "linked (blk h) 0 xs a" "blk h a = \<lparr>bsize = s, bfree = f, bnext = first ys 0, bprev = lasta 0 xs\<rparr>"
    "linked (blk h) a ys 0"
proof -
  have t: "tiled (unat HEAP_BASE) (xs @ (a, s, f) # ys) (unat (heap_end h))"
    using assms by (simp add: heap_lk_def)
  from tiled_distinct [OF t] show "a \<notin> fst ` set xs" "a \<notin> fst ` set ys" "fst ` set xs \<inter> fst ` set ys = {}"
    by auto
  from t show t1: "tiled (unat HEAP_BASE) xs (unat a)" and t2: "tiled (unat a + 32 + unat s) ys (unat (heap_end h))"
    and "16 dvd unat s" "16 \<le> unat s"
    by (auto simp: tiled_append)
  from t2 show "unat a + 32 + unat s \<le> unat (heap_end h)" by (rule tiled_le)
  have "unat HEAP_BASE \<le> unat a" using t1 by (rule tiled_le)
  then show "a \<noteq> 0" by auto
  show "0 \<notin> fst ` set xs" "0 \<notin> fst ` set ys" using tiled_addr [OF t, of 0] by auto
  show "linked (blk h) 0 xs a" "blk h a = \<lparr>bsize = s, bfree = f, bnext = first ys 0, bprev = lasta 0 xs\<rparr>"
    "linked (blk h) a ys 0" using assms by (simp_all add: heap_lk_def)
qed

lemma heap_invI:
  assumes "bs \<noteq> []" "linked (blk h) 0 bs 0" "heap_head h = first bs 0" "heap_tail h = lasta 0 bs"
    "tiled (unat HEAP_BASE) bs (unat (heap_end h))" "successively not_both_free bs"
    "4096 dvd unat (heap_end h)" "pt_wf (hm h) (current_pml4 (hm h))"
  shows "heap_inv h bs"
  using assms by (simp add: heap_inv_def heap_lk_def)

lemma heap_invD:
  assumes "heap_inv h bs"
  shows "bs \<noteq> []" "linked (blk h) 0 bs 0" "heap_head h = first bs 0" "heap_tail h = lasta 0 bs"
    "tiled (unat HEAP_BASE) bs (unat (heap_end h))" "successively not_both_free bs"
    "4096 dvd unat (heap_end h)" "pt_wf (hm h) (current_pml4 (hm h))"
  using assms by (simp_all add: heap_inv_def heap_lk_def)

lemma heap_inv_lk: "heap_inv h bs \<Longrightarrow> heap_lk h bs"
  by (simp add: heap_inv_def)

lemma live_append [simp]: "live (xs @ ys) = live xs \<union> live ys"
  by (auto simp: live_def)

lemma live_Cons [simp]: "live ((a, s, f) # bs) = (if f then live bs else insert (a, s) (live bs))"
  by (auto simp: live_def)

lemma live_Nil [simp]: "live [] = {}"
  by (simp add: live_def)

lemma live_addr: "(a, s) \<in> live bs \<Longrightarrow> a \<in> fst ` set bs"
  by (force simp: live_def)

section \<open>Searching and splitting\<close>

lemma find_fit_linked:
  assumes "linked B p bs 0" "0 \<notin> fst ` set bs"
  shows "find_fit B (first bs 0) sz =
    Some (case find (\<lambda>(a, s, f). f \<and> sz \<le> s) bs of None \<Rightarrow> 0 | Some (a, s, f) \<Rightarrow> a)"
  using assms
proof (induction bs arbitrary: p)
  case Nil
  then show ?case by (subst find_fit.simps) simp
next
  case (Cons b bs)
  obtain a s f where [simp]: "b = (a, s, f)" by (cases b)
  have "find_fit B (first bs 0) sz =
    Some (case find (\<lambda>(a, s, f). f \<and> sz \<le> s) bs of None \<Rightarrow> 0 | Some (a, s, f) \<Rightarrow> a)"
    using Cons.IH [of a] Cons.prems by auto
  then show ?case using Cons.prems by (subst find_fit.simps) (auto simp: not_le)
qed

lemma unat_plus_le:
  assumes "unat (x :: u64) + unat y \<le> unat (z :: u64)"
  shows "unat (x + y) = unat x + unat y"
proof -
  have "unat z < 2 ^ 64" using unsigned_less [of z, where 'a = nat] by simp
  then have "unat x + unat y < 2 ^ 64" using assms by linarith
  then show ?thesis by (simp add: unat_word_ariths)
qed

lemma unat_plus_hdr:
  assumes "unat x + 32 + unat y \<le> unat (z :: u64)"
  shows "unat (x + HDR + y) = unat x + 32 + unat y"
proof -
  have x: "unat (x + HDR) = unat x + 32" using unat_plus_le [of x HDR z] assms by simp
  then show ?thesis using unat_plus_le [of "x + HDR" y z] assms by simp
qed

lemma successively_change:
  assumes "successively not_both_free (xs @ (a, s, f) # ys)"
  shows "successively not_both_free (xs @ (a, s', False) # ys)"
  using assms by (auto simp: successively_append_iff successively_Cons not_both_free_def)

lemma take_block_whole:
  assumes inv: "heap_inv h bs" and bs: "bs = xs @ (a, s, True) # ys" and no: "\<not> sz + HDR + 16 \<le> s"
  shows "heap_inv (take_block h a sz) (xs @ (a, s, False) # ys)"
    and "hm (take_block h a sz) = hm h" "heap_end (take_block h a sz) = heap_end h"
proof -
  note sp = heap_split [OF heap_inv_lk [OF inv] bs] and d = heap_invD [OF inv]
  have t: "take_block h a sz = h\<lparr>blk := (blk h)(a := (blk h a)\<lparr>bfree := False\<rparr>)\<rparr>"
    using no sp(13) by (simp add: take_block_def)
  show "heap_inv (take_block h a sz) (xs @ (a, s, False) # ys)"
    using sp d bs successively_change [of xs a s True ys s]
    by (intro heap_invI) (simp_all add: t tiled_append lasta_Cons)
  show "hm (take_block h a sz) = hm h" "heap_end (take_block h a sz) = heap_end h" by (simp_all add: t)
qed

lemma take_block_split:
  assumes inv: "heap_inv h bs" and bs: "bs = xs @ (a, s, True) # ys"
    and fit: "unat sz + 48 \<le> unat s" and al: "16 dvd unat sz" "16 \<le> unat sz"
  shows "heap_inv (take_block h a sz) (xs @ (a, sz, False) # (a + HDR + sz, s - sz - HDR, True) # ys)"
    and "hm (take_block h a sz) = hm h" "heap_end (take_block h a sz) = heap_end h"
proof -
  note sp = heap_split [OF heap_inv_lk [OF inv] bs] and d = heap_invD [OF inv]
  let ?q = "a + HDR + sz" and ?r = "s - sz - HDR"
  have q: "unat ?q = unat a + 32 + unat sz" by (rule unat_plus_hdr [of _ _ "heap_end h"]) (use sp(6) fit in linarith)
  have "unat (s - sz) = unat s - unat sz" using fit by (intro unat_sub) (simp add: word_le_nat_alt)
  then have r: "unat ?r = unat s - unat sz - 32"
    using fit by (subst unat_sub) (simp_all add: word_le_nat_alt)
  have big: "sz + HDR + 16 \<le> s"
  proof -
    have "unat (sz + 48) = unat sz + 48" using unat_plus_le [of sz 48 s] fit by simp
    then show ?thesis using fit by (simp add: word_le_nat_alt add.assoc)
  qed
  have qx: "?q \<notin> fst ` set xs" using tiled_addr [OF sp(4), of ?q] q by auto
  have qy: "?q \<notin> fst ` set ys" using tiled_addr [OF sp(5), of ?q] q fit by auto
  have qa: "?q \<noteq> a"
  proof
    assume "?q = a"
    then have "unat ?q = unat a" by (rule arg_cong)
    then show False using q by simp
  qed
  have dv: "16 dvd unat ?r" "16 \<le> unat ?r" unfolding r using fit al sp(7) by (auto intro!: dvd_diff_nat)
  have sum: "unat a + 32 + unat sz + 32 + unat ?r = unat a + 32 + unat s" unfolding r using fit by simp
  have tile: "tiled (unat HEAP_BASE) (xs @ (a, sz, False) # (?q, ?r, True) # ys) (unat (heap_end h))"
  proof -
    have "tiled (unat a + 32 + unat sz + 32 + unat ?r) ys (unat (heap_end h))" using sp(5) by (simp only: sum)
    then show ?thesis using sp(4) dv al by (simp only: tiled_append tiled.simps q) blast
  qed
  have succ: "successively not_both_free (xs @ (a, sz, False) # (?q, ?r, True) # ys)"
    using d(6) unfolding bs
    by (cases ys) (auto simp: successively_append_iff successively_Cons not_both_free_def)
  have a0: "?q \<noteq> 0" using q sp(9) by auto
  show "heap_inv (take_block h a sz) (xs @ (a, sz, False) # (?q, ?r, True) # ys)"
  proof (cases ys)
    case Nil
    have t: "take_block h a sz = h\<lparr>blk := (blk h)(?q := \<lparr>bsize = ?r, bfree = True, bnext = 0, bprev = a\<rparr>,
        a := (blk h a)\<lparr>bsize := sz, bnext := ?q, bfree := False\<rparr>), heap_tail := ?q\<rparr>"
      using big sp(13) Nil qa by (simp add: take_block_def Let_def)
    show ?thesis using sp d bs qx qa qy tile succ Nil
      by (intro heap_invI) (simp_all add: t)
  next
    case (Cons y ys')
    obtain c u g where y: "y = (c, u, g)" by (cases y)
    have c: "c \<noteq> 0" "c \<noteq> a" "c \<noteq> ?q" "c \<notin> fst ` set xs" using sp(2,3,11) qy Cons y by auto
    have cy: "c \<notin> fst ` set ys'" using tiled_distinct [OF sp(5)] Cons y by simp
    have t: "take_block h a sz = h\<lparr>blk := (blk h)(?q := \<lparr>bsize = ?r, bfree = True, bnext = c, bprev = a\<rparr>,
        c := (blk h c)\<lparr>bprev := ?q\<rparr>,
        a := (blk h a)\<lparr>bsize := sz, bnext := ?q, bfree := False\<rparr>)\<rparr>"
      using big sp(13) Cons y qa c by (simp add: take_block_def Let_def)
    show ?thesis using sp d bs qx qa qy tile succ Cons y c cy
      by (intro heap_invI) (simp_all add: t lasta_Cons)
  qed
  show "hm (take_block h a sz) = hm h" "heap_end (take_block h a sz) = heap_end h"
    by (simp_all add: take_block_def Let_def)
qed

section \<open>Growing\<close>

lemma list_append_effect:
  assumes inv: "heap_inv h bs" and same: "blk h1 = blk h" "heap_head h1 = heap_head h" "heap_tail h1 = heap_tail h"
    and e: "unat (heap_end h1) = unat (heap_end h) + unat bytes" and b: "4096 dvd unat bytes" "bytes \<noteq> 0"
    and wf: "pt_wf (hm h1) (current_pml4 (hm h1))"
  shows "\<exists>bs'. heap_inv (list_append h1 (heap_end h) bytes) bs' \<and> live bs' = live bs"
    and "hm (list_append h1 (heap_end h) bytes) = hm h1" "heap_end (list_append h1 (heap_end h) bytes) = heap_end h1"
proof -
  note d = heap_invD [OF inv]
  obtain xs a s f where bs: "bs = xs @ [(a, s, f)]"
    using d(1) by (metis append_butlast_last_id prod_cases3)
  note sp = heap_split [OF heap_inv_lk [OF inv] bs]
  have tail: "heap_tail h1 = a" using d(4) same(3) bs by simp
  have pos: "4096 \<le> unat bytes" using b by (metis dvd_imp_le unat_eq_zero bot_nat_0.not_eq_extremum)
  have al: "16 dvd unat bytes" using b(1) dvd_trans [of 16 4096 "unat bytes"] by simp
  have dv: "4096 dvd unat (heap_end h1)" using e b(1) d(7) by (simp add: dvd_add)
  have te: "unat a + 32 + unat s = unat (heap_end h)" using sp(5) by simp
  show "\<exists>bs'. heap_inv (list_append h1 (heap_end h) bytes) bs' \<and> live bs' = live bs"
  proof (cases f)
    case True
    have s': "unat (s + bytes) = unat s + unat bytes"
      by (rule unat_plus_le [of _ _ "heap_end h1"]) (use e te in linarith)
    have t: "list_append h1 (heap_end h) bytes = h1\<lparr>blk := (blk h)(a := (blk h a)\<lparr>bsize := s + bytes\<rparr>)\<rparr>"
      using tail True sp(9,13) same(1) by (simp add: list_append_def Let_def)
    have "heap_inv (list_append h1 (heap_end h) bytes) (xs @ [(a, s + bytes, f)])"
      using sp d bs same wf dv tail True s' al te e pos
      by (intro heap_invI) (auto simp: t tiled_append successively_append_iff not_both_free_def)
    then show ?thesis using bs True by (intro exI [of _ "xs @ [(a, s + bytes, f)]"]) simp
  next
    case False
    let ?n = "heap_end h"
    have n: "?n \<notin> fst ` set xs" "?n \<noteq> a" using tiled_addr [OF d(5), of ?n] bs by auto
    have s': "unat (bytes - HDR) = unat bytes - 32"
      using pos by (subst unat_sub) (simp_all add: word_le_nat_alt)
    have dv': "16 dvd unat bytes - 32" using al by (intro dvd_diff_nat) simp_all
    have t: "list_append h1 ?n bytes = h1\<lparr>blk := (blk h)(?n := \<lparr>bsize = bytes - HDR, bfree = True, bnext = 0, bprev = a\<rparr>,
        a := (blk h a)\<lparr>bnext := ?n\<rparr>), heap_tail := ?n\<rparr>"
      using tail False sp(9,10,13) same n d(3) bs by (cases xs) (auto simp: list_append_def Let_def)
    have "heap_inv (list_append h1 ?n bytes) (bs @ [(?n, bytes - HDR, True)])"
      using sp d bs same wf dv tail False s' dv' te e pos n
      by (intro heap_invI) (auto simp: t tiled_append successively_append_iff not_both_free_def)
    then show ?thesis by (intro exI [of _ "bs @ [(?n, bytes - HDR, True)]"]) simp
  qed
  show "hm (list_append h1 (heap_end h) bytes) = hm h1" "heap_end (list_append h1 (heap_end h) bytes) = heap_end h1"
    by (simp_all add: list_append_def Let_def)
qed

lemma heap_grow_effect:
  assumes "pt_wf (hm h) (current_pml4 (hm h))" and "heap_room h" and "heap_grow h n = (k, h')"
  shows "pt_wf (hm h') (current_pml4 (hm h')) \<and> heap_room h' \<and> k \<le> n
    \<and> blk h' = blk h \<and> heap_head h' = heap_head h \<and> heap_tail h' = heap_tail h
    \<and> large_alloc_virt_offset h' = large_alloc_virt_offset h
    \<and> unat (heap_end h') = unat (heap_end h) + 4096 * k
    \<and> card (avail_frames (pmm_st (hm h'))) + k \<le> card (avail_frames (pmm_st (hm h)))"
  using assms
proof (induction n arbitrary: h k h')
  case (Suc n)
  let ?r = "current_pml4 (hm h)"
  have fin: "finite (avail_frames (pmm_st (hm h)))" by (simp add: avail_frames_def free_frames_def)
  from Suc.prems(1) show ?case
  proof (cases rule: alloc_frame_cases)
    case none
    then show ?thesis using Suc.prems by auto
  next
    case (some a s')
    let ?m1 = "(hm h)\<lparr>pmm_st := s'\<rparr>"
    obtain r m2 where v: "vmm_map ?m1 (heap_end h) a (VMM_PRESENT OR VMM_WRITE) = (r, m2)" by fastforce
    have cur: "current_pml4 ?m1 = ?r" by (simp add: current_pml4_def)
    have wf1: "pt_wf ?m1 ?r" by (rule pt_wf_alloc [OF Suc.prems(1) some(1)])
    note e = vmm_map_in_effect [OF wf1, of "heap_end h" a "VMM_PRESENT OR VMM_WRITE" r m2]
    have v': "vmm_map_in ?m1 ?r (heap_end h) a (VMM_PRESENT OR VMM_WRITE) = (r, m2)"
      using v by (simp add: vmm_map_def cur)
    note e = e [OF v']
    have sub: "avail_frames (pmm_st m2) \<subseteq> avail_frames (pmm_st (hm h)) - {a}"
      using e(5) some(8) by simp
    have cur2: "current_pml4 m2 = ?r" using e(4) by (simp add: current_pml4_def)
    show ?thesis
    proof (cases "r = 0")
      case False
      have man: "a \<in> managed_frames (pmm_st m2)"
        using e(6) pm.avail_managed [OF pt_wfD(1) [OF Suc.prems(1)]] some(3,7) by (auto simp: managed_frames_def)
      have "tab m2 ?r p \<noteq> Some a" if "set p \<subseteq> {..<512}" for p
        using e(8) [OF that, of a] pt_wfD(4) [OF Suc.prems(1) that, of a] some(3,8) by auto
      note wf2 = pt_wf_free [OF e(1) man this]
      have "avail_frames (pmm_st (free_frame m2 a)) \<subseteq> avail_frames (pmm_st (hm h))"
        using pm.free_gives [OF pt_wfD(1) [OF e(1)] man] sub some(3) by (auto simp: free_frame_def)
      then have c: "card (avail_frames (pmm_st (free_frame m2 a))) \<le> card (avail_frames (pmm_st (hm h)))"
        by (rule card_mono [OF fin])
      have "k = 0" "h' = h\<lparr>hm := free_frame m2 a\<rparr>"
        using Suc.prems(3) some(1,2) v False by simp_all
      moreover have "current_pml4 (free_frame m2 a) = ?r" using cur2 by (simp add: free_frame_def current_pml4_def)
      ultimately show ?thesis using wf2 c Suc.prems(2) by (simp add: heap_room_def)
    next
      case True
      let ?h1 = "h\<lparr>hm := m2, heap_end := heap_end h + 4096\<rparr>"
      have "card (avail_frames (pmm_st m2)) \<le> card (avail_frames (pmm_st (hm h)) - {a})"
        by (rule card_mono [OF _ sub]) (use fin in simp)
      also have "Suc \<dots> = card (avail_frames (pmm_st (hm h)))" using fin some(3) by (rule card_Suc_Diff1)
      then have c: "card (avail_frames (pmm_st (hm h)) - {a}) + 1 = card (avail_frames (pmm_st (hm h)))" by simp
      finally have c1: "card (avail_frames (pmm_st m2)) + 1 \<le> card (avail_frames (pmm_st (hm h)))" using c by simp
      have he: "unat (heap_end h + 4096) = unat (heap_end h) + 4096"
        using unat_plus_le [of "heap_end h" 4096 LARGE_ALLOC_VBASE] Suc.prems(2) c1 by (simp add: heap_room_def)
      have room: "heap_room ?h1" using Suc.prems(2) c1 by (simp add: heap_room_def he)
      obtain k' h2 where g: "heap_grow ?h1 n = (k', h2)" by fastforce
      have "k = Suc k'" "h' = h2" using Suc.prems(3) some(1,2) v True g by simp_all
      moreover have "pt_wf (hm ?h1) (current_pml4 (hm ?h1))" using e(1) cur2 by simp
      ultimately show ?thesis using Suc.IH [OF _ room g] c1 he by simp
    qed
  qed
qed simp

section \<open>Allocation and release\<close>

lemma find_blockE:
  assumes "find (\<lambda>(a, s, f). f \<and> sz \<le> s) bs = Some (a, s, f)"
  obtains xs ys where "bs = xs @ (a, s, True) # ys" "sz \<le> s" "f"
proof -
  have "(a, s, f) \<in> set bs" "f" "sz \<le> s"
    using assms by (auto simp: find_Some_iff in_set_conv_nth)
  then obtain xs ys where "bs = xs @ (a, s, True) # ys" by (auto dest: split_list)
  with \<open>f\<close> \<open>sz \<le> s\<close> show thesis by (auto intro: that)
qed

lemma take_block_effect:
  assumes inv: "heap_inv h bs" and bs: "bs = xs @ (a, s, True) # ys" and fit: "sz \<le> s"
    and al: "16 dvd unat sz" "16 \<le> unat sz" "unat sz + 48 < 2 ^ 64"
  shows "\<exists>bs' t. heap_inv (take_block h a sz) bs' \<and> sz \<le> t \<and> a \<notin> fst ` live bs
      \<and> live bs' = insert (a, t) (live bs)"
    and "hm (take_block h a sz) = hm h" "heap_end (take_block h a sz) = heap_end h"
proof -
  note sp = heap_split [OF heap_inv_lk [OF inv] bs]
  have fresh: "a \<notin> fst ` live bs"
    using sp(1,2) live_addr [of a _ xs] live_addr [of a _ ys] by (auto simp: bs)
  have 48: "unat (sz + HDR + 16) = unat sz + 48"
  proof -
    have "unat (sz + 48) = unat sz + 48" using al(3) by (simp add: unat_word_ariths)
    then show ?thesis by (simp add: add.assoc)
  qed
  show "\<exists>bs' t. heap_inv (take_block h a sz) bs' \<and> sz \<le> t \<and> a \<notin> fst ` live bs
      \<and> live bs' = insert (a, t) (live bs)"
  proof (cases "sz + HDR + 16 \<le> s")
    case False
    have "live (xs @ (a, s, False) # ys) = insert (a, s) (live bs)" by (simp add: bs)
    then show ?thesis using take_block_whole(1) [OF inv bs False] fit fresh by blast
  next
    case True
    then have "unat sz + 48 \<le> unat s" using 48 by (simp add: word_le_nat_alt)
    note t = take_block_split(1) [OF inv bs this al(1,2)]
    have "live (xs @ (a, sz, False) # (a + HDR + sz, s - sz - HDR, True) # ys) = insert (a, sz) (live bs)"
      by (simp add: bs)
    then show ?thesis using t fresh by blast
  qed
  show "hm (take_block h a sz) = hm h" "heap_end (take_block h a sz) = heap_end h"
    by (simp_all add: take_block_def Let_def)
qed

lemma kmalloc_loop_effect:
  assumes "heap_inv h bs" and "heap_room h" and al: "16 dvd unat sz" "16 \<le> unat sz" "unat sz + 48 < 2 ^ 64"
  shows "\<exists>p h' bs'. kmalloc_loop h sz = Some (p, h') \<and> heap_inv h' bs' \<and> heap_room h' \<and>
    (if p = 0 then live bs' = live bs
     else \<exists>t. sz \<le> t \<and> p - HDR \<notin> fst ` live bs \<and> live bs' = insert (p - HDR, t) (live bs))"
  using assms(1,2)
proof (induction "card (avail_frames (pmm_st (hm h)))" arbitrary: h bs rule: less_induct)
  case less
  note d = heap_invD [OF less.prems(1)]
  have nz: "0 \<notin> fst ` set bs" using tiled_addr [OF d(5), of 0] by auto
  note ff = find_fit_linked [OF d(2) nz, of sz]
  show ?case
  proof (cases "find (\<lambda>(a, s, f). f \<and> sz \<le> s) bs")
    case (Some b)
    obtain a s f where b: "b = (a, s, f)" by (cases b)
    obtain xs ys where bs: "bs = xs @ (a, s, True) # ys" "sz \<le> s" using Some b by (auto elim: find_blockE)
    note t = take_block_effect [OF less.prems(1) bs al]
    note sp = heap_split [OF heap_inv_lk [OF less.prems(1)] bs(1)]
    have "unat (a + HDR) = unat a + 32" using unat_plus_le [of a HDR "heap_end h"] sp(6) by simp
    then have p: "a + HDR \<noteq> 0" by (metis add_eq_0_iff_both_eq_0 unat_0 zero_neq_numeral)
    have "kmalloc_loop h sz = Some (a + HDR, take_block h a sz)"
      using ff Some b sp(9) d(3) by (subst kmalloc_loop.simps) simp
    moreover have "heap_room (take_block h a sz)" using less.prems(2) t(2,3) by (simp add: heap_room_def)
    ultimately show ?thesis using t(1) p by auto
  next
    case None
    obtain k h1 where g: "heap_grow h (unat ((sz + HDR + 4095) div 4096)) = (k, h1)" by fastforce
    note e = heap_grow_effect [OF d(8) less.prems(2) g]
    have un: "kmalloc_loop h sz = (if k = 0 then Some (0, h1)
        else kmalloc_loop (list_append h1 (heap_end h) (of_nat k * 4096)) sz)"
      using ff None d(3) g by (subst kmalloc_loop.simps) simp
    show ?thesis
    proof (cases "k = 0")
      case True
      have "heap_end h1 = heap_end h" using e True by (simp add: word_unat_eq_iff)
      then have "heap_inv h1 bs" using d e by (intro heap_invI) auto
      then show ?thesis using un True e by auto
    next
      case False
      have kb: "4096 * k < 2 ^ 64" using e unsigned_less [of "heap_end h1", where 'a = nat] by simp
      have ub: "unat (of_nat k * 4096 :: u64) = 4096 * k"
        using kb by (simp add: unat_word_ariths unat_of_nat take_bit_eq_mod)
      have nz: "of_nat k * 4096 \<noteq> (0 :: u64)" using ub False by (metis mult_eq_0_iff unat_0 zero_neq_numeral)
      let ?h2 = "list_append h1 (heap_end h) (of_nat k * 4096)"
      obtain bs2 where b2: "heap_inv ?h2 bs2" "live bs2 = live bs"
        using list_append_effect(1) [OF less.prems(1), of h1 "of_nat k * 4096"] e ub nz by auto
      have "hm ?h2 = hm h1" "heap_end ?h2 = heap_end h1" by (simp_all add: list_append_def Let_def)
      then have "card (avail_frames (pmm_st (hm ?h2))) < card (avail_frames (pmm_st (hm h)))" "heap_room ?h2"
        using e False by (auto simp: heap_room_def)
      note ih = less.hyps [OF this(1) b2(1) this(2)]
      show ?thesis using ih unfolding un b2(2) by (simp only: False if_False)
    qed
  qed
qed

lemma unat_merge:
  assumes "unat s + 32 + unat t \<le> unat (z :: u64)"
  shows "unat (s + (HDR + t)) = unat s + 32 + unat t"
  using unat_plus_hdr [OF assms] by (simp add: add.assoc)

lemma kfree_forward_effect:
  assumes lk: "heap_lk h bs" and bs: "bs = xs @ (a, s, True) # ys" and suc: "successively not_both_free ys"
  obtains s2 ys2 where "heap_lk (kfree_forward h a) (xs @ (a, s2, True) # ys2)" "live ys2 = live ys"
    "successively not_both_free ((a, s2, True) # ys2)"
proof (cases "\<exists>c t ys'. ys = (c, t, True) # ys'")
  case False
  note sp = heap_split [OF lk bs]
  have "kfree_forward h a = h \<and> successively not_both_free ((a, s, True) # ys)"
  proof (cases ys)
    case Nil
    then show ?thesis using sp(13) by (simp add: kfree_forward_def Let_def)
  next
    case (Cons y zs)
    obtain c t f where y: "y = (c, t, f)" by (cases y)
    have "\<not> f" using False Cons y by auto
    then show ?thesis using sp(13,14) Cons y suc by (simp add: kfree_forward_def Let_def not_both_free_def)
  qed
  then show thesis using that lk bs by auto
next
  case True
  then obtain c t ys' where ys: "ys = (c, t, True) # ys'" by blast
  note sp = heap_split [OF lk bs]
  have b2: "bs = (xs @ [(a, s, True)]) @ (c, t, True) # ys'" by (simp add: bs ys)
  note sc = heap_split [OF lk b2]
  have u: "unat (s + (HDR + t)) = unat s + 32 + unat t"
    by (rule unat_merge [of _ _ "heap_end h"]) (use sp(5) sc(6) ys in auto)
  have c: "c = a + (HDR + s)" "unat c = unat a + 32 + unat s"
    using sp(5,6) ys unat_plus_hdr [of a s "heap_end h"] by (simp_all add: word_unat_eq_iff add.assoc)
  have tile: "tiled (unat HEAP_BASE) (xs @ (a, s + (HDR + t), True) # ys') (unat (heap_end h))"
  proof -
    have "tiled (unat a + 32 + (unat s + 32 + unat t)) ys' (unat (heap_end h))"
      using sc(5) c(2) by (simp add: add.assoc)
    moreover have "16 dvd unat s + 32 + unat t" using sp(7) sc(7) by (simp add: dvd_add)
    ultimately show ?thesis using sp(4) sc(8) unfolding tiled_append tiled.simps u by auto
  qed
  have n0: "c \<noteq> 0" using sc(9) .
  have "heap_lk (kfree_forward h a) (xs @ (a, s + (HDR + t), True) # ys')"
  proof (cases ys')
    case Nil
    have "kfree_forward h a = h\<lparr>blk := (blk h)(a := (blk h a)\<lparr>bsize := s + (HDR + t), bnext := 0\<rparr>), heap_tail := a\<rparr>"
      using sp(13) sc(13) ys n0 Nil by (simp add: kfree_forward_def Let_def)
    then show ?thesis using lk sp sc tile ys Nil
      unfolding heap_lk_def bs by (simp add: lasta_Cons)
  next
    case (Cons y zs)
    obtain e v g where y: "y = (e, v, g)" by (cases y)
    have e: "e \<noteq> 0" "e \<noteq> a" "e \<noteq> c" "e \<notin> fst ` set xs" "e \<notin> fst ` set zs"
      using sp(2,3) sc(2,11) ys Cons y tiled_distinct [OF sc(5)] by auto
    have "kfree_forward h a = h\<lparr>blk := (blk h)(a := (blk h a)\<lparr>bsize := s + (HDR + t), bnext := e\<rparr>,
        e := (blk h e)\<lparr>bprev := a\<rparr>)\<rparr>"
      using sp(13) sc(13) ys n0 Cons y e by (simp add: kfree_forward_def Let_def)
    then show ?thesis using lk sp sc tile ys Cons y e
      unfolding heap_lk_def bs by (simp add: lasta_Cons)
  qed
  moreover have "successively not_both_free ((a, s + (HDR + t), True) # ys')"
    using suc ys by (cases ys') (auto simp: not_both_free_def)
  ultimately show thesis using that ys by simp
qed

lemma kfree_backward_effect:
  assumes lk: "heap_lk h bs" and bs: "bs = xs @ (a, s, True) # ys"
  shows "heap_lk (kfree_backward h a)
     (if xs \<noteq> [] \<and> snd (snd (last xs))
      then butlast xs @ (fst (last xs), fst (snd (last xs)) + (HDR + s), True) # ys else bs)"
proof (cases "xs \<noteq> [] \<and> snd (snd (last xs))")
  case False
  note sp = heap_split [OF lk bs]
  have "kfree_backward h a = h"
  proof (cases xs rule: rev_cases)
    case Nil
    then show ?thesis using sp(13) by (simp add: kfree_backward_def Let_def)
  next
    case (snoc us x)
    obtain p t f where x: "x = (p, t, f)" by (cases x)
    have "\<not> f" using False snoc x by simp
    then show ?thesis using sp(12,13) snoc x by (simp add: kfree_backward_def Let_def)
  qed
  then show ?thesis using lk by (simp only: False if_False)
next
  case True
  then obtain us p t where xs: "xs = us @ [(p, t, True)]"
    by (cases xs rule: rev_cases) auto
  note sp = heap_split [OF lk bs]
  have b2: "bs = us @ (p, t, True) # (a, s, True) # ys" by (simp add: bs xs)
  note sc = heap_split [OF lk b2]
  have ua: "unat a = unat p + 32 + unat t" using sc(5) by simp
  have u: "unat (t + (HDR + s)) = unat t + 32 + unat s"
    by (rule unat_merge [of _ _ "heap_end h"]) (use sp(6) ua in auto)
  have tile: "tiled (unat HEAP_BASE) (us @ (p, t + (HDR + s), True) # ys) (unat (heap_end h))"
  proof -
    have "tiled (unat p + 32 + (unat t + 32 + unat s)) ys (unat (heap_end h))"
      using sp(5) ua by (simp add: add.assoc)
    moreover have "16 dvd unat t + 32 + unat s" using sp(7) sc(7) by (simp add: dvd_add)
    ultimately show ?thesis using sc(4,8) unfolding tiled_append tiled.simps u by auto
  qed
  have pa: "p \<noteq> a" using sp(1) xs by auto
  have res: "heap_lk (kfree_backward h a) (us @ (p, t + (HDR + s), True) # ys)"
  proof (cases ys)
    case Nil
    have "kfree_backward h a = h\<lparr>blk := (blk h)(p := (blk h p)\<lparr>bsize := t + (HDR + s), bnext := 0\<rparr>), heap_tail := p\<rparr>"
      using sp(13) sc(9,13) xs Nil by (simp add: kfree_backward_def Let_def)
    then show ?thesis using lk sp sc tile xs Nil
      unfolding heap_lk_def bs by (simp add: lasta_Cons)
  next
    case (Cons y zs)
    obtain e v g where y: "y = (e, v, g)" by (cases y)
    have e: "e \<noteq> 0" "e \<noteq> a" "e \<noteq> p" "e \<notin> fst ` set us" "e \<notin> fst ` set zs"
      using sp(2,3,11) sc(2) xs Cons y tiled_distinct [OF sp(5)] by auto
    have "kfree_backward h a = h\<lparr>blk := (blk h)(p := (blk h p)\<lparr>bsize := t + (HDR + s), bnext := e\<rparr>,
        e := (blk h e)\<lparr>bprev := p\<rparr>)\<rparr>"
      using sp(13) sc(9,13) xs Cons y e by (simp add: kfree_backward_def Let_def)
    then show ?thesis using lk sp sc tile xs Cons y e
      unfolding heap_lk_def bs by (simp add: lasta_Cons)
  qed
  then show ?thesis by (simp add: xs)
qed

lemma kfree_keeps:
  "hm (kfree_forward h b) = hm h" "heap_end (kfree_forward h b) = heap_end h"
  "hm (kfree_backward h b) = hm h" "heap_end (kfree_backward h b) = heap_end h"
  by (simp_all add: kfree_forward_def kfree_backward_def Let_def)

lemma kfree_effect:
  assumes inv: "heap_inv h bs" and a: "(a, s) \<in> live bs"
  shows "\<exists>bs'. heap_inv (kfree h (a + HDR)) bs' \<and> live bs' = live bs - {(a, s)}"
    and "hm (kfree h (a + HDR)) = hm h" "heap_end (kfree h (a + HDR)) = heap_end h"
proof -
  obtain xs ys where bs: "bs = xs @ (a, s, False) # ys" using a by (auto simp: live_def dest: split_list)
  note lk = heap_inv_lk [OF inv]
  note sp = heap_split [OF lk bs]
  let ?h1 = "h\<lparr>blk := (blk h)(a := (blk h a)\<lparr>bfree := True\<rparr>)\<rparr>"
  have lk1: "heap_lk ?h1 (xs @ (a, s, True) # ys)"
    using lk sp unfolding heap_lk_def bs by (simp add: lasta_Cons tiled_append)
  have suc: "successively not_both_free xs" "successively not_both_free ys"
    using heap_invD(6) [OF inv] unfolding bs by (auto simp: successively_append_iff successively_Cons)
  obtain s2 ys2 where f: "heap_lk (kfree_forward ?h1 a) (xs @ (a, s2, True) # ys2)" and ly: "live ys2 = live ys"
      and suc2: "successively not_both_free ((a, s2, True) # ys2)"
    by (rule kfree_forward_effect [OF lk1 refl suc(2)])
  note lk2 = kfree_backward_effect [OF f refl]
  have p: "a + HDR \<noteq> 0"
  proof -
    have "unat (a + HDR) = unat a + 32" using unat_plus_le [of a HDR "heap_end h"] sp(6) by simp
    then show ?thesis by (metis add_eq_0_iff_both_eq_0 unat_0 zero_neq_numeral)
  qed
  have k: "kfree h (a + HDR) = kfree_backward (kfree_forward ?h1 a) a" using p by (simp add: kfree_def Let_def)
  have new: "(a, s) \<notin> live xs" "(a, s) \<notin> live ys" using sp(1,2) live_addr by blast+
  then have lv: "live bs - {(a, s)} = live xs \<union> live ys" by (auto simp: bs)
  show "\<exists>bs'. heap_inv (kfree h (a + HDR)) bs' \<and> live bs' = live bs - {(a, s)}"
  proof (cases "xs \<noteq> [] \<and> snd (snd (last xs))")
    case False
    then have "heap_inv (kfree h (a + HDR)) (xs @ (a, s2, True) # ys2)"
      using lk2 suc(1) suc2 unfolding heap_inv_def k
      by (auto simp: successively_append_iff not_both_free_def)
    moreover have "live (xs @ (a, s2, True) # ys2) = live bs - {(a, s)}" by (simp add: lv ly)
    ultimately show ?thesis by blast
  next
    case True
    obtain us x t where xs: "xs = us @ [(x, t, True)]" using True by (cases xs rule: rev_cases) auto
    have "heap_inv (kfree h (a + HDR)) (us @ (x, t + (HDR + s2), True) # ys2)"
      using lk2 suc(1) suc2 unfolding heap_inv_def k xs
      by (auto simp: successively_append_iff successively_Cons not_both_free_def)
    moreover have "live (us @ (x, t + (HDR + s2), True) # ys2) = live bs - {(a, s)}" by (simp add: lv ly xs)
    ultimately show ?thesis by blast
  qed
  show "hm (kfree h (a + HDR)) = hm h" "heap_end (kfree h (a + HDR)) = heap_end h"
    unfolding k kfree_keeps by simp_all
qed

end
