(* ===== verification/Heap_Props.thy ===== *)
theory Heap_Props
  imports Heap
begin

text \<open>
  The kernel heap as its clients see it: the \<open>block_allocator\<close> interface and its interpretation
  on \<open>kmalloc\<close> and \<open>kfree\<close>, the heaps reachable from \<open>heap_init\<close>, and the properties of the heap.
\<close>

section \<open>The allocator interface\<close>

text \<open>The block sequence is determined by the heap state, so its live payloads are a function of it.\<close>

lemma linked_unique:
  "linked B p bs 0 \<Longrightarrow> linked B p cs 0 \<Longrightarrow> first bs 0 = first cs 0 \<Longrightarrow> 0 \<notin> fst ` set bs \<Longrightarrow> 0 \<notin> fst ` set cs
    \<Longrightarrow> bs = cs"
proof (induction bs arbitrary: p cs)
  case Nil
  then show ?case by (cases cs) auto
next
  case (Cons b bs)
  obtain a s f where b: "b = (a, s, f)" by (cases b)
  obtain c cs' where cs: "cs = c # cs'" using Cons.prems b by (cases cs) auto
  obtain a' s' f' where c: "c = (a', s', f')" by (cases c)
  have e: "a' = a" "s' = s" "f' = f" "first bs 0 = first cs' 0" using Cons.prems b cs c by auto
  then have "bs = cs'" using Cons.IH [of a cs'] Cons.prems b cs c by auto
  then show ?case using b cs c e by simp
qed

lemma heap_inv_unique: "heap_inv h bs \<Longrightarrow> heap_inv h cs \<Longrightarrow> bs = cs"
proof -
  assume i: "heap_inv h bs" "heap_inv h cs"
  note d = heap_invD [OF i(1)] and e = heap_invD [OF i(2)]
  have "0 \<notin> fst ` set bs" "0 \<notin> fst ` set cs"
    using tiled_addr [OF d(5), of 0] tiled_addr [OF e(5), of 0] by auto
  then show ?thesis using linked_unique [OF d(2) e(2)] d(3) e(3) by simp
qed

definition heap_ok :: "heap \<Rightarrow> bool" where
  "heap_ok h \<longleftrightarrow> (\<exists>bs. heap_inv h bs) \<and> heap_room h"

text \<open>The payloads handed out and not yet released: address and size.\<close>

definition heap_live :: "heap \<Rightarrow> (u64 \<times> u64) set" where
  "heap_live h = {(p, s). \<exists>bs. heap_inv h bs \<and> (p - HDR, s) \<in> live bs}"

lemma heap_live_iff: "heap_inv h bs \<Longrightarrow> (p, s) \<in> heap_live h \<longleftrightarrow> (p - HDR, s) \<in> live bs"
  unfolding heap_live_def using heap_inv_unique by auto

lemma tiled_disjoint:
  "tiled x bs e \<Longrightarrow> (a, s, f) \<in> set bs \<Longrightarrow> (b, t, g) \<in> set bs \<Longrightarrow> a \<noteq> b \<Longrightarrow>
     unat a + 32 + unat s \<le> unat b \<or> unat b + 32 + unat t \<le> unat a"
proof (induction bs arbitrary: x)
  case (Cons y bs)
  obtain c u k where y: "y = (c, u, k)" by (cases y)
  have t: "tiled (x + 32 + unat u) bs e" "unat c = x" using Cons.prems(1) y by simp_all
  show ?case
  proof (cases "(a, s, f) = y \<or> (b, t, g) = y")
    case True
    then show ?thesis using Cons.prems(2-4) y t(2) tiled_mem [OF t(1), of a s f] tiled_mem [OF t(1), of b t g] by auto
  next
    case False
    then show ?thesis using Cons.IH [OF t(1)] Cons.prems(2-4) by auto
  qed
qed simp

lemma live_payload:
  assumes "heap_inv h bs" and "(a, s) \<in> live bs"
  shows "unat (a + HDR) = unat a + 32" "a + HDR \<noteq> 0" "16 dvd unat (a + HDR)"
    "unat HEAP_BASE + 32 \<le> unat (a + HDR)" "unat (a + HDR) + unat s \<le> unat (heap_end h)"
proof -
  note d = heap_invD [OF assms(1)]
  have m: "(a, s, False) \<in> set bs" using assms(2) by (simp add: live_def)
  note t = tiled_mem [OF d(5) m]
  show u: "unat (a + HDR) = unat a + 32" using unat_plus_le [of a HDR "heap_end h"] t by simp
  then show "unat HEAP_BASE + 32 \<le> unat (a + HDR)" "unat (a + HDR) + unat s \<le> unat (heap_end h)" using t by simp_all
  show "a + HDR \<noteq> 0" using u by (metis add_eq_0_iff_both_eq_0 unat_0 zero_neq_numeral)
  have "16 dvd unat a" by (rule tiled_align [OF d(5) _ live_addr [OF assms(2)]]) simp
  then show "16 dvd unat (a + HDR)" using u by (simp add: dvd_add)
qed

lemma round16:
  assumes "unat (sz :: u64) + 63 < 2 ^ 64"
  shows "unat ((sz + 15) AND NOT 15) = (unat sz + 15) div 16 * 16"
proof -
  have "unat (sz + 15) = unat sz + 15" using assms by (simp add: unat_word_ariths)
  then show ?thesis by (simp only: and_not_15)
qed

lemma kmalloc_effect:
  assumes inv: "heap_inv h bs" and room: "heap_room h" and sz: "0 < sz" "unat sz + 63 < 2 ^ 64"
  shows "\<exists>p h' bs'. kmalloc h sz = Some (p, h') \<and> heap_inv h' bs' \<and> heap_room h' \<and>
    (if p = 0 then live bs' = live bs
     else \<exists>t. sz \<le> t \<and> p - HDR \<notin> fst ` live bs \<and> live bs' = insert (p - HDR, t) (live bs))"
proof -
  let ?s = "(sz + 15) AND NOT 15"
  note r = round16 [OF sz(2)]
  have "0 < unat sz" using sz(1) by (simp add: word_less_nat_alt)
  moreover define q where "q = (unat sz + 15) div 16"
  moreover have "q * 16 + (unat sz + 15) mod 16 = unat sz + 15" "(unat sz + 15) mod 16 < 16" by (simp_all add: q_def)
  moreover have "unat ?s = q * 16" using r by (simp only: q_def)
  ultimately have le: "unat sz \<le> unat ?s" "16 \<le> unat ?s" "unat ?s + 48 < 2 ^ 64" using sz(2) by (cases q; linarith)+
  have "16 dvd unat ?s" unfolding r by simp
  note k = kmalloc_loop_effect [OF inv room this le(2,3)]
  have "sz \<le> ?s" using le(1) by (simp add: word_le_nat_alt)
  then have "sz \<le> t" if "?s \<le> t" for t using that by (rule order_trans)
  moreover have "kmalloc h sz = kmalloc_loop h ?s" using sz(1) by (auto simp: kmalloc_def)
  ultimately show ?thesis using k by (simp split: if_splits) metis
qed

text \<open>
  What a client of a block allocator relies on: a request is answered with a fresh block or
  with 0, a release removes exactly the block released, live blocks never overlap.
\<close>

locale block_allocator =
  fixes malloc :: "'s \<Rightarrow> u64 \<Rightarrow> (u64 \<times> 's) option"
    and free :: "'s \<Rightarrow> u64 \<Rightarrow> 's"
    and ok :: "'s \<Rightarrow> bool"
    and blocks :: "'s \<Rightarrow> (u64 \<times> u64) set"
    and sane :: "u64 \<Rightarrow> bool"
  assumes malloc_total: "ok s \<Longrightarrow> sane n \<Longrightarrow> \<exists>p s'. malloc s n = Some (p, s')"
    and malloc_ok: "ok s \<Longrightarrow> sane n \<Longrightarrow> malloc s n = Some (p, s') \<Longrightarrow> ok s'"
    and malloc_fail: "ok s \<Longrightarrow> sane n \<Longrightarrow> malloc s n = Some (0, s') \<Longrightarrow> blocks s' = blocks s"
    and malloc_block: "ok s \<Longrightarrow> sane n \<Longrightarrow> malloc s n = Some (p, s') \<Longrightarrow> p \<noteq> 0 \<Longrightarrow>
          \<exists>t\<ge>n. p \<notin> fst ` blocks s \<and> blocks s' = insert (p, t) (blocks s)"
    and free_ok: "ok s \<Longrightarrow> (p, t) \<in> blocks s \<Longrightarrow> ok (free s p)"
    and free_block: "ok s \<Longrightarrow> (p, t) \<in> blocks s \<Longrightarrow> blocks (free s p) = blocks s - {(p, t)}"
    and disjoint: "ok s \<Longrightarrow> (p, t) \<in> blocks s \<Longrightarrow> (q, u) \<in> blocks s \<Longrightarrow> p \<noteq> q \<Longrightarrow>
          unat p + unat t \<le> unat q \<or> unat q + unat u \<le> unat p"
    and nonnull: "ok s \<Longrightarrow> (p, t) \<in> blocks s \<Longrightarrow> p \<noteq> 0"
begin

lemma malloc_free_blocks:
  assumes "ok s" "sane n" "malloc s n = Some (p, s')" "p \<noteq> 0"
  shows "ok (free s' p)" "blocks (free s' p) = blocks s"
proof -
  obtain t where t: "p \<notin> fst ` blocks s" "blocks s' = insert (p, t) (blocks s)"
    using malloc_block [OF assms] by blast
  note o = malloc_ok [OF assms(1-3)]
  have m: "(p, t) \<in> blocks s'" using t(2) by simp
  show "ok (free s' p)" by (rule free_ok [OF o m])
  have "(p, t) \<notin> blocks s" using t(1) by force
  then show "blocks (free s' p) = blocks s" using free_block [OF o m] t(2) by simp
qed

lemma malloc_twice_disjoint:
  assumes "ok s" "sane n" "malloc s n = Some (p, s1)" "p \<noteq> 0"
    and "sane k" "malloc s1 k = Some (q, s2)" "q \<noteq> 0"
  shows "unat p + unat n \<le> unat q \<or> unat q + unat k \<le> unat p"
proof -
  obtain t where t: "n \<le> t" "blocks s1 = insert (p, t) (blocks s)" using malloc_block [OF assms(1-4)] by blast
  note o = malloc_ok [OF assms(1-3)]
  obtain u where u: "k \<le> u" "q \<notin> fst ` blocks s1" "blocks s2 = insert (q, u) (blocks s1)"
    using malloc_block [OF o assms(5-7)] by blast
  have "p \<noteq> q" using t(2) u(2) by force
  then have "unat p + unat t \<le> unat q \<or> unat q + unat u \<le> unat p"
    using disjoint [OF malloc_ok [OF o assms(5,6)], of p t q u] t(2) u(3) by simp
  moreover have "unat n \<le> unat t" "unat k \<le> unat u" using t(1) u(1) by (simp_all add: word_le_nat_alt)
  ultimately show ?thesis by linarith
qed

end

definition kmalloc_sane :: "u64 \<Rightarrow> bool" where
  "kmalloc_sane n \<longleftrightarrow> 0 < n \<and> unat n + 63 < 2 ^ 64"

lemma kmalloc_result:
  assumes "heap_ok h" and "kmalloc_sane n"
  obtains p h' where "kmalloc h n = Some (p, h')" "heap_ok h'"
    "p = 0 \<Longrightarrow> heap_live h' = heap_live h"
    "p \<noteq> 0 \<Longrightarrow> \<exists>t\<ge>n. p \<notin> fst ` heap_live h \<and> heap_live h' = insert (p, t) (heap_live h)"
proof -
  obtain bs where i: "heap_inv h bs" "heap_room h" using assms(1) by (auto simp: heap_ok_def)
  obtain p h' bs' where k: "kmalloc h n = Some (p, h')" "heap_inv h' bs'" "heap_room h'"
    "if p = 0 then live bs' = live bs
     else \<exists>t. n \<le> t \<and> p - HDR \<notin> fst ` live bs \<and> live bs' = insert (p - HDR, t) (live bs)"
    using kmalloc_effect [OF i, of n] assms(2) by (auto simp: kmalloc_sane_def)
  have "heap_ok h'" using k(2,3) by (auto simp: heap_ok_def)
  moreover have "heap_live h' = heap_live h" if "p = 0"
    using k(4) that heap_live_iff [OF i(1)] heap_live_iff [OF k(2)] by auto
  moreover have "\<exists>t\<ge>n. p \<notin> fst ` heap_live h \<and> heap_live h' = insert (p, t) (heap_live h)" if nz: "p \<noteq> 0"
  proof -
    obtain t where t: "n \<le> t" "p - HDR \<notin> fst ` live bs" "live bs' = insert (p - HDR, t) (live bs)"
      using k(4) nz by (simp only: if_False) blast
    have "p \<notin> fst ` heap_live h"
    proof
      assume "p \<in> fst ` heap_live h"
      then obtain s where "(p, s) \<in> heap_live h" by force
      then have "(p - HDR, s) \<in> live bs" by (simp only: heap_live_iff [OF i(1)])
      then show False using t(2) by force
    qed
    moreover have "x \<in> heap_live h' \<longleftrightarrow> x \<in> insert (p, t) (heap_live h)" for x
      using t(3) by (cases x) (simp add: heap_live_iff [OF i(1)] heap_live_iff [OF k(2)])
    ultimately show ?thesis using t(1) by blast
  qed
  ultimately show thesis using that k(1) by blast
qed

lemma kfree_result:
  assumes "heap_ok h" and "(p, t) \<in> heap_live h"
  shows "heap_ok (kfree h p)" "heap_live (kfree h p) = heap_live h - {(p, t)}"
proof -
  obtain bs where i: "heap_inv h bs" "heap_room h" using assms(1) by (auto simp: heap_ok_def)
  have m: "(p - HDR, t) \<in> live bs" using assms(2) by (simp only: heap_live_iff [OF i(1)])
  note e = kfree_effect [OF i(1) m, simplified]
  obtain bs' where b: "heap_inv (kfree h p) bs'" "live bs' = live bs - {(p - HDR, t)}" using e(1) by blast
  show "heap_ok (kfree h p)" using b(1) i(2) e(2,3) by (auto simp: heap_ok_def heap_room_def)
  have "x \<in> heap_live (kfree h p) \<longleftrightarrow> x \<in> heap_live h - {(p, t)}" for x
    by (cases x) (simp add: heap_live_iff [OF i(1)] heap_live_iff [OF b(1)] b(2))
  then show "heap_live (kfree h p) = heap_live h - {(p, t)}" by blast
qed

lemma heap_live_disjoint:
  assumes "heap_ok h" and "(p, t) \<in> heap_live h" "(q, u) \<in> heap_live h" "p \<noteq> q"
  shows "unat p + unat t \<le> unat q \<or> unat q + unat u \<le> unat p"
proof -
  obtain bs where i: "heap_inv h bs" using assms(1) by (auto simp: heap_ok_def)
  have m: "(p - HDR, t) \<in> live bs" "(q - HDR, u) \<in> live bs" using assms(2,3) by (simp_all only: heap_live_iff [OF i])
  have "p - HDR \<noteq> q - HDR" using assms(4) by simp
  then have "unat (p - HDR) + 32 + unat t \<le> unat (q - HDR) \<or> unat (q - HDR) + 32 + unat u \<le> unat (p - HDR)"
    using tiled_disjoint [OF heap_invD(5) [OF i]] m by (simp add: live_def)
  then show ?thesis using live_payload(1) [OF i m(1)] live_payload(1) [OF i m(2)] by auto
qed

interpretation kheap: block_allocator kmalloc kfree heap_ok heap_live kmalloc_sane
proof unfold_locales
  fix s n p s' t q u assume o: "heap_ok s"
  show "heap_ok (kfree s p)" "heap_live (kfree s p) = heap_live s - {(p, t)}" if "(p, t) \<in> heap_live s"
    using kfree_result [OF o that] by blast+
  show "unat p + unat t \<le> unat q \<or> unat q + unat u \<le> unat p"
    if "(p, t) \<in> heap_live s" "(q, u) \<in> heap_live s" "p \<noteq> q"
    by (rule heap_live_disjoint [OF o that])
  show "p \<noteq> 0" if "(p, t) \<in> heap_live s"
  proof -
    obtain bs where i: "heap_inv s bs" using o by (auto simp: heap_ok_def)
    have "(p - HDR, t) \<in> live bs" using that by (simp only: heap_live_iff [OF i])
    from live_payload(2) [OF i this] show ?thesis by simp
  qed
  assume n: "kmalloc_sane n"
  from kmalloc_result [OF o n] obtain p0 h0 where k: "kmalloc s n = Some (p0, h0)" "heap_ok h0"
    "p0 = 0 \<Longrightarrow> heap_live h0 = heap_live s"
    "p0 \<noteq> 0 \<Longrightarrow> \<exists>t\<ge>n. p0 \<notin> fst ` heap_live s \<and> heap_live h0 = insert (p0, t) (heap_live s)" by blast
  then show "\<exists>p s'. kmalloc s n = Some (p, s')" by blast
  show "heap_ok s'" if "kmalloc s n = Some (p, s')" using k that by simp
  show "heap_live s' = heap_live s" if "kmalloc s n = Some (0, s')" using k that by simp
  show "\<exists>t\<ge>n. p \<notin> fst ` heap_live s \<and> heap_live s' = insert (p, t) (heap_live s)"
    if "kmalloc s n = Some (p, s')" "p \<noteq> 0" using k that by simp
qed

section \<open>Reachable heaps\<close>

lemma heap_init_effect:
  assumes wf: "pt_wf m (current_pml4 m)" and room: "card (avail_frames (pmm_st m)) \<le> 2 ^ 32"
    and h: "heap_init m = Some h"
  shows "\<exists>s. heap_inv h [(HEAP_BASE, s, True)]" "heap_room h"
proof -
  let ?h0 = "\<lparr>blk = (\<lambda>_. \<lparr>bsize = 0, bfree = False, bnext = 0, bprev = 0\<rparr>), heap_head = 0, heap_tail = 0,
                heap_end = HEAP_BASE, large_alloc_virt_offset = LARGE_ALLOC_VBASE, hm = m\<rparr>"
  obtain k h1 where g: "heap_grow ?h0 256 = (k, h1)" by fastforce
  have r0: "heap_room ?h0" using room by (simp add: heap_room_def)
  have w0: "pt_wf (hm ?h0) (current_pml4 (hm ?h0))" using wf by simp
  note e = heap_grow_effect [OF w0 r0 g]
  have kb: "k \<le> 256" using e by simp
  have k0: "k \<noteq> 0"
  proof
    assume "k = 0"
    then have "heap_init m = None" using g unfolding heap_init_def Let_def by simp
    then show False using h by simp
  qed
  have hh: "h = h1\<lparr>blk := (blk h1)(HEAP_BASE := \<lparr>bsize = of_nat k * 4096 - HDR, bfree = True, bnext = 0, bprev = 0\<rparr>),
      heap_head := HEAP_BASE, heap_tail := HEAP_BASE\<rparr>"
    using h g k0 unfolding heap_init_def Let_def by simp
  have u: "unat (of_nat k * 4096 :: u64) = k * 4096"
    using kb by (simp add: unat_word_ariths unat_of_nat take_bit_eq_mod)
  have s: "unat (of_nat k * 4096 - HDR :: u64) = k * 4096 - 32"
    using u k0 by (subst unat_sub) (simp_all add: word_le_nat_alt)
  have "16 dvd k * 4096 - 32" by (rule dvd_diff_nat) simp_all
  moreover have "16 \<le> k * 4096 - 32" using k0 by (cases k) simp_all
  moreover have "unat (heap_end h1) = 18446620928407240704 + 32 + (k * 4096 - 32)" using e k0 by (cases k) simp_all
  moreover have "4096 dvd unat (heap_end h1)" using e by simp
  ultimately have "heap_inv h [(HEAP_BASE, of_nat k * 4096 - HDR, True)]"
    using e unfolding hh by (intro heap_invI) (simp_all add: s lasta_def)
  then show "\<exists>s. heap_inv h [(HEAP_BASE, s, True)]" by blast
  show "heap_room h" using e unfolding hh by (simp add: heap_room_def)
qed

text \<open>
  The states a kernel reaches from \<open>heap_init\<close> by any sequence of \<open>kmalloc\<close> and of \<open>kfree\<close> calls
  on pointers \<open>kmalloc\<close> has handed out and that are still live.
\<close>

inductive heap_reach :: "heap \<Rightarrow> bool" where
  init: "pt_wf m (current_pml4 m) \<Longrightarrow> card (avail_frames (pmm_st m)) \<le> 2 ^ 32 \<Longrightarrow> heap_init m = Some h \<Longrightarrow> heap_reach h"
| malloc: "heap_reach h \<Longrightarrow> kmalloc_sane sz \<Longrightarrow> kmalloc h sz = Some (p, h') \<Longrightarrow> heap_reach h'"
| free: "heap_reach h \<Longrightarrow> (p, t) \<in> heap_live h \<Longrightarrow> heap_reach (kfree h p)"

lemma heap_reach_ok: "heap_reach h \<Longrightarrow> heap_ok h"
proof (induction rule: heap_reach.induct)
  case (init m h)
  from heap_init_effect [OF init] show ?case by (auto simp: heap_ok_def)
next
  case (malloc h sz p h')
  then show ?case by (auto intro: kheap.malloc_ok)
next
  case (free h p t)
  then show ?case by (auto intro: kheap.free_ok)
qed

section \<open>Properties of the heap\<close>




section \<open>Witnesses\<close>

text \<open>The heap that \<open>heap_init\<close> builds on the machine \<open>vm_w\<close>, which has two free frames.\<close>

definition heap_w :: heap where
  "heap_w = the (heap_init vm_w)"

lemma vm_w_alloc: "alloc_frame vm_w = (0x100000, vm_w\<lparr>pmm_st := snd (pmm_alloc_frame pmm_w)\<rparr>)"
proof -
  have "fst (pmm_alloc_frame pmm_w) = frame_addr 256"
    by (simp add: pmm_alloc_frame_next_fit pmm_w_next_fit allocate_frame_at_def Let_def)
  then have "pmm_alloc_frame (pmm_st vm_w) = (0x100000, snd (pmm_alloc_frame pmm_w))"
    by (intro prod_eqI) (simp_all add: frame_addr_def vm_w_def)
  then show ?thesis by (simp add: alloc_frame_def)
qed

lemma vm_w_heap_map:
  "fst (vmm_map (vm_w\<lparr>pmm_st := s\<rparr>) HEAP_BASE 0x100000 (VMM_PRESENT OR VMM_WRITE)) = 0"
  by (simp add: vmm_map_def current_pml4_def vmm_map_in_def walk_or_create_def descend_def va_split_def rd_def vm_w_def)

lemma heap_w_init: "heap_init vm_w = Some heap_w"
proof -
  let ?h0 = "\<lparr>blk = (\<lambda>_. \<lparr>bsize = 0, bfree = False, bnext = 0, bprev = 0\<rparr>), heap_head = 0, heap_tail = 0,
                heap_end = HEAP_BASE, large_alloc_virt_offset = LARGE_ALLOC_VBASE, hm = vm_w\<rparr>"
  obtain m2 where v: "vmm_map (vm_w\<lparr>pmm_st := snd (pmm_alloc_frame pmm_w)\<rparr>) HEAP_BASE 0x100000
      (VMM_PRESENT OR VMM_WRITE) = (0, m2)"
    using vm_w_heap_map [of "snd (pmm_alloc_frame pmm_w)"] by (metis prod.collapse)
  obtain k h1 where g: "heap_grow (?h0\<lparr>hm := m2, heap_end := HEAP_BASE + 4096\<rparr>) 255 = (k, h1)" by fastforce
  have "heap_grow ?h0 (Suc 255) = (Suc k, h1)"
    using v g unfolding heap_grow.simps(2) by (simp add: vm_w_alloc)
  moreover have "Suc 255 = (256 :: nat)" by simp
  ultimately have "heap_grow ?h0 256 = (Suc k, h1)" by (simp only:)
  then have "heap_init vm_w \<noteq> None" unfolding heap_init_def Let_def by simp
  then show ?thesis by (auto simp: heap_w_def)
qed

lemma heap_w_pre: "pt_wf vm_w (current_pml4 vm_w)" "card (avail_frames (pmm_st vm_w)) \<le> 2 ^ 32"
proof -
  have "current_pml4 vm_w = 0x1000" by (simp add: current_pml4_def vm_w_def)
  then show "pt_wf vm_w (current_pml4 vm_w)" using vm_w_wf by simp
  have "avail_frames (pmm_st vm_w) = {0x100000, 0x101000}"
    by (simp add: avail_frames_def vm_w_def pmm_w_state frame_addr_def)
  then show "card (avail_frames (pmm_st vm_w)) \<le> 2 ^ 32" by simp
qed

lemma heap_w_reach: "heap_reach heap_w"
  by (rule heap_reach.init [OF heap_w_pre heap_w_init])

lemma heap_w_first:
  obtains s where "heap_inv heap_w [(HEAP_BASE, s, True)]" "4096 \<le> 32 + unat s"
proof -
  obtain s where i: "heap_inv heap_w [(HEAP_BASE, s, True)]"
    using heap_init_effect(1) [OF heap_w_pre heap_w_init] by blast
  note d = heap_invD [OF i]
  have t: "unat (heap_end heap_w) = 18446620928407240704 + 32 + unat s" "16 \<le> unat s" using d(5) by simp_all
  have "4096 dvd 18446620928407240704 + (32 + unat s)" using d(7) t(1) by (simp add: add.assoc)
  moreover have "(4096 :: nat) dvd 18446620928407240704" by simp
  ultimately have "4096 dvd 32 + unat s" by (simp only: dvd_add_right_iff)
  then have "4096 \<le> 32 + unat s" by (rule dvd_imp_le) simp
  with i that show thesis by blast
qed

lemma heap_w_malloc: "kmalloc heap_w 100 = Some (HEAP_BASE + HDR, take_block heap_w HEAP_BASE 112)"
proof -
  obtain s where i: "heap_inv heap_w [(HEAP_BASE, s, True)]" and s: "4096 \<le> 32 + unat s" by (rule heap_w_first)
  note d = heap_invD [OF i]
  from s have "112 \<le> s" by (simp add: word_le_nat_alt)
  then have "find_fit (blk heap_w) (heap_head heap_w) 112 = Some HEAP_BASE"
    using find_fit_linked [OF d(2), of 112] d(3) by simp
  then have "kmalloc_loop heap_w 112 = Some (HEAP_BASE + HDR, take_block heap_w HEAP_BASE 112)"
    by (subst kmalloc_loop.simps) simp
  then show ?thesis by (simp add: kmalloc_def)
qed



text \<open>A second request on that heap fits into the remainder of the first page.\<close>

lemma heap_w_second: "\<exists>q h2. kmalloc (take_block heap_w HEAP_BASE 112) 100 = Some (q, h2) \<and> q \<noteq> 0"
proof -
  obtain s where i: "heap_inv heap_w [(HEAP_BASE, s, True)]" and s: "4096 \<le> 32 + unat s" by (rule heap_w_first)
  have "heap_inv (take_block heap_w HEAP_BASE 112)
      ([] @ (HEAP_BASE, 112, False) # (HEAP_BASE + HDR + 112, s - 112 - HDR, True) # [])"
    by (rule take_block_split(1) [OF i]) (use s in simp_all)
  note d2 = heap_invD [OF this]
  have "unat (s - 112 - HDR) = unat s - 144"
    using s by (subst unat_sub; simp add: unat_sub word_le_nat_alt)
  then have "112 \<le> s - 112 - HDR" using s by (simp add: word_le_nat_alt)
  then have "find_fit (blk (take_block heap_w HEAP_BASE 112)) (heap_head (take_block heap_w HEAP_BASE 112)) 112
      = Some (HEAP_BASE + HDR + 112)"
    using find_fit_linked [OF d2(2), of 112] d2(3) by simp
  then have "kmalloc_loop (take_block heap_w HEAP_BASE 112) 112
      = Some (HEAP_BASE + HDR + 112 + HDR, take_block (take_block heap_w HEAP_BASE 112) (HEAP_BASE + HDR + 112) 112)"
    by (subst kmalloc_loop.simps) simp
  then show ?thesis by (simp add: kmalloc_def)
qed


end
