(* ===== verification/Uvm.thy ===== *)
theory Uvm
  imports Vmm_Props
begin

text \<open>
  The user address space, \<open>kernel/memory/uvm.c\<close>: the reservation table, the mmap arena with its
  list of freed ranges, demand paging and the operations the mmap-family system calls use.
  A value of type \<open>task_vm\<close> stands for a non-null \<open>struct task_vm *\<close>; the fields the module
  does not touch (\<open>pe_process\<close>, \<open>pml4_ref_count\<close>, the break) are left out.
\<close>

section \<open>State and operations\<close>

record vm_hole =
  hbase :: u64
  hlen :: u64

record user_vma =
  vstart :: u64
  vend :: u64
  pte_flags :: u64
  used :: bool

record task_vm =
  user_pml4 :: u64
  shmem_next_va :: u64
  mmap_next_va :: u64
  mmap_holes :: "vm_hole list"
  vmas :: "user_vma list"
  shmem_shared_out :: bool

abbreviation MAX_USER_VMAS :: nat where "MAX_USER_VMAS \<equiv> 64"
abbreviation TASK_MMAP_HOLES :: nat where "TASK_MMAP_HOLES \<equiv> 16"
abbreviation USER_VA_MIN :: u64 where "USER_VA_MIN \<equiv> 0x1000"
abbreviation USER_MMAP_BASE :: u64 where "USER_MMAP_BASE \<equiv> 0x70000000"
abbreviation USER_MMAP_LIMIT :: u64 where "USER_MMAP_LIMIT \<equiv> 0x80000000"
abbreviation USER_SHMEM_BASE :: u64 where "USER_SHMEM_BASE \<equiv> 0x80000000"
abbreviation USER_VA_MAX :: u64 where "USER_VA_MAX \<equiv> 0x7F0000000000"
abbreviation USER_STACK_TOP :: u64 where "USER_STACK_TOP \<equiv> 0x7FFFFFFFE000"
abbreviation USER_STACK_LOW :: u64 where "USER_STACK_LOW \<equiv> USER_STACK_TOP - 512 * 4096"

definition no_hole :: vm_hole where "no_hole = \<lparr>hbase = 0, hlen = 0\<rparr>"
definition no_vma :: user_vma where "no_vma = \<lparr>vstart = 0, vend = 0, pte_flags = 0, used = False\<rparr>"

definition uvm_init :: "task_vm \<Rightarrow> task_vm" where
  "uvm_init vm = vm\<lparr>shmem_next_va := USER_SHMEM_BASE, mmap_next_va := USER_MMAP_BASE,
     shmem_shared_out := False, mmap_holes := replicate TASK_MMAP_HOLES no_hole,
     vmas := replicate MAX_USER_VMAS no_vma\<rparr>"

definition uvm_range_ok :: "u64 \<Rightarrow> u64 \<Rightarrow> bool" where
  "uvm_range_ok base bytes =
     (if bytes = 0 \<or> base < USER_VA_MIN then False
      else if base + bytes < base \<or> base + bytes > USER_VA_MAX then False
      else if base < USER_STACK_TOP \<and> base + bytes > USER_STACK_LOW then False
      else True)"

text \<open>Table searches yield the index of the slot the C code returns a pointer to.\<close>

definition vma_at :: "task_vm \<Rightarrow> u64 \<Rightarrow> nat option" where
  "vma_at vm address =
     find (\<lambda>i. used (vmas vm ! i) \<and> vstart (vmas vm ! i) \<le> address \<and> address < vend (vmas vm ! i))
       [0..<length (vmas vm)]"

definition vma_free_slot :: "task_vm \<Rightarrow> nat option" where
  "vma_free_slot vm = find (\<lambda>i. \<not> used (vmas vm ! i)) [0..<length (vmas vm)]"

text \<open>The offsets of \<open>for (off = 0; off < bytes; off += 4096)\<close>.\<close>

definition page_offs :: "u64 \<Rightarrow> u64 list" where
  "page_offs bytes = map (\<lambda>k. of_nat k * 4096) [0..<(unat bytes + 4095) div 4096]"

definition range_is_unmapped :: "mach \<Rightarrow> task_vm \<Rightarrow> u64 \<Rightarrow> u64 \<Rightarrow> bool" where
  "range_is_unmapped m vm base bytes =
     (let stop = base + bytes
      in if list_ex (\<lambda>v. used v \<and> base < vend v \<and> stop > vstart v) (vmas vm) then False
         else list_all (\<lambda>off. vmm_translate_in m (user_pml4 vm) (base + off) = 0) (page_offs bytes))"

text \<open>
  The first loop of \<open>hole_add\<close>, index and all: a hole that overlaps or touches the range is
  absorbed and the scan starts over (\<open>i = -1\<close> followed by \<open>i++\<close>).
\<close>

function hole_merge :: "nat \<Rightarrow> vm_hole list \<Rightarrow> u64 \<Rightarrow> u64 \<Rightarrow> vm_hole list \<times> u64 \<times> u64" where
  "hole_merge i hs base stop =
     (if length hs \<le> i then (hs, base, stop)
      else
        (let h = hs ! i; hole_end = hbase h + hlen h
         in if hlen h = 0 then hole_merge (Suc i) hs base stop
            else if hole_end < base \<or> hbase h > stop then hole_merge (Suc i) hs base stop
            else hole_merge 0 (hs[i := no_hole])
                   (if hbase h < base then hbase h else base)
                   (if hole_end > stop then hole_end else stop)))"
  by pat_completeness auto

lemma count_nonzero_update:
  "i < length hs \<Longrightarrow> hlen (hs ! i) \<noteq> 0 \<Longrightarrow>
     length (filter (\<lambda>h. hlen h \<noteq> 0) (hs[i := no_hole])) < length (filter (\<lambda>h. hlen h \<noteq> 0) hs)"
proof (induction hs arbitrary: i)
  case (Cons h hs)
  then show ?case by (cases i) (auto simp: no_hole_def)
qed simp

termination hole_merge
proof (relation "inv_image (less_than <*lex*> less_than)
    (\<lambda>(i, hs, _). (length (filter (\<lambda>h. hlen h \<noteq> 0) hs), length hs - i))", goal_cases)
  case (4 i hs base stop h hole_end)
  then show ?case using count_nonzero_update [of i hs] by auto
qed auto

declare hole_merge.simps [simp del]

definition hole_add :: "task_vm \<Rightarrow> u64 \<Rightarrow> u64 \<Rightarrow> task_vm" where
  "hole_add vm base0 bytes =
     (let (hs, base, stop) = hole_merge 0 (mmap_holes vm) base0 (base0 + bytes)
      in case find (\<lambda>i. hlen (hs ! i) = 0) [0..<length hs] of
           Some i \<Rightarrow> vm\<lparr>mmap_holes := hs[i := \<lparr>hbase = base, hlen = stop - base\<rparr>]\<rparr>
         | None \<Rightarrow> vm\<lparr>mmap_holes := hs\<rparr>)"

definition arena_alloc :: "task_vm \<Rightarrow> u64 \<Rightarrow> u64 \<times> task_vm" where
  "arena_alloc vm bytes =
     (case find (\<lambda>i. \<not> (hlen (mmap_holes vm ! i) = 0 \<or> hlen (mmap_holes vm ! i) < bytes)) [0..<length (mmap_holes vm)] of
        Some i \<Rightarrow>
          (let h = mmap_holes vm ! i
           in (hbase h, vm\<lparr>mmap_holes := (mmap_holes vm)[i := \<lparr>hbase = hbase h + bytes, hlen = hlen h - bytes\<rparr>]\<rparr>))
      | None \<Rightarrow>
          (let base = mmap_next_va vm
           in if base + bytes < base \<or> base + bytes > USER_MMAP_LIMIT then (0, vm)
              else (base, vm\<lparr>mmap_next_va := base + bytes\<rparr>)))"

text \<open>One round of the second loop of \<open>vma_remove_range\<close>; \<open>split\<close> is the slot set aside before it.\<close>

definition remove_step :: "u64 \<Rightarrow> u64 \<Rightarrow> nat option \<Rightarrow> nat \<Rightarrow> user_vma list \<Rightarrow> user_vma list" where
  "remove_step start stop split i vs =
     (let v = vs ! i
      in if \<not> used v \<or> vend v \<le> start \<or> stop \<le> vstart v then vs
         else if start \<le> vstart v \<and> vend v \<le> stop then vs[i := no_vma]
         else if start \<le> vstart v then vs[i := v\<lparr>vstart := stop\<rparr>]
         else if vend v \<le> stop then vs[i := v\<lparr>vend := start\<rparr>]
         else (case split of
                 None \<Rightarrow> vs
               | Some j \<Rightarrow>
                   (vs[j := \<lparr>vstart = stop, vend = vend v, pte_flags = pte_flags v, used = True\<rparr>])
                     [i := v\<lparr>vend := start\<rparr>]))"

definition vma_remove_range :: "task_vm \<Rightarrow> u64 \<Rightarrow> u64 \<Rightarrow> int \<times> task_vm" where
  "vma_remove_range vm start stop =
     (let inside = list_ex (\<lambda>v. used v \<and> start > vstart v \<and> stop < vend v) (vmas vm);
          split = (if inside then vma_free_slot vm else None)
      in if inside \<and> split = None then (-1, vm)
         else (0, vm\<lparr>vmas := fold (remove_step start stop split) [0..<length (vmas vm)] (vmas vm)\<rparr>))"

definition page_of :: "u64 \<Rightarrow> u64" where
  "page_of addr = addr AND NOT 4095"

definition uvm_fault_in :: "mach \<Rightarrow> task_vm \<Rightarrow> u64 \<Rightarrow> bool \<Rightarrow> bool \<times> mach" where
  "uvm_fault_in m vm addr writable =
     (if user_pml4 vm = 0 then (False, m)
      else
        (let page = page_of addr; entry = vmm_entry_in m (user_pml4 vm) page
         in if entry \<noteq> 0 then
              (entry AND VMM_USER \<noteq> 0 \<and> (\<not> writable \<or> entry AND VMM_WRITE \<noteq> 0), m)
            else
              (case vma_at vm page of
                 None \<Rightarrow> (False, m)
               | Some i \<Rightarrow>
                   (let fl = pte_flags (vmas vm ! i)
                    in if fl AND VMM_USER = 0 \<or> (writable \<and> fl AND VMM_WRITE = 0) then (False, m)
                       else
                         (let (phys, m1) = alloc_frame m
                          in if phys = 0 then (False, m1)
                             else
                               (let m2 = zero_page m1 phys;
                                    (r, m3) = vmm_map_in m2 (user_pml4 vm) page phys fl
                                in if r \<noteq> 0 then (False, free_frame m3 phys) else (True, m3)))))))"

text \<open>The page loop of \<open>uvm_buffer_ok\<close>, \<open>n\<close> pages from \<open>page\<close> on.\<close>

fun buffer_pages :: "mach \<Rightarrow> task_vm \<Rightarrow> u64 \<Rightarrow> nat \<Rightarrow> bool \<Rightarrow> bool \<times> mach" where
  "buffer_pages m vm page 0 writable = (True, m)"
| "buffer_pages m vm page (Suc n) writable =
     (let (ok, m1) = uvm_fault_in m vm page writable
      in if \<not> ok then (False, m1) else buffer_pages m1 vm (page + 4096) n writable)"

definition uvm_buffer_ok :: "mach \<Rightarrow> task_vm \<Rightarrow> u64 \<Rightarrow> u64 \<Rightarrow> bool \<Rightarrow> bool \<times> mach" where
  "uvm_buffer_ok m vm base bytes writable =
     (if bytes = 0 then (True, m)
      else if user_pml4 vm = 0 then (False, m)
      else
        (let stop = base + bytes
         in if base < USER_VA_MIN \<or> stop < base then (False, m)
            else if \<not> stop \<le> USER_VA_MAX \<and> \<not> (USER_STACK_LOW \<le> base \<and> stop \<le> USER_STACK_TOP) then (False, m)
            else buffer_pages m vm (page_of base) (unat (page_of (stop - 1) - page_of base) div 4096 + 1) writable))"

text \<open>The last reservation with these flags that ends at the range, and the last other one that starts after it.\<close>

definition merge_step :: "u64 \<Rightarrow> u64 \<Rightarrow> u64 \<Rightarrow> user_vma list \<Rightarrow> nat \<Rightarrow> nat option \<times> nat option \<Rightarrow> nat option \<times> nat option" where
  "merge_step base bytes fl vs i ba =
     (let v = vs ! i
      in if \<not> used v \<or> pte_flags v \<noteq> fl then ba
         else if vend v = base then (Some i, snd ba)
         else if vstart v = base + bytes then (fst ba, Some i)
         else ba)"

definition vma_insert :: "user_vma list \<Rightarrow> nat \<Rightarrow> u64 \<Rightarrow> u64 \<Rightarrow> u64 \<Rightarrow> user_vma list" where
  "vma_insert vs slot base bytes fl =
     (case fold (merge_step base bytes fl vs) [0..<length vs] (None, None) of
        (Some b, Some a) \<Rightarrow> (vs[b := (vs ! b)\<lparr>vend := vend (vs ! a)\<rparr>])[a := no_vma]
      | (Some b, None) \<Rightarrow> vs[b := (vs ! b)\<lparr>vend := base + bytes\<rparr>]
      | (None, Some a) \<Rightarrow> vs[a := (vs ! a)\<lparr>vstart := base\<rparr>]
      | (None, None) \<Rightarrow> vs[slot := \<lparr>vstart = base, vend = base + bytes, pte_flags = fl, used = True\<rparr>])"

definition uvm_reserve :: "mach \<Rightarrow> task_vm \<Rightarrow> u64 \<Rightarrow> u64 \<Rightarrow> u64 \<Rightarrow> bool \<Rightarrow> u64 \<times> task_vm" where
  "uvm_reserve m vm addr bytes fl fixed =
     (if user_pml4 vm = 0 \<or> bytes = 0 \<or> bytes AND 4095 \<noteq> 0 \<or> fl = 0 then (0, vm)
      else
        (case vma_free_slot vm of
           None \<Rightarrow> (0, vm)
         | Some slot \<Rightarrow>
             (if fixed then
                (if addr AND 4095 \<noteq> 0 then (0, vm)
                 else if \<not> uvm_range_ok addr bytes then (0, vm)
                 else if \<not> range_is_unmapped m vm addr bytes then (0, vm)
                 else (addr, vm\<lparr>vmas := vma_insert (vmas vm) slot addr bytes fl\<rparr>))
              else
                (let (base, vm1) = arena_alloc vm bytes
                 in if base = 0 then (0, vm1)
                    else (base, vm1\<lparr>vmas := vma_insert (vmas vm1) slot base bytes fl\<rparr>)))))"

fun commit_pages :: "mach \<Rightarrow> task_vm \<Rightarrow> u64 list \<Rightarrow> bool \<times> mach" where
  "commit_pages m vm [] = (True, m)"
| "commit_pages m vm (v # vs) =
     (let (ok, m1) = uvm_fault_in m vm v False in if \<not> ok then (False, m1) else commit_pages m1 vm vs)"

fun protect_pages :: "mach \<Rightarrow> u64 \<Rightarrow> u64 list \<Rightarrow> u64 \<Rightarrow> int \<times> mach" where
  "protect_pages m r [] fl = (0, m)"
| "protect_pages m r (v # vs) fl =
     (let (res, m1) = vmm_protect_in m r v fl in if res \<noteq> 0 then (-1, m1) else protect_pages m1 r vs fl)"

definition uvm_protect :: "mach \<Rightarrow> task_vm \<Rightarrow> u64 \<Rightarrow> u64 \<Rightarrow> u64 \<Rightarrow> int \<times> mach" where
  "uvm_protect m vm addr bytes fl =
     (if user_pml4 vm = 0 \<or> addr AND 4095 \<noteq> 0 \<or> bytes AND 4095 \<noteq> 0 \<or> fl = 0 then (-1, m)
      else if \<not> uvm_range_ok addr bytes then (-1, m)
      else
        (let pages = map (\<lambda>off. addr + off) (page_offs bytes);
             (ok, m1) = commit_pages m vm pages
         in if \<not> ok then (-1, m1) else protect_pages m1 (user_pml4 vm) pages fl))"

definition release_page :: "u64 \<Rightarrow> u64 \<Rightarrow> mach \<Rightarrow> mach" where
  "release_page r va m =
     (let entry = vmm_entry_in m r va
      in if entry = 0 then m
         else
           (let m1 = snd (vmm_unmap_in m r va)
            in if entry AND VMM_SHARED = 0 then free_frame m1 (entry AND VMM_ADDR_MASK) else m1))"

definition uvm_release :: "mach \<Rightarrow> task_vm \<Rightarrow> u64 \<Rightarrow> u64 \<Rightarrow> int \<times> mach \<times> task_vm" where
  "uvm_release m vm addr bytes =
     (if user_pml4 vm = 0 \<or> addr AND 4095 \<noteq> 0 \<or> bytes AND 4095 \<noteq> 0 then (-1, m, vm)
      else if \<not> uvm_range_ok addr bytes then (-1, m, vm)
      else
        (let (res, vm1) = vma_remove_range vm addr (addr + bytes)
         in if res \<noteq> 0 then (-1, m, vm1)
            else
              (let m1 = fold (release_page (user_pml4 vm)) (map (\<lambda>off. addr + off) (page_offs bytes)) m
               in (0, m1, if USER_MMAP_BASE \<le> addr \<and> addr + bytes \<le> USER_MMAP_LIMIT
                          then hole_add vm1 addr bytes else vm1))))"

definition discard_page :: "u64 \<Rightarrow> u64 \<Rightarrow> mach \<Rightarrow> mach" where
  "discard_page r va m =
     (let entry = vmm_entry_in m r va
      in if entry = 0 then m else free_frame (snd (vmm_unmap_in m r va)) (entry AND VMM_ADDR_MASK))"

definition uvm_discard :: "mach \<Rightarrow> task_vm \<Rightarrow> u64 \<Rightarrow> u64 \<Rightarrow> int \<times> mach" where
  "uvm_discard m vm addr bytes =
     (if user_pml4 vm = 0 \<or> addr AND 4095 \<noteq> 0 \<or> bytes AND 4095 \<noteq> 0 then (-1, m)
      else if \<not> uvm_range_ok addr bytes then (-1, m)
      else
        (let pages = map (\<lambda>off. addr + off) (page_offs bytes)
         in if list_ex (\<lambda>v. vma_at vm v = None \<or> vmm_entry_in m (user_pml4 vm) v AND VMM_SHARED \<noteq> 0) pages
            then (-1, m)
            else (0, fold (discard_page (user_pml4 vm)) pages m)))"

section \<open>The reservation table\<close>

text \<open>
  Reservations are non-empty and pairwise disjoint; \<open>covers vs a fl\<close> says that address \<open>a\<close> is
  reserved with the permissions \<open>fl\<close>.
\<close>

definition apart :: "user_vma \<Rightarrow> user_vma \<Rightarrow> bool" where
  "apart v w \<longleftrightarrow> vend v \<le> vstart w \<or> vend w \<le> vstart v"

definition vma_wf :: "user_vma list \<Rightarrow> bool" where
  "vma_wf vs \<longleftrightarrow>
     (\<forall>v\<in>set vs. used v \<longrightarrow> vstart v < vend v) \<and>
     (\<forall>i j. i < length vs \<longrightarrow> j < length vs \<longrightarrow> i \<noteq> j \<longrightarrow> used (vs ! i) \<longrightarrow> used (vs ! j) \<longrightarrow> apart (vs ! i) (vs ! j))"

definition within :: "user_vma \<Rightarrow> u64 \<Rightarrow> bool" where
  "within v a \<longleftrightarrow> used v \<and> vstart v \<le> a \<and> a < vend v"

definition covers :: "user_vma list \<Rightarrow> u64 \<Rightarrow> u64 \<Rightarrow> bool" where
  "covers vs a fl \<longleftrightarrow> (\<exists>i<length vs. within (vs ! i) a \<and> pte_flags (vs ! i) = fl)"

lemma vma_wfD:
  assumes "vma_wf vs"
  shows "i < length vs \<Longrightarrow> used (vs ! i) \<Longrightarrow> vstart (vs ! i) < vend (vs ! i)"
    and "i < length vs \<Longrightarrow> j < length vs \<Longrightarrow> i \<noteq> j \<Longrightarrow> used (vs ! i) \<Longrightarrow> used (vs ! j) \<Longrightarrow> apart (vs ! i) (vs ! j)"
  using assms by (auto simp: vma_wf_def)

lemma vma_wfI:
  assumes "\<And>i. i < length vs \<Longrightarrow> used (vs ! i) \<Longrightarrow> vstart (vs ! i) < vend (vs ! i)"
    and "\<And>i j. i < length vs \<Longrightarrow> j < length vs \<Longrightarrow> i < j \<Longrightarrow> used (vs ! i) \<Longrightarrow> used (vs ! j) \<Longrightarrow> apart (vs ! i) (vs ! j)"
  shows "vma_wf vs"
  unfolding vma_wf_def
proof (intro conjI ballI allI impI)
  fix v assume "v \<in> set vs" "used v"
  then show "vstart v < vend v" using assms(1) by (auto simp: in_set_conv_nth)
next
  fix i j assume *: "i < length vs" "j < length vs" "i \<noteq> j" "used (vs ! i)" "used (vs ! j)"
  then consider "i < j" | "j < i" by linarith
  then show "apart (vs ! i) (vs ! j)"
    using assms(2) [of i j] assms(2) [of j i] * by cases (auto simp: apart_def)
qed

lemma within_unique:
  assumes "vma_wf vs" "i < length vs" "j < length vs" "within (vs ! i) a" "within (vs ! j) a"
  shows "i = j"
proof (rule ccontr)
  assume "i \<noteq> j"
  then have "apart (vs ! i) (vs ! j)" using vma_wfD(2) [OF assms(1-3)] assms(4,5) by (simp add: within_def)
  then show False using assms(4,5) by (auto simp: apart_def within_def)
qed

lemma vma_at_Some: "vma_at vm a = Some i \<Longrightarrow> i < length (vmas vm) \<and> within (vmas vm ! i) a"
  unfolding vma_at_def find_upt_Some_iff within_def by simp

lemma vma_at_None: "vma_at vm a = None \<longleftrightarrow> (\<forall>fl. \<not> covers (vmas vm) a fl)"
  unfolding vma_at_def find_upt_None_iff covers_def within_def by auto

lemma covers_vma_at:
  assumes "vma_wf (vmas vm)" "covers (vmas vm) a fl"
  shows "\<exists>i. vma_at vm a = Some i \<and> pte_flags (vmas vm ! i) = fl"
proof -
  obtain j where j: "j < length (vmas vm)" "within (vmas vm ! j) a" "pte_flags (vmas vm ! j) = fl"
    using assms(2) by (auto simp: covers_def)
  then obtain i where i: "vma_at vm a = Some i"
    using assms(2) vma_at_None [of vm a] by (cases "vma_at vm a") auto
  then have "i = j" using vma_at_Some [OF i] within_unique [OF assms(1) _ j(1) _ j(2)] by blast
  then show ?thesis using i j(3) by blast
qed

subsection \<open>Removing a range\<close>

definition cut :: "u64 \<Rightarrow> u64 \<Rightarrow> user_vma \<Rightarrow> user_vma" where
  "cut start stop v =
     (if \<not> used v \<or> vend v \<le> start \<or> stop \<le> vstart v then v
      else if start \<le> vstart v \<and> vend v \<le> stop then no_vma
      else if start \<le> vstart v then v\<lparr>vstart := stop\<rparr>
      else if vend v \<le> stop then v\<lparr>vend := start\<rparr> else v)"

lemma remove_step_cut:
  "i < length vs \<Longrightarrow> remove_step start stop None i vs = vs[i := cut start stop (vs ! i)]"
  by (simp add: remove_step_def cut_def Let_def)

lemma fold_update_map:
  assumes "\<And>i vs. i < length vs \<Longrightarrow> f i vs = vs[i := g (vs ! i)]" and "n \<le> length vs"
  shows "fold f [0..<n] vs = map g (take n vs) @ drop n vs"
  using assms(2)
proof (induction n)
  case (Suc n)
  then have n: "n < length vs" by simp
  have "fold f [0..<Suc n] vs = f n (map g (take n vs) @ drop n vs)" using Suc by simp
  also have "\<dots> = (map g (take n vs) @ drop n vs)[n := g (vs ! n)]"
    using assms(1) [of n "map g (take n vs) @ drop n vs"] n by (simp add: nth_append)
  also have "\<dots> = map g (take (Suc n) vs) @ drop (Suc n) vs"
    using n by (simp add: list_update_append take_Suc_conv_app_nth Cons_nth_drop_Suc [symmetric])
  finally show ?case .
qed simp

lemma fold_skip: "(\<And>i. i \<in> set xs \<Longrightarrow> f i s = s) \<Longrightarrow> fold f xs s = s"
  by (induction xs) auto

lemma cut_within:
  assumes "start < stop" and "\<not> (used v \<and> start > vstart v \<and> stop < vend v)"
  shows "within (cut start stop v) a \<longleftrightarrow> within v a \<and> \<not> (start \<le> a \<and> a < stop)"
    and "used (cut start stop v) \<Longrightarrow> pte_flags (cut start stop v) = pte_flags v"
  using assms by (auto simp: cut_def within_def no_vma_def)

lemma cut_used: "used (cut start stop v) \<Longrightarrow> used v"
  by (auto simp: cut_def no_vma_def split: if_splits)

lemma cut_bounds:
  assumes "\<not> (used v \<and> start > vstart v \<and> stop < vend v)" and "used (cut start stop v)" "vstart v < vend v"
  shows "used v" "vstart v \<le> vstart (cut start stop v)" "vstart (cut start stop v) < vend (cut start stop v)"
      "vend (cut start stop v) \<le> vend v"
  using assms by (auto simp: cut_def no_vma_def not_le split: if_splits)

lemma vma_remove_range_effect:
  assumes wf: "vma_wf (vmas vm)" and lt: "start < stop" and r: "vma_remove_range vm start stop = (res, vm')"
  shows "vma_wf (vmas vm') \<and>
    (if res = 0 then \<forall>a fl. covers (vmas vm') a fl \<longleftrightarrow> covers (vmas vm) a fl \<and> \<not> (start \<le> a \<and> a < stop)
     else vm' = vm \<and> vma_free_slot vm = None)"
    and "\<exists>vs. vm' = vm\<lparr>vmas := vs\<rparr> \<and> length vs = length (vmas vm)"
proof -
  let ?vs = "vmas vm"
  let ?in = "\<lambda>v. used v \<and> start > vstart v \<and> stop < vend v"
  show "vma_wf (vmas vm') \<and>
    (if res = 0 then \<forall>a fl. covers (vmas vm') a fl \<longleftrightarrow> covers ?vs a fl \<and> \<not> (start \<le> a \<and> a < stop)
     else vm' = vm \<and> vma_free_slot vm = None)"
  proof (cases "list_ex ?in ?vs")
    case False
    have none: "\<not> ?in (?vs ! i)" if "i < length ?vs" for i using False that by (auto simp: list_ex_length)
    have vm': "res = 0" "vmas vm' = map (cut start stop) ?vs"
      using r False fold_update_map [of "remove_step start stop None" "cut start stop", OF remove_step_cut, of "length ?vs" ?vs]
      by (auto simp: vma_remove_range_def Let_def)
    have "vma_wf (vmas vm')"
    proof (rule vma_wfI)
      fix i assume "i < length (vmas vm')" "used (vmas vm' ! i)"
      then show "vstart (vmas vm' ! i) < vend (vmas vm' ! i)"
        using cut_bounds(3) [OF none] vma_wfD(1) [OF wf] cut_used by (simp add: vm')
    next
      fix i j assume *: "i < length (vmas vm')" "j < length (vmas vm')" "i < j" "used (vmas vm' ! i)" "used (vmas vm' ! j)"
      then have l: "i < length ?vs" "j < length ?vs" "used (cut start stop (?vs ! i))" "used (cut start stop (?vs ! j))"
        by (simp_all add: vm')
      have u: "used (?vs ! i)" "used (?vs ! j)" using l(3,4) cut_used by blast+
      show "apart (vmas vm' ! i) (vmas vm' ! j)"
        using cut_bounds(2,4) [OF none [OF l(1)] l(3) vma_wfD(1) [OF wf l(1) u(1)]]
          cut_bounds(2,4) [OF none [OF l(2)] l(4) vma_wfD(1) [OF wf l(2) u(2)]]
          vma_wfD(2) [OF wf l(1,2) _ u] *(3) l(1,2)
        by (auto simp: vm' apart_def)
    qed
    moreover have "covers (vmas vm') a fl \<longleftrightarrow> covers ?vs a fl \<and> \<not> (start \<le> a \<and> a < stop)" for a fl
    proof -
      have "within (vmas vm' ! i) a \<and> pte_flags (vmas vm' ! i) = fl
          \<longleftrightarrow> (within (?vs ! i) a \<and> pte_flags (?vs ! i) = fl) \<and> \<not> (start \<le> a \<and> a < stop)"
        if i: "i < length ?vs" for i
      proof -
        have "within (cut start stop (?vs ! i)) a \<Longrightarrow> pte_flags (cut start stop (?vs ! i)) = pte_flags (?vs ! i)"
          using cut_within(2) [OF lt none [OF i]] by (simp add: within_def)
        then show ?thesis using cut_within(1) [OF lt none [OF i], of a] i by (auto simp: vm')
      qed
      moreover have "length (vmas vm') = length ?vs" by (simp add: vm')
      ultimately show ?thesis unfolding covers_def by auto
    qed
    ultimately show ?thesis using vm'(1) by simp
  next
    case True
    then obtain k where k: "k < length ?vs" "?in (?vs ! k)" by (auto simp: list_ex_length)
    show ?thesis
    proof (cases "vma_free_slot vm")
      case None
      then show ?thesis using r True wf by (auto simp: vma_remove_range_def Let_def)
    next
      case (Some j)
      then have j: "j < length ?vs" "\<not> used (?vs ! j)" by (auto simp: vma_free_slot_def find_upt_Some_iff)
      have jk: "j \<noteq> k" using j(2) k(2) by auto
      let ?v = "?vs ! k"
      let ?r = "\<lparr>vstart = stop, vend = vend ?v, pte_flags = pte_flags ?v, used = True\<rparr>"
      let ?l = "?v\<lparr>vend := start\<rparr>"
      let ?ws = "(?vs[j := ?r])[k := ?l]"
      have skip1: "remove_step start stop (Some j) i ?vs = ?vs" if "i \<noteq> k" "i < length ?vs" for i
      proof -
        have "\<not> used (?vs ! i) \<or> apart (?vs ! i) ?v" using vma_wfD(2) [OF wf that(2) k(1) that(1)] k(2) by auto
        then show ?thesis using k(2) lt by (auto simp: remove_step_def Let_def apart_def)
      qed
      have stepk: "remove_step start stop (Some j) k ?vs = ?ws"
        using k(2) lt by (auto simp: remove_step_def Let_def)
      have skip2: "remove_step start stop (Some j) i ?ws = ?ws" if "i \<noteq> k" "i < length ?vs" for i
      proof (cases "i = j")
        case True
        then show ?thesis using jk j(1) by (simp add: remove_step_def Let_def)
      next
        case False
        then show ?thesis using skip1 [OF that] that
          vma_wfD(2) [OF wf that(2) k(1) that(1)] k(2) lt by (auto simp: remove_step_def Let_def apart_def)
      qed
      have "[0..<length ?vs] = [0..<k] @ k # [Suc k..<length ?vs]"
        using upt_add_eq_append [of 0 k "length ?vs - k"] upt_conv_Cons [OF k(1)] k(1) by simp
      moreover have "fold (remove_step start stop (Some j)) [0..<k] ?vs = ?vs"
        by (rule fold_skip) (use skip1 k(1) in auto)
      moreover have "fold (remove_step start stop (Some j)) [Suc k..<length ?vs] ?ws = ?ws"
        by (rule fold_skip) (use skip2 in auto)
      ultimately have "fold (remove_step start stop (Some j)) [0..<length ?vs] ?vs = ?ws"
        using stepk by simp
      then have vm': "res = 0" "vmas vm' = ?ws" using r True Some by (auto simp: vma_remove_range_def Let_def)
      have nth: "?ws ! i = (if i = k then ?l else if i = j then ?r else ?vs ! i)" if "i < length ?vs" for i
        using that j(1) k(1) jk by auto
      have vk: "vstart ?v < vend ?v" using vma_wfD(1) [OF wf k(1)] k(2) by simp
      have "vma_wf (vmas vm')"
      proof (rule vma_wfI)
        fix i assume "i < length (vmas vm')" "used (vmas vm' ! i)"
        then show "vstart (vmas vm' ! i) < vend (vmas vm' ! i)"
          using nth [of i] k(2) vma_wfD(1) [OF wf, of i] by (auto simp: vm' split: if_splits)
      next
        fix a b assume *: "a < length (vmas vm')" "b < length (vmas vm')" "a < b" "used (vmas vm' ! a)" "used (vmas vm' ! b)"
        then have l: "a < length ?vs" "b < length ?vs" by (simp_all add: vm')
        have ap: "apart (?vs ! i) ?v" if "i < length ?vs" "i \<noteq> k" "used (?vs ! i)" for i
          using vma_wfD(2) [OF wf that(1) k(1) that(2,3)] k(2) by simp
        show "apart (vmas vm' ! a) (vmas vm' ! b)"
          using ap [OF l(1)] ap [OF l(2)] vma_wfD(2) [OF wf l] * k(2) lt vk
          unfolding vm'(2) nth [OF l(1)] nth [OF l(2)] by (auto simp: apart_def split: if_splits)
      qed
      moreover have "covers ?ws a fl \<longleftrightarrow> covers ?vs a fl \<and> \<not> (start \<le> a \<and> a < stop)" for a fl
      proof
        assume "covers ?ws a fl"
        then obtain i where i: "i < length ?vs" "within (?ws ! i) a" "pte_flags (?ws ! i) = fl" by (auto simp: covers_def)
        consider "i = k" | "i = j" "i \<noteq> k" | "i \<noteq> j" "i \<noteq> k" by blast
        then show "covers ?vs a fl \<and> \<not> (start \<le> a \<and> a < stop)"
        proof cases
          case 1
          then have "within ?v a" "\<not> start \<le> a" "pte_flags ?v = fl" using i k lt by (auto simp: within_def)
          then show ?thesis using k(1) by (auto simp: covers_def)
        next
          case 2
          then have "within ?v a" "\<not> a < stop" "pte_flags ?v = fl"
            using i k(2) j(1) jk lt by (auto simp: within_def)
          then show ?thesis using k(1) by (auto simp: covers_def)
        next
          case 3
          then have w: "within (?vs ! i) a" "pte_flags (?vs ! i) = fl" using i by simp_all
          then have "apart (?vs ! i) ?v" using vma_wfD(2) [OF wf i(1) k(1) 3(2)] k(2) by (simp add: within_def)
          then have "\<not> (start \<le> a \<and> a < stop)" using w(1) k(2) by (auto simp: apart_def within_def)
          then show ?thesis using w i(1) by (auto simp: covers_def)
        qed
      next
        assume c: "covers ?vs a fl \<and> \<not> (start \<le> a \<and> a < stop)"
        then obtain i where i: "i < length ?vs" "within (?vs ! i) a" "pte_flags (?vs ! i) = fl" by (auto simp: covers_def)
        have "i \<noteq> j" using i(2) j(2) by (auto simp: within_def)
        show "covers ?ws a fl"
        proof (cases "i = k")
          case True
          then have "within ?l a \<or> within ?r a" using i(2) c by (auto simp: within_def)
          moreover have "?ws ! k = ?l" "?ws ! j = ?r" using nth k(1) j(1) jk by auto
          moreover have "pte_flags ?l = fl" "pte_flags ?r = fl" using i(3) True by simp_all
          ultimately show ?thesis using k(1) j(1) unfolding covers_def by (metis length_list_update)
        next
          case False
          then have "?ws ! i = ?vs ! i" using \<open>i \<noteq> j\<close> by simp
          then show ?thesis using i unfolding covers_def by (metis length_list_update)
        qed
      qed
      ultimately show ?thesis using vm' by simp
    qed
  qed
  have "length (fold (remove_step start stop sp) xs vs) = length vs" for sp xs vs
    by (induction xs arbitrary: vs) (auto simp: remove_step_def Let_def split: option.splits)
  then show "\<exists>vs. vm' = vm\<lparr>vmas := vs\<rparr> \<and> length vs = length (vmas vm)"
    using r by (auto simp: vma_remove_range_def Let_def split: if_splits intro: exI [of _ "vmas vm"])
qed

subsection \<open>Inserting a range\<close>

lemma merge_fold:
  assumes "fold (merge_step base bytes fl vs) is (None, None) = (b, a)" and "set is \<subseteq> {..<length vs}"
  shows "b = Some i \<Longrightarrow> i < length vs \<and> used (vs ! i) \<and> pte_flags (vs ! i) = fl \<and> vend (vs ! i) = base"
    and "a = Some i \<Longrightarrow> i < length vs \<and> used (vs ! i) \<and> pte_flags (vs ! i) = fl \<and> vend (vs ! i) \<noteq> base
           \<and> vstart (vs ! i) = base + bytes"
proof -
  let ?P = "\<lambda>ba. (\<forall>i. fst ba = Some i \<longrightarrow> i < length vs \<and> used (vs ! i) \<and> pte_flags (vs ! i) = fl \<and> vend (vs ! i) = base)
    \<and> (\<forall>i. snd ba = Some i \<longrightarrow> i < length vs \<and> used (vs ! i) \<and> pte_flags (vs ! i) = fl \<and> vend (vs ! i) \<noteq> base
           \<and> vstart (vs ! i) = base + bytes)"
  have step: "?P ba \<Longrightarrow> k < length vs \<Longrightarrow> ?P (merge_step base bytes fl vs k ba)" for ba k
    by (auto simp: merge_step_def Let_def)
  have ind: "set is \<subseteq> {..<length vs} \<Longrightarrow> ?P ba \<Longrightarrow> ?P (fold (merge_step base bytes fl vs) is ba)" for ba
  proof (induction "is" arbitrary: ba)
    case (Cons k ks)
    have k: "k < length vs" "set ks \<subseteq> {..<length vs}" using Cons.prems(1) by simp_all
    show ?case using Cons.IH [OF k(2) step [OF Cons.prems(2) k(1)]] by (simp only: fold_Cons comp_def)
  qed simp
  have "?P (None, None)" by simp
  from ind [OF assms(2) this] have "?P (b, a)" by (simp only: assms(1))
  then show "b = Some i \<Longrightarrow> i < length vs \<and> used (vs ! i) \<and> pte_flags (vs ! i) = fl \<and> vend (vs ! i) = base"
    "a = Some i \<Longrightarrow> i < length vs \<and> used (vs ! i) \<and> pte_flags (vs ! i) = fl \<and> vend (vs ! i) \<noteq> base
           \<and> vstart (vs ! i) = base + bytes" by simp_all
qed

definition range_free :: "user_vma list \<Rightarrow> u64 \<Rightarrow> u64 \<Rightarrow> bool" where
  "range_free vs base stop \<longleftrightarrow> (\<forall>i<length vs. used (vs ! i) \<longrightarrow> vend (vs ! i) \<le> base \<or> stop \<le> vstart (vs ! i))"

lemma covers_update1:
  assumes "k < length vs" and "\<And>a. within v' a \<longleftrightarrow> within (vs ! k) a \<or> base \<le> a \<and> a < stop"
    and "pte_flags v' = fl" and "used (vs ! k) \<Longrightarrow> pte_flags (vs ! k) = fl"
  shows "covers (vs[k := v']) a g \<longleftrightarrow> covers vs a g \<or> (base \<le> a \<and> a < stop \<and> g = fl)"
proof
  assume "covers (vs[k := v']) a g"
  then obtain i where i: "i < length vs" "within (vs[k := v'] ! i) a" "pte_flags (vs[k := v'] ! i) = g" by (auto simp: covers_def)
  show "covers vs a g \<or> (base \<le> a \<and> a < stop \<and> g = fl)"
  proof (cases "i = k")
    case True
    then have "within (vs ! k) a \<or> base \<le> a \<and> a < stop" "g = fl" using i assms by auto
    then show ?thesis using assms(1,4) by (auto simp: covers_def within_def)
  next
    case False
    then show ?thesis using i by (auto simp: covers_def)
  qed
next
  assume r: "covers vs a g \<or> (base \<le> a \<and> a < stop \<and> g = fl)"
  show "covers (vs[k := v']) a g"
  proof (cases "base \<le> a \<and> a < stop \<and> g = fl")
    case True
    then show ?thesis using assms(1-3) unfolding covers_def by (intro exI [of _ k]) simp
  next
    case False
    then obtain i where i: "i < length vs" "within (vs ! i) a" "pte_flags (vs ! i) = g" using r by (auto simp: covers_def)
    show ?thesis
    proof (cases "i = k")
      case True
      then show ?thesis using i assms unfolding covers_def by (intro exI [of _ k]) (auto simp: within_def)
    next
      case False
      then show ?thesis using i unfolding covers_def by (intro exI [of _ i]) simp
    qed
  qed
qed

lemma vma_wf_update1:
  assumes "vma_wf vs" "k < length vs" "vstart v' < vend v'"
    and "\<And>i. i < length vs \<Longrightarrow> i \<noteq> k \<Longrightarrow> used (vs ! i) \<Longrightarrow> apart (vs ! i) v'"
  shows "vma_wf (vs[k := v'])"
proof (rule vma_wfI)
  fix i assume "i < length (vs[k := v'])" "used (vs[k := v'] ! i)"
  then show "vstart (vs[k := v'] ! i) < vend (vs[k := v'] ! i)"
    using assms(2,3) vma_wfD(1) [OF assms(1), of i] by (cases "i = k") auto
next
  fix i j assume *: "i < length (vs[k := v'])" "j < length (vs[k := v'])" "i < j"
    "used (vs[k := v'] ! i)" "used (vs[k := v'] ! j)"
  then show "apart (vs[k := v'] ! i) (vs[k := v'] ! j)"
    using assms(2) assms(4) [of i] assms(4) [of j] vma_wfD(2) [OF assms(1), of i j]
    by (cases "i = k"; cases "j = k") (auto simp: apart_def)
qed

lemma vma_wf_clear:
  assumes "vma_wf vs" shows "vma_wf (vs[k := no_vma])"
proof (rule vma_wfI)
  fix i assume "i < length (vs[k := no_vma])" "used (vs[k := no_vma] ! i)"
  then show "vstart (vs[k := no_vma] ! i) < vend (vs[k := no_vma] ! i)"
    using vma_wfD(1) [OF assms, of i] by (cases "i = k") (auto simp: no_vma_def)
next
  fix i j assume *: "i < length (vs[k := no_vma])" "j < length (vs[k := no_vma])" "i < j"
    "used (vs[k := no_vma] ! i)" "used (vs[k := no_vma] ! j)"
  then show "apart (vs[k := no_vma] ! i) (vs[k := no_vma] ! j)"
    using vma_wfD(2) [OF assms, of i j] by (cases "i = k"; cases "j = k") (auto simp: no_vma_def)
qed

lemma covers_clear:
  "k < length vs \<Longrightarrow> covers (vs[k := no_vma]) a g \<longleftrightarrow> (\<exists>i<length vs. i \<noteq> k \<and> within (vs ! i) a \<and> pte_flags (vs ! i) = g)"
  unfolding covers_def by (rule iff_exI) (auto simp: nth_list_update within_def no_vma_def)

lemma vma_insert_effect:
  assumes wf: "vma_wf vs" and slot: "slot < length vs" "\<not> used (vs ! slot)"
    and free: "range_free vs base (base + bytes)" and lt: "base < base + bytes"
  shows "vma_wf (vma_insert vs slot base bytes fl)"
    and "covers (vma_insert vs slot base bytes fl) a g \<longleftrightarrow> covers vs a g \<or> (base \<le> a \<and> a < base + bytes \<and> g = fl)"
proof -
  let ?e = "base + bytes"
  obtain b t where f: "fold (merge_step base bytes fl vs) [0..<length vs] (None, None) = (b, t)" by fastforce
  have "set [0..<length vs] \<subseteq> {..<length vs}" by auto
  note mb = merge_fold(1) [OF f this] and mt = merge_fold(2) [OF f this]
  have fr: "vend (vs ! i) \<le> base \<or> ?e \<le> vstart (vs ! i)" if "i < length vs" "used (vs ! i)" for i
    using free that by (simp add: range_free_def)
  have "vma_wf (vma_insert vs slot base bytes fl) \<and>
    (\<forall>a g. covers (vma_insert vs slot base bytes fl) a g \<longleftrightarrow> covers vs a g \<or> (base \<le> a \<and> a < ?e \<and> g = fl))"
  proof (cases b)
    case None
    show ?thesis
    proof (cases t)
      case None
      let ?v = "\<lparr>vstart = base, vend = ?e, pte_flags = fl, used = True\<rparr>"
      have i: "vma_insert vs slot base bytes fl = vs[slot := ?v]" using f \<open>b = None\<close> None by (simp add: vma_insert_def)
      have "vma_wf (vs[slot := ?v])" by (rule vma_wf_update1 [OF wf slot(1)]) (use lt fr in \<open>auto simp: apart_def\<close>)
      moreover have "covers (vs[slot := ?v]) a g \<longleftrightarrow> covers vs a g \<or> (base \<le> a \<and> a < ?e \<and> g = fl)" for a g
        by (rule covers_update1 [OF slot(1)]) (use slot(2) in \<open>auto simp: within_def\<close>)
      ultimately show ?thesis using i by simp
    next
      case (Some k)
      note k = mt [OF Some]
      let ?v = "(vs ! k)\<lparr>vstart := base\<rparr>"
      have i: "vma_insert vs slot base bytes fl = vs[k := ?v]" using f \<open>b = None\<close> Some by (simp add: vma_insert_def)
      have kv: "vstart (vs ! k) < vend (vs ! k)" using vma_wfD(1) [OF wf, of k] k by blast
      have "apart (vs ! i) ?v" if "i < length vs" "i \<noteq> k" "used (vs ! i)" for i
        using fr [OF that(1,3)] vma_wfD(2) [OF wf that(1) _ that(2,3)] k vma_wfD(1) [OF wf that(1,3)] by (auto simp: apart_def)
      then have "vma_wf (vs[k := ?v])" using k kv lt by (intro vma_wf_update1 [OF wf]) auto
      moreover have "covers (vs[k := ?v]) a g \<longleftrightarrow> covers vs a g \<or> (base \<le> a \<and> a < ?e \<and> g = fl)" for a g
        by (rule covers_update1) (use k kv lt in \<open>auto simp: within_def\<close>)
      ultimately show ?thesis using i by simp
    qed
  next
    case (Some l)
    note l = mb [OF Some]
    have lv: "vstart (vs ! l) < vend (vs ! l)" using vma_wfD(1) [OF wf, of l] l by blast
    show ?thesis
    proof (cases t)
      case None
      let ?v = "(vs ! l)\<lparr>vend := ?e\<rparr>"
      have i: "vma_insert vs slot base bytes fl = vs[l := ?v]" using f Some None by (simp add: vma_insert_def)
      have "apart (vs ! i) ?v" if "i < length vs" "i \<noteq> l" "used (vs ! i)" for i
        using fr [OF that(1,3)] vma_wfD(2) [OF wf that(1) _ that(2,3)] l vma_wfD(1) [OF wf that(1,3)] by (auto simp: apart_def)
      then have "vma_wf (vs[l := ?v])" using l lv lt by (intro vma_wf_update1 [OF wf]) auto
      moreover have "covers (vs[l := ?v]) a g \<longleftrightarrow> covers vs a g \<or> (base \<le> a \<and> a < ?e \<and> g = fl)" for a g
        by (rule covers_update1) (use l lv lt in \<open>auto simp: within_def\<close>)
      ultimately show ?thesis using i by simp
    next
      case (Some k)
      note k = mt [OF Some]
      have lk: "l \<noteq> k" using l k by auto
      have kv: "vstart (vs ! k) < vend (vs ! k)" using vma_wfD(1) [OF wf, of k] k by blast
      let ?v = "(vs ! l)\<lparr>vend := vend (vs ! k)\<rparr>"
      let ?ws = "vs[k := no_vma]"
      have i: "vma_insert vs slot base bytes fl = ?ws[l := ?v]"
        using f \<open>b = Some l\<close> Some lk by (simp add: vma_insert_def list_update_swap)
      have ws: "vma_wf ?ws" by (rule vma_wf_clear [OF wf])
      have "apart (?ws ! i) ?v" if "i < length ?ws" "i \<noteq> l" "used (?ws ! i)" for i
      proof -
        have ik1: "i \<noteq> k" using that(1,3) by (auto simp: no_vma_def)
        then have ik: "i \<noteq> k" "used (vs ! i)" "i < length vs" using that(1,3) by simp_all
        then show ?thesis
          using fr [OF ik(3,2)] vma_wfD(2) [OF wf ik(3) _ that(2) ik(2)] vma_wfD(2) [OF wf ik(3) _ ik(1,2)] l k
            vma_wfD(1) [OF wf ik(3,2)] lt lv kv by (auto simp: apart_def)
      qed
      then have "vma_wf (?ws[l := ?v])" using l k lv kv lt by (intro vma_wf_update1 [OF ws]) auto
      moreover have "covers (?ws[l := ?v]) a g \<longleftrightarrow> covers vs a g \<or> (base \<le> a \<and> a < ?e \<and> g = fl)" for a g
      proof -
        have "covers (?ws[l := ?v]) a g \<longleftrightarrow> covers ?ws a g \<or> (base \<le> a \<and> a < vend (vs ! k) \<and> g = fl)"
          by (rule covers_update1) (use l k lk lv kv lt in \<open>auto simp: within_def\<close>)
        moreover have "covers vs a g \<longleftrightarrow> covers ?ws a g \<or> (within (vs ! k) a \<and> g = fl)"
          using covers_clear [of k vs a g] k unfolding covers_def by auto
        ultimately show ?thesis using k kv lt by (auto simp: within_def)
      qed
      ultimately show ?thesis using i by simp
    qed
  qed
  then show "vma_wf (vma_insert vs slot base bytes fl)"
    "covers (vma_insert vs slot base bytes fl) a g \<longleftrightarrow> covers vs a g \<or> (base \<le> a \<and> a < ?e \<and> g = fl)" by blast+
qed

section \<open>The free list of the mmap arena\<close>

definition in_hole :: "vm_hole \<Rightarrow> u64 \<Rightarrow> bool" where
  "in_hole h a \<longleftrightarrow> hbase h \<le> a \<and> a < hbase h + hlen h"

definition hole_cov :: "vm_hole list \<Rightarrow> u64 \<Rightarrow> bool" where
  "hole_cov hs a \<longleftrightarrow> (\<exists>i<length hs. hlen (hs ! i) \<noteq> 0 \<and> in_hole (hs ! i) a)"

definition hole_wf :: "vm_hole list \<Rightarrow> bool" where
  "hole_wf hs \<longleftrightarrow>
     (\<forall>i<length hs. hlen (hs ! i) \<noteq> 0 \<longrightarrow> hbase (hs ! i) < hbase (hs ! i) + hlen (hs ! i)) \<and>
     (\<forall>i<length hs. \<forall>j<length hs. i \<noteq> j \<longrightarrow> hlen (hs ! i) \<noteq> 0 \<longrightarrow> hlen (hs ! j) \<noteq> 0 \<longrightarrow>
        hbase (hs ! i) + hlen (hs ! i) \<le> hbase (hs ! j) \<or> hbase (hs ! j) + hlen (hs ! j) \<le> hbase (hs ! i))"

definition clear_of :: "vm_hole \<Rightarrow> u64 \<Rightarrow> u64 \<Rightarrow> bool" where
  "clear_of h b e \<longleftrightarrow> hlen h = 0 \<or> hbase h + hlen h < b \<or> e < hbase h"

lemma clear_nth: "j < length hs \<Longrightarrow> hlen (hs[i := no_hole] ! j) \<noteq> 0 \<Longrightarrow> hs[i := no_hole] ! j = hs ! j"
  by (cases "j = i") (auto simp: no_hole_def)

lemma hole_wf_clear:
  assumes "hole_wf hs" shows "hole_wf (hs[i := no_hole])"
  using assms clear_nth [of _ hs i] unfolding hole_wf_def by (metis length_list_update)

lemma hole_cov_clear:
  assumes "i < length hs" "hlen (hs ! i) \<noteq> 0"
  shows "hole_cov hs a \<longleftrightarrow> hole_cov (hs[i := no_hole]) a \<or> in_hole (hs ! i) a"
proof
  assume "hole_cov hs a"
  then obtain j where j: "j < length hs" "hlen (hs ! j) \<noteq> 0" "in_hole (hs ! j) a" by (auto simp: hole_cov_def)
  show "hole_cov (hs[i := no_hole]) a \<or> in_hole (hs ! i) a"
  proof (cases "j = i")
    case False
    then show ?thesis using j unfolding hole_cov_def by (intro disjI1 exI [of _ j]) simp
  qed (use j in simp)
next
  assume "hole_cov (hs[i := no_hole]) a \<or> in_hole (hs ! i) a"
  then show "hole_cov hs a"
  proof
    assume "hole_cov (hs[i := no_hole]) a"
    then obtain j where j: "j < length hs" "hlen (hs[i := no_hole] ! j) \<noteq> 0" "in_hole (hs[i := no_hole] ! j) a"
      by (auto simp: hole_cov_def)
    then have "j \<noteq> i" by (auto simp: no_hole_def)
    then show ?thesis using j unfolding hole_cov_def by (intro exI [of _ j]) simp
  qed (use assms in \<open>auto simp: hole_cov_def\<close>)
qed

lemma hole_merge_effect:
  assumes "hole_wf hs" "b < e" "\<And>j. j < i \<Longrightarrow> j < length hs \<Longrightarrow> clear_of (hs ! j) b e"
    and "hole_merge i hs b e = (hs', b', e')"
  shows "hole_wf hs' \<and> length hs' = length hs \<and> b' < e' \<and> (\<forall>j<length hs. clear_of (hs' ! j) b' e')
    \<and> (\<forall>a. hole_cov hs' a \<or> (b' \<le> a \<and> a < e') \<longleftrightarrow> hole_cov hs a \<or> (b \<le> a \<and> a < e))
    \<and> (hs' = hs \<and> b' = b \<and> e' = e \<or> (\<exists>j<length hs. hlen (hs' ! j) = 0))"
  using assms
proof (induction i hs b e rule: hole_merge.induct)
  case (1 i hs b e)
  note u = hole_merge.simps [of i hs b e]
  let ?h = "hs ! i" and ?he = "hbase (hs ! i) + hlen (hs ! i)"
  consider "length hs \<le> i" | "i < length hs" "clear_of ?h b e" | "i < length hs" "\<not> clear_of ?h b e" by linarith
  then show ?case
  proof cases
    case 1
    then show ?thesis using "1.prems" u by auto
  next
    case 2
    then have "hole_merge i hs b e = hole_merge (Suc i) hs b e"
      unfolding u by (auto simp: Let_def clear_of_def)
    then have r: "hole_merge (Suc i) hs b e = (hs', b', e')" using "1.prems"(4) by simp
    have c: "clear_of (hs ! j) b e" if "j < Suc i" "j < length hs" for j
      using that "1.prems"(3) [of j] 2(2) by (cases "j = i") auto
    have ni: "\<not> length hs \<le> i" using 2(1) by simp
    show ?thesis
    proof (cases "hlen ?h = 0")
      case True
      show ?thesis using "1.IH"(1) [OF ni refl refl True "1.prems"(1,2) c r] by simp
    next
      case False
      then have o: "?he < b \<or> e < hbase ?h" using 2(2) by (auto simp: clear_of_def)
      show ?thesis using "1.IH"(2) [OF ni refl refl False o "1.prems"(1,2) c r] by simp
    qed
  next
    case 3
    let ?hs = "hs[i := no_hole]" and ?b = "if hbase ?h < b then hbase ?h else b" and ?e = "if e < ?he then ?he else e"
    have nz: "hlen ?h \<noteq> 0" and o: "\<not> (?he < b \<or> e < hbase ?h)" using 3(2) by (auto simp: clear_of_def)
    have ni: "\<not> length hs \<le> i" using 3(1) by simp
    have r: "hole_merge 0 ?hs ?b ?e = (hs', b', e')" using "1.prems"(4) ni nz o unfolding u by (simp add: Let_def)
    have hw: "hbase ?h < ?he" using "1.prems"(1) 3(1) nz by (simp add: hole_wf_def)
    have lt: "?b < ?e" using "1.prems"(2) hw by (auto split: if_splits)
    have ih: "hole_wf hs' \<and> length hs' = length ?hs \<and> b' < e' \<and> (\<forall>j<length ?hs. clear_of (hs' ! j) b' e')
      \<and> (\<forall>a. hole_cov hs' a \<or> (b' \<le> a \<and> a < e') \<longleftrightarrow> hole_cov ?hs a \<or> (?b \<le> a \<and> a < ?e))
      \<and> (hs' = ?hs \<and> b' = ?b \<and> e' = ?e \<or> (\<exists>j<length ?hs. hlen (hs' ! j) = 0))"
      by (rule "1.IH"(3) [OF ni refl refl nz o hole_wf_clear [OF "1.prems"(1)] lt _ r]) simp
    have cov: "(?b \<le> a \<and> a < ?e) \<longleftrightarrow> in_hole ?h a \<or> (b \<le> a \<and> a < e)" for a
      using o hw "1.prems"(2) by (auto simp: in_hole_def)
    have "\<exists>j<length hs. hlen (hs' ! j) = 0"
    proof -
      have "hlen (?hs ! i) = 0" using 3(1) by (simp add: no_hole_def)
      then show ?thesis using ih 3(1) by auto
    qed
    then show ?thesis using ih cov hole_cov_clear [OF 3(1) nz] by auto
  qed
qed

lemma hole_add_effect:
  assumes wf: "hole_wf (mmap_holes vm)" and lt: "base < base + bytes"
  shows "hole_wf (mmap_holes (hole_add vm base bytes))"
    and "(\<forall>a. hole_cov (mmap_holes (hole_add vm base bytes)) a \<longleftrightarrow> hole_cov (mmap_holes vm) a \<or> (base \<le> a \<and> a < base + bytes))
       \<or> (hole_add vm base bytes = vm \<and> (\<forall>i<length (mmap_holes vm). hlen (mmap_holes vm ! i) \<noteq> 0))"
    and "vmas (hole_add vm base bytes) = vmas vm" "mmap_next_va (hole_add vm base bytes) = mmap_next_va vm"
    "user_pml4 (hole_add vm base bytes) = user_pml4 vm"
proof -
  let ?h = "mmap_holes vm"
  obtain hs b e where m: "hole_merge 0 ?h base (base + bytes) = (hs, b, e)" by (cases "hole_merge 0 ?h base (base + bytes)") auto
  have "clear_of (?h ! j) base (base + bytes)" if "j < 0" for j :: nat using that by simp
  note r = hole_merge_effect [OF wf lt this m]
  show "vmas (hole_add vm base bytes) = vmas vm" "mmap_next_va (hole_add vm base bytes) = mmap_next_va vm"
    "user_pml4 (hole_add vm base bytes) = user_pml4 vm"
    using m by (simp_all add: hole_add_def split: option.split)
  have "hole_wf (mmap_holes (hole_add vm base bytes)) \<and>
    ((\<forall>a. hole_cov (mmap_holes (hole_add vm base bytes)) a \<longleftrightarrow> hole_cov ?h a \<or> (base \<le> a \<and> a < base + bytes))
       \<or> (hole_add vm base bytes = vm \<and> (\<forall>i<length ?h. hlen (?h ! i) \<noteq> 0)))"
  proof (cases "find (\<lambda>i. hlen (hs ! i) = 0) [0..<length hs]")
    case None
    then have "hlen (hs ! i) \<noteq> 0" if "i < length hs" for i using that by (simp add: find_upt_None_iff)
    then have "hs = ?h" using r by auto
    moreover have "hole_add vm base bytes = vm\<lparr>mmap_holes := hs\<rparr>" using m None by (simp add: hole_add_def)
    ultimately show ?thesis using r \<open>\<And>i. i < length hs \<Longrightarrow> hlen (hs ! i) \<noteq> 0\<close> by simp
  next
    case (Some k)
    then have k: "k < length hs" "hlen (hs ! k) = 0" by (auto simp: find_upt_Some_iff)
    let ?n = "\<lparr>hbase = b, hlen = e - b\<rparr>"
    have hs': "mmap_holes (hole_add vm base bytes) = hs[k := ?n]" using m Some by (simp add: hole_add_def)
    have be: "b < e" using r by simp
    then have nz: "e - b \<noteq> 0" by auto
    have cl: "clear_of (hs ! j) b e" if "j < length hs" for j using r that by simp
    have wf': "hole_wf hs" using r by simp
    have "hole_wf (hs[k := ?n])"
      unfolding hole_wf_def length_list_update
    proof (intro conjI allI impI)
      fix i assume "i < length hs" "hlen (hs[k := ?n] ! i) \<noteq> 0"
      then show "hbase (hs[k := ?n] ! i) < hbase (hs[k := ?n] ! i) + hlen (hs[k := ?n] ! i)"
        using wf' be k by (cases "i = k") (auto simp: hole_wf_def)
    next
      fix i j assume *: "i < length hs" "j < length hs" "i \<noteq> j" "hlen (hs[k := ?n] ! i) \<noteq> 0" "hlen (hs[k := ?n] ! j) \<noteq> 0"
      show "hbase (hs[k := ?n] ! i) + hlen (hs[k := ?n] ! i) \<le> hbase (hs[k := ?n] ! j)
          \<or> hbase (hs[k := ?n] ! j) + hlen (hs[k := ?n] ! j) \<le> hbase (hs[k := ?n] ! i)"
        using * cl [OF *(1)] cl [OF *(2)] wf' k(1)
        by (cases "i = k"; cases "j = k") (auto simp: clear_of_def hole_wf_def)
    qed
    moreover have "hole_cov (hs[k := ?n]) a \<longleftrightarrow> hole_cov hs a \<or> (b \<le> a \<and> a < e)" for a
    proof -
      have "hs = (hs[k := ?n])[k := hs ! k]" by simp
      moreover have "hole_cov ((hs[k := ?n])[k := hs ! k]) a \<longleftrightarrow> hole_cov ((hs[k := ?n])[k := no_hole]) a"
        using k unfolding hole_cov_def by (rule_tac iff_exI) (auto simp: nth_list_update no_hole_def)
      ultimately show ?thesis
        using hole_cov_clear [of k "hs[k := ?n]" a] k(1) nz by (simp add: in_hole_def)
    qed
    ultimately show ?thesis using r hs' by simp
  qed
  then show "hole_wf (mmap_holes (hole_add vm base bytes))"
    "(\<forall>a. hole_cov (mmap_holes (hole_add vm base bytes)) a \<longleftrightarrow> hole_cov ?h a \<or> (base \<le> a \<and> a < base + bytes))
       \<or> (hole_add vm base bytes = vm \<and> (\<forall>i<length ?h. hlen (?h ! i) \<noteq> 0))" by blast+
qed

text \<open>Carving from a hole, or bumping the arena pointer.\<close>

lemma arena_alloc_effect:
  assumes wf: "hole_wf (mmap_holes vm)" and nz: "bytes \<noteq> 0" and al: "arena_alloc vm bytes = (base, vm')"
  shows "vmas vm' = vmas vm" "user_pml4 vm' = user_pml4 vm"
    and "(\<exists>i<length (mmap_holes vm). hlen (mmap_holes vm ! i) \<noteq> 0 \<and> base = hbase (mmap_holes vm ! i)
            \<and> base < base + bytes \<and> mmap_next_va vm' = mmap_next_va vm \<and> hole_wf (mmap_holes vm')
            \<and> (\<forall>a. base \<le> a \<and> a < base + bytes \<longrightarrow> hole_cov (mmap_holes vm) a)
            \<and> (\<forall>a. hole_cov (mmap_holes vm') a \<longleftrightarrow> hole_cov (mmap_holes vm) a \<and> \<not> (base \<le> a \<and> a < base + bytes)))
       \<or> (base = mmap_next_va vm \<and> base < base + bytes \<and> base + bytes \<le> USER_MMAP_LIMIT \<and> vm' = vm\<lparr>mmap_next_va := base + bytes\<rparr>)
       \<or> (base = 0 \<and> vm' = vm)"
proof -
  let ?h = "mmap_holes vm"
  show "vmas vm' = vmas vm" "user_pml4 vm' = user_pml4 vm"
    using al by (auto simp: arena_alloc_def Let_def split: option.splits if_splits)
  show "(\<exists>i<length ?h. hlen (?h ! i) \<noteq> 0 \<and> base = hbase (?h ! i)
            \<and> base < base + bytes \<and> mmap_next_va vm' = mmap_next_va vm \<and> hole_wf (mmap_holes vm')
            \<and> (\<forall>a. base \<le> a \<and> a < base + bytes \<longrightarrow> hole_cov ?h a)
            \<and> (\<forall>a. hole_cov (mmap_holes vm') a \<longleftrightarrow> hole_cov ?h a \<and> \<not> (base \<le> a \<and> a < base + bytes)))
       \<or> (base = mmap_next_va vm \<and> base < base + bytes \<and> base + bytes \<le> USER_MMAP_LIMIT \<and> vm' = vm\<lparr>mmap_next_va := base + bytes\<rparr>)
       \<or> (base = 0 \<and> vm' = vm)"
  proof (cases "find (\<lambda>i. \<not> (hlen (?h ! i) = 0 \<or> hlen (?h ! i) < bytes)) [0..<length ?h]")
    case None
    have "base + bytes \<noteq> base" using nz by simp
    then show ?thesis using al None
      by (auto simp: arena_alloc_def Let_def not_less less_le split: if_splits)
  next
    case (Some k)
    then have k: "k < length ?h" "hlen (?h ! k) \<noteq> 0" "bytes \<le> hlen (?h ! k)" by (auto simp: find_upt_Some_iff)
    let ?n = "\<lparr>hbase = hbase (?h ! k) + bytes, hlen = hlen (?h ! k) - bytes\<rparr>"
    have r: "base = hbase (?h ! k)" "vm' = vm\<lparr>mmap_holes := ?h[k := ?n]\<rparr>"
      using al Some by (auto simp: arena_alloc_def Let_def)
    have hw: "hbase (?h ! k) < hbase (?h ! k) + hlen (?h ! k)" using wf k by (simp add: hole_wf_def)
    have ov: "unat (hbase (?h ! k)) + unat (hlen (?h ! k)) < 2 ^ 64"
      using no_olen_add_nat [of "hbase (?h ! k)" "hlen (?h ! k)"] less_imp_le [OF hw] by simp
    have ub: "unat bytes \<le> unat (hlen (?h ! k))" using k(3) by (simp add: word_le_nat_alt)
    have un: "unat (base + bytes) = unat base + unat bytes"
      "unat (hbase (?h ! k) + hlen (?h ! k)) = unat base + unat (hlen (?h ! k))"
      using ov ub by (simp_all add: r(1) unat_word_ariths)
    have bb: "base < base + bytes" using un(1) nz by (simp add: word_less_nat_alt unat_gt_0)
    have be: "base + bytes \<le> hbase (?h ! k) + hlen (?h ! k)" using un ub by (simp add: word_le_nat_alt)
    have e: "hbase ?n + hlen ?n = hbase (?h ! k) + hlen (?h ! k)" by simp
    have in_n: "in_hole ?n a \<longleftrightarrow> in_hole (?h ! k) a \<and> \<not> (base \<le> a \<and> a < base + bytes)" for a
      using bb be by (auto simp: in_hole_def r(1))
    have "hole_wf (?h[k := ?n])"
      unfolding hole_wf_def length_list_update
    proof (intro conjI allI impI)
      fix i assume i: "i < length ?h" "hlen (?h[k := ?n] ! i) \<noteq> 0"
      show "hbase (?h[k := ?n] ! i) < hbase (?h[k := ?n] ! i) + hlen (?h[k := ?n] ! i)"
      proof (cases "i = k")
        case True
        then have "hlen (?h ! k) \<noteq> bytes" using i k(1) by auto
        then have "base + bytes \<noteq> hbase (?h ! k) + hlen (?h ! k)" by (auto simp: r(1))
        then have "base + bytes < hbase (?h ! k) + hlen (?h ! k)" using be by (rule order.not_eq_order_implies_strict)
        then show ?thesis using True k(1) by (simp add: r(1))
      next
        case False
        then show ?thesis using i wf by (simp add: hole_wf_def)
      qed
    next
      fix i j assume *: "i < length ?h" "j < length ?h" "i \<noteq> j" "hlen (?h[k := ?n] ! i) \<noteq> 0" "hlen (?h[k := ?n] ! j) \<noteq> 0"
      have o: "hbase (?h ! i) + hlen (?h ! i) \<le> hbase (?h ! j) \<or> hbase (?h ! j) + hlen (?h ! j) \<le> hbase (?h ! i)"
        if "hlen (?h ! i) \<noteq> 0" "hlen (?h ! j) \<noteq> 0" using wf * that by (simp add: hole_wf_def)
      show "hbase (?h[k := ?n] ! i) + hlen (?h[k := ?n] ! i) \<le> hbase (?h[k := ?n] ! j)
          \<or> hbase (?h[k := ?n] ! j) + hlen (?h[k := ?n] ! j) \<le> hbase (?h[k := ?n] ! i)"
        using * o k bb unfolding r(1)
        by (cases "i = k"; cases "j = k") (auto intro: less_imp_le order_trans)
    qed
    moreover have "hole_cov (?h[k := ?n]) a \<longleftrightarrow> hole_cov ?h a \<and> \<not> (base \<le> a \<and> a < base + bytes)" for a
    proof -
      have d: "\<not> (base \<le> a \<and> a < base + bytes)" if c: "hole_cov (?h[k := no_hole]) a"
      proof -
        obtain j where j: "j < length ?h" "hlen (?h[k := no_hole] ! j) \<noteq> 0" "in_hole (?h[k := no_hole] ! j) a"
          using c by (auto simp: hole_cov_def)
        then have jk: "j \<noteq> k" by (auto simp: no_hole_def)
        then have "hbase (?h ! j) + hlen (?h ! j) \<le> hbase (?h ! k) \<or> hbase (?h ! k) + hlen (?h ! k) \<le> hbase (?h ! j)"
          using wf j k by (simp add: hole_wf_def)
        then show ?thesis using j(3) jk be by (auto simp: in_hole_def r(1))
      qed
      have "hole_cov (?h[k := ?n]) a \<longleftrightarrow> hole_cov (?h[k := no_hole]) a \<or> in_hole ?n a"
      proof (cases "hlen ?n = 0")
        case True
        then have "\<not> in_hole ?n a" using e be by (auto simp: in_hole_def r(1))
        moreover have "hole_cov (?h[k := ?n]) a \<longleftrightarrow> hole_cov (?h[k := no_hole]) a"
          using True k(1) unfolding hole_cov_def by (rule_tac iff_exI) (auto simp: nth_list_update no_hole_def)
        ultimately show ?thesis by simp
      next
        case False
        then show ?thesis using hole_cov_clear [of k "?h[k := ?n]" a] k(1) by simp
      qed
      then show ?thesis using in_n [of a] d hole_cov_clear [OF k(1,2), of a] by blast
    qed
    moreover have "hole_cov ?h a" if "base \<le> a \<and> a < base + bytes" for a
      using hole_cov_clear [OF k(1,2), of a] that be by (auto simp: in_hole_def r(1))
    ultimately show ?thesis using k r bb by auto
  qed
qed

section \<open>Frames of an address space\<close>

text \<open>Memory outside the tables: what mapping and clearing a frame leave alone.\<close>

lemma descend_frame:
  assumes wf: "pt_wf m r" and p: "set p \<subseteq> {..<512}" "tab m r p = Some t" and i: "i < 512"
    and d: "descend ps m t i flags = (res, m')" and j: "j < 512"
    and f: "f AND 4095 = 0" "f \<noteq> t" "f \<notin> avail_frames (pmm_st m)"
  shows "rd m' f j = rd m f j"
proof -
  note al = pt_wfD(3) [OF wf p]
  have w: "rd (wr n t i v) f j = rd n f j" for n v using f(2) rd_wr [OF al f(1) i j] by simp
  from wf show ?thesis
  proof (cases rule: alloc_frame_cases)
    case none
    then show ?thesis using d w by (auto simp: descend_def Let_def split: if_splits)
  next
    case (some a s')
    have "a \<noteq> f" using f(3) some(3) by blast
    then have "rd (zero_page (m\<lparr>pmm_st := s'\<rparr>) a) f j = rd m f j"
      using rd_zero_page [OF some(4) f(1) j] by (simp add: rd_def)
    then show ?thesis using d w some(1,2) by (auto simp: descend_def Let_def split: if_splits)
  qed
qed

definition not_table :: "mach \<Rightarrow> u64 \<Rightarrow> u64 \<Rightarrow> bool" where
  "not_table m r f \<longleftrightarrow> (\<forall>p. set p \<subseteq> {..<512} \<longrightarrow> tab m r p \<noteq> Some f)"

lemma walk_frame:
  assumes wf: "pt_wf m r" and w: "walk_or_create m r virt flags = (res, m')" and j: "j < 512"
    and f: "f AND 4095 = 0" "not_table m r f" "f \<notin> avail_frames (pmm_st m)"
  shows "rd m' f j = rd m f j"
proof -
  let ?i = "va_split virt"
  note b = va_split_less [of virt]
  have s: "set [] \<subseteq> {..<512 :: nat}" "set [?i 0] \<subseteq> {..<512}" "set [?i 1, ?i 0] \<subseteq> {..<512}"
    "length ([] :: nat list) \<le> 2" "length [?i 0] \<le> 2" "length [?i 1, ?i 0] \<le> 2" using b by simp_all
  have t0: "tab m r [] = Some r" by simp
  have ne: "f \<noteq> t" if "set p \<subseteq> {..<512}" "tab m r p = Some t" for p t using f(2) that by (auto simp: not_table_def)
  obtain r1 m1 where d1: "descend False m r (?i 0) flags = (r1, m1)" by fastforce
  then have d1': "descend ([] \<noteq> ([] :: nat list)) m r (?i 0) flags = (r1, m1)" by simp
  note e1 = descend_effect [OF wf s(1) t0 s(4) b d1'] and k1 = descend_frame [OF wf s(1) t0 b d1 j f(1) ne [OF s(1) t0] f(3)]
  have f1: "f \<notin> avail_frames (pmm_st m1)" using e1(4) f(3) by blast
  have ne1: "f \<noteq> t" if "set p \<subseteq> {..<512}" "tab m1 r p = Some t" for p t
    using e1(8) [OF that] ne [OF that(1)] f(3) by blast
  show ?thesis
  proof (cases r1)
    case None
    then show ?thesis using w d1 k1 by (simp add: walk_or_create_def)
  next
    case (Some pdpt)
    obtain r2 m2 where d2: "descend True m1 pdpt (?i 1) flags = (r2, m2)" by fastforce
    then have d2': "descend ([?i 0] \<noteq> []) m1 pdpt (?i 1) flags = (r2, m2)" by simp
    note t1 = e1(6) [OF Some]
    note e2 = descend_effect [OF e1(1) s(2) t1 s(5) b d2'] and k2 = descend_frame [OF e1(1) s(2) t1 b d2 j f(1) ne1 [OF s(2) t1] f1]
    have f2: "f \<notin> avail_frames (pmm_st m2)" using e2(4) f1 by blast
    have ne2: "f \<noteq> t" if "set p \<subseteq> {..<512}" "tab m2 r p = Some t" for p t
      using e2(8) [OF that] ne1 [OF that(1)] f1 by blast
    show ?thesis
    proof (cases r2)
      case None
      then show ?thesis using w d1 d2 k1 k2 Some by (simp add: walk_or_create_def)
    next
      case (Some pd)
      obtain r3 m3 where d3: "descend True m2 pd (?i 2) flags = (r3, m3)" by fastforce
      note t2 = e2(6) [OF Some]
      note k3 = descend_frame [OF e2(1) s(3) t2 b d3 j f(1) ne2 [OF s(3) t2] f2]
      show ?thesis using w d1 d2 d3 \<open>r1 = Some pdpt\<close> Some k1 k2 k3
        by (auto simp: walk_or_create_def split: option.splits)
    qed
  qed
qed

lemma map_frame:
  assumes wf: "pt_wf m r" and mp: "vmm_map_in m r virt phys flags = (res, m')" and j: "j < 512"
    and f: "f AND 4095 = 0" "not_table m r f" "f \<notin> avail_frames (pmm_st m)"
  shows "rd m' f j = rd m f j" "not_table m' r f"
proof -
  show "not_table m' r f"
    unfolding not_table_def
  proof (intro allI impI notI)
    fix p assume p: "set p \<subseteq> {..<512}" "tab m' r p = Some f"
    from vmm_map_in_effect(8) [OF wf mp p] show False using f(2,3) p(1) by (auto simp: not_table_def)
  qed
  obtain o1 m1 where w: "walk_or_create m r virt flags = (o1, m1)" by fastforce
  note k = walk_frame [OF wf w j f] and e = walk_or_create_effect [OF wf w]
  show "rd m' f j = rd m f j"
  proof (cases "phys AND 0xFFFF800000000000 \<noteq> 0 \<or> o1 = None")
    case True
    then show ?thesis using mp w k by (auto simp: vmm_map_in_def split: if_splits)
  next
    case False
    then obtain pte where pte: "o1 = Some pte" by blast
    let ?p = "[va_split virt 2, va_split virt 1, va_split virt 0]"
    obtain pt where pt: "tab m1 r ?p = Some pt" "pte = pt + 8 * of_nat (va_split virt 3)"
      using e(6) [OF pte] by blast
    have s: "set ?p \<subseteq> {..<512}" by (simp add: va_split_less)
    have "pt \<noteq> f" using e(8) [OF s pt(1)] f(2,3) s unfolding not_table_def by blast
    then have "f + 8 * of_nat j \<noteq> pte"
      using cell_inj [OF f(1) pt_wfD(3) [OF e(1) s pt(1)] j va_split_less] unfolding pt(2) by blast
    then show ?thesis using mp w k False pte by (auto simp: vmm_map_in_def rd_def)
  qed
qed

lemma zero_page_effect:
  assumes wf: "pt_wf m r" and f: "f AND 4095 = 0" "not_table m r f"
  shows "pt_wf (zero_page m f) r" "look (zero_page m f) r v = look m r v"
    "set p \<subseteq> {..<512} \<Longrightarrow> tab (zero_page m f) r p = tab m r p"
proof -
  have c: "rd (zero_page m f) t i = rd m t i" if "set q \<subseteq> {..<512}" "tab m r q = Some t" "i < 512" for q t i
    using rd_zero_page [OF f(1) pt_wfD(3) [OF wf that(1,2)] that(3)] f(2) that(1,2) by (auto simp: not_table_def)
  show t: "tab (zero_page m f) r p = tab m r p" if "set p \<subseteq> {..<512}" for p
    using c that by (intro tab_view_cong) auto
  then show "pt_wf (zero_page m f) r" by (intro pt_wf_viewI [OF wf]) (simp_all add: zero_page_def)
  show "look (zero_page m f) r v = look m r v"
    unfolding look_def using look_view_cong [where p = "[]", of m r "zero_page m f"] c path_bound by simp
qed

text \<open>
  The frame invariant of a user address space: every present user page that is not borrowed
  owns its frame, so the frame is not free, is not a table and is mapped only once.
\<close>

abbreviation user_va :: "u64 \<Rightarrow> bool" where
  "user_va v \<equiv> v < 0x800000000000"

definition owned :: "mach \<Rightarrow> u64 \<Rightarrow> u64 \<Rightarrow> bool" where
  "owned m r v \<longleftrightarrow> vmm_entry_in m r v \<noteq> 0 \<and> vmm_entry_in m r v AND VMM_SHARED = 0"

definition frame_of :: "mach \<Rightarrow> u64 \<Rightarrow> u64 \<Rightarrow> u64" where
  "frame_of m r v = vmm_entry_in m r v AND VMM_ADDR_MASK"

definition as_inv :: "mach \<Rightarrow> u64 \<Rightarrow> bool" where
  "as_inv m r \<longleftrightarrow> pt_wf m r
     \<and> (\<forall>v. user_va v \<longrightarrow> owned m r v \<longrightarrow> frame_of m r v \<in> managed_frames (pmm_st m)
          \<and> frame_of m r v \<notin> avail_frames (pmm_st m) \<and> not_table m r (frame_of m r v))
     \<and> (\<forall>v w. user_va v \<longrightarrow> user_va w \<longrightarrow> owned m r v \<longrightarrow> owned m r w \<longrightarrow> frame_of m r v = frame_of m r w \<longrightarrow> same_page v w)"

lemma as_invD:
  assumes "as_inv m r"
  shows "pt_wf m r"
    and "user_va v \<Longrightarrow> owned m r v \<Longrightarrow> frame_of m r v \<in> managed_frames (pmm_st m)"
    and "user_va v \<Longrightarrow> owned m r v \<Longrightarrow> frame_of m r v \<notin> avail_frames (pmm_st m)"
    and "user_va v \<Longrightarrow> owned m r v \<Longrightarrow> not_table m r (frame_of m r v)"
    and "user_va v \<Longrightarrow> user_va w \<Longrightarrow> owned m r v \<Longrightarrow> owned m r w \<Longrightarrow> frame_of m r v = frame_of m r w \<Longrightarrow> same_page v w"
  using assms unfolding as_inv_def by blast+

lemma same_page_entry: "same_page v w \<Longrightarrow> vmm_entry_in m r v = vmm_entry_in m r w"
  by (simp add: same_page_path vmm_entry_in_look look_def)

lemma same_page_trans: "same_page u v \<Longrightarrow> same_page v w \<Longrightarrow> same_page u w"
  by (simp add: same_page_def)

lemma same_page_sym: "same_page u v \<Longrightarrow> same_page v u"
  by (simp add: same_page_def)

lemma entry_pmm_st [simp]: "vmm_entry_in (m\<lparr>pmm_st := s\<rparr>) r v = vmm_entry_in m r v"
  by (simp add: vmm_entry_in_look)

lemma entry_free_frame [simp]: "vmm_entry_in (free_frame m a) r v = vmm_entry_in m r v"
  by (simp add: free_frame_def)

lemma tab_free_frame [simp]: "tab (free_frame m a) r p = tab m r p"
  by (simp add: free_frame_def)

lemma owned_same_page: "same_page v w \<Longrightarrow> owned m r v = owned m r w"
  "same_page v w \<Longrightarrow> frame_of m r v = frame_of m r w"
  using same_page_entry by (auto simp: owned_def frame_of_def)

lemma frame_entry_split:
  assumes "a AND 4095 = 0" "unat a < 2 ^ 52" "fl AND VMM_ADDR_MASK = 0" "fl AND VMM_SHARED = 0"
  shows "((a AND VMM_ADDR_MASK) OR (fl OR VMM_PRESENT)) AND VMM_ADDR_MASK = a"
    "((a AND VMM_ADDR_MASK) OR (fl OR VMM_PRESENT)) AND VMM_SHARED = 0"
proof -
  have a: "a AND VMM_ADDR_MASK = a" using frame_entry_mask [OF assms(1,2), of 0] by simp
  show "((a AND VMM_ADDR_MASK) OR (fl OR VMM_PRESENT)) AND VMM_ADDR_MASK = a"
    using a assms(3) by (simp add: bit.conj_disj_distrib2)
  have "a AND VMM_SHARED = (a AND VMM_ADDR_MASK) AND VMM_SHARED" using a by simp
  also have "\<dots> = 0" by (simp add: and.assoc)
  finally show "((a AND VMM_ADDR_MASK) OR (fl OR VMM_PRESENT)) AND VMM_SHARED = 0"
    using a assms(4) by (simp add: bit.conj_disj_distrib2)
qed

text \<open>A fresh zeroed frame put behind an unmapped user page keeps the frame invariant.\<close>

lemma map_fresh:
  assumes inv: "as_inv m r" and al: "alloc_frame m = (a, m1)" "a \<noteq> 0" and page: "user_va page" "vmm_entry_in m r page = 0"
    and fl: "fl AND VMM_ADDR_MASK = 0" "fl AND VMM_SHARED = 0"
    and mp: "vmm_map_in (zero_page m1 a) r page a fl = (res, m3)"
  shows "res = 0 \<Longrightarrow> as_inv m3 r \<and> frame_of m3 r page = a \<and> (\<forall>i<512. rd m3 a i = 0)"
    and "res \<noteq> 0 \<Longrightarrow> as_inv (free_frame m3 a) r"
    and "a \<in> avail_frames (pmm_st m)" "a AND 4095 = 0"
    and "vmm_entry_in m3 r v = (if res = 0 \<and> same_page v page then (a AND VMM_ADDR_MASK) OR (fl OR VMM_PRESENT)
           else vmm_entry_in m r v)"
proof -
  note wf = as_invD(1) [OF inv]
  obtain s' where s': "m1 = m\<lparr>pmm_st := s'\<rparr>" "a \<in> avail_frames (pmm_st m)" "a AND 4095 = 0" "unat a < 2 ^ 52"
      "bitmap_frames s' = bitmap_frames (pmm_st m)" "avail_frames s' = avail_frames (pmm_st m) - {a}"
    using wf al by (cases rule: alloc_frame_cases) auto
  then show "a \<in> avail_frames (pmm_st m)" "a AND 4095 = 0" by blast+
  have wf1: "pt_wf m1 r" by (rule pt_wf_alloc [OF wf al(1)])
  have nt: "not_table m1 r a" using pt_wfD(4) [OF wf] s'(2) by (auto simp: not_table_def s'(1))
  note z = zero_page_effect [OF wf1 s'(3) nt]
  let ?m2 = "zero_page m1 a"
  note e = vmm_map_in_effect [OF z(1) mp]
  have st2: "pmm_st ?m2 = s'" by (simp add: zero_page_def s'(1))
  have nt2: "not_table ?m2 r a" using nt z(3) by (simp add: not_table_def)
  have na: "a \<notin> avail_frames (pmm_st ?m2)" by (simp add: st2 s'(6))
  note k = map_frame [OF z(1) mp _ s'(3) nt2 na]
  have man: "managed_frames (pmm_st m3) = managed_frames (pmm_st m)" using e(6) by (simp add: st2 managed_frames_def s'(5))
  have av: "avail_frames (pmm_st m3) \<subseteq> avail_frames (pmm_st m) - {a}" using e(5) by (simp add: st2 s'(6))
  have l2: "look ?m2 r v = look m r v" for v using z(2) by (simp add: s'(1))
  have en: "vmm_entry_in m3 r v = (if res = 0 \<and> same_page v page then (a AND VMM_ADDR_MASK) OR (fl OR VMM_PRESENT)
           else vmm_entry_in m r v)" for v
    using e(3) [of v] l2 by (simp add: vmm_entry_in_look same_page_path)
  then show "vmm_entry_in m3 r v = (if res = 0 \<and> same_page v page then (a AND VMM_ADDR_MASK) OR (fl OR VMM_PRESENT)
           else vmm_entry_in m r v)" .
  have tab3: "tab m r p = Some u \<or> u \<in> avail_frames (pmm_st m)" if "set p \<subseteq> {..<512}" "tab m3 r p = Some u" for p u
    using e(8) [OF that] z(3) [OF that(1)] by (auto simp: s'(1) st2 s'(6) zero_page_def)
  have old: "not_table m3 r f" if "not_table m r f" "f \<notin> avail_frames (pmm_st m)" for f
    using tab3 that unfolding not_table_def by blast
  have keep: "frame_of m3 r v \<in> managed_frames (pmm_st m) \<and> frame_of m3 r v \<notin> avail_frames (pmm_st m)
      \<and> not_table m3 r (frame_of m3 r v) \<and> frame_of m3 r v \<noteq> a \<and> owned m r v \<and> frame_of m3 r v = frame_of m r v"
    if "user_va v" "owned m3 r v" "\<not> (res = 0 \<and> same_page v page)" for v
  proof -
    have "vmm_entry_in m3 r v = vmm_entry_in m r v" unfolding en [of v] using that(3) by (simp only: if_False)
    then have o: "owned m r v" "frame_of m3 r v = frame_of m r v" using that(2) by (simp_all add: owned_def frame_of_def)
    then show ?thesis using as_invD(2-4) [OF inv that(1) o(1)] old s'(2) by auto
  qed
  note fe = frame_entry_split [OF s'(3,4) fl]
  show "as_inv m3 r \<and> frame_of m3 r page = a \<and> (\<forall>i<512. rd m3 a i = 0)" if r: "res = 0"
  proof -
    have fp: "frame_of m3 r v = a" if "same_page v page" for v using en [of v] that r fe(1) by (simp add: frame_of_def)
    have "same_page page page" by (simp add: same_page_def)
    have "as_inv m3 r"
      unfolding as_inv_def
    proof (intro conjI allI impI)
      show "pt_wf m3 r" by (rule e(1))
    next
      fix v assume v: "user_va v" "owned m3 r v"
      show "frame_of m3 r v \<in> managed_frames (pmm_st m3)" "frame_of m3 r v \<notin> avail_frames (pmm_st m3)"
        "not_table m3 r (frame_of m3 r v)"
      proof (atomize (full), cases "same_page v page")
        case True
        have "a \<in> managed_frames (pmm_st m)" using pm.avail_managed [OF pt_wfD(1) [OF wf]] s'(2) by blast
        then show "frame_of m3 r v \<in> managed_frames (pmm_st m3) \<and> frame_of m3 r v \<notin> avail_frames (pmm_st m3)
            \<and> not_table m3 r (frame_of m3 r v)"
          using fp [OF True] k(2) [of 0] av man by auto
      next
        case False
        then show "frame_of m3 r v \<in> managed_frames (pmm_st m3) \<and> frame_of m3 r v \<notin> avail_frames (pmm_st m3)
            \<and> not_table m3 r (frame_of m3 r v)"
          using keep [OF v] av man by auto
      qed
    next
      fix v w assume *: "user_va v" "user_va w" "owned m3 r v" "owned m3 r w" "frame_of m3 r v = frame_of m3 r w"
      show "same_page v w"
      proof (cases "same_page v page \<or> same_page w page")
        case True
        then have "frame_of m3 r v = a" "frame_of m3 r w = a" using fp *(5) by auto
        then have "same_page v page" "same_page w page" using keep [OF *(1,3)] keep [OF *(2,4)] by auto
        then show ?thesis using same_page_trans same_page_sym by blast
      next
        case False
        then show ?thesis using keep [OF *(1,3)] keep [OF *(2,4)] *(5) as_invD(5) [OF inv *(1,2)] by auto
      qed
    qed
    moreover have "rd m3 a i = 0" if "i < 512" for i
      using k(1) [OF that] rd_zero_page [OF s'(3,3) that] by simp
    ultimately show ?thesis using fp [OF \<open>same_page page page\<close>] by blast
  qed
  show "as_inv (free_frame m3 a) r" if r: "res \<noteq> 0"
  proof -
    have ma: "a \<in> managed_frames (pmm_st m3)"
      using pm.avail_managed [OF pt_wfD(1) [OF wf]] s'(2) man by blast
    have "tab m3 r p \<noteq> Some a" if "set p \<subseteq> {..<512}" for p using k(2) [of 0] that by (simp add: not_table_def)
    note wf3 = pt_wf_free [OF e(1) ma this]
    have av3: "avail_frames (pmm_st (free_frame m3 a)) = insert a (avail_frames (pmm_st m3))"
      using pm.free_gives [OF pt_wfD(1) [OF e(1)] ma] by (simp add: free_frame_def)
    have man3: "managed_frames (pmm_st (free_frame m3 a)) = managed_frames (pmm_st m)"
      using man by (simp add: free_frame_def pm.free_managed)
    have ow: "owned (free_frame m3 a) r v = owned m3 r v" "frame_of (free_frame m3 a) r v = frame_of m3 r v" for v
      by (simp_all add: owned_def frame_of_def)
    have ntf: "not_table (free_frame m3 a) r f = not_table m3 r f" for f by (simp add: not_table_def)
    show ?thesis
      unfolding as_inv_def ow ntf av3 man3
      using wf3 keep r av as_invD(5) [OF inv] by (auto simp only: not_False_eq_True simp_thms)
  qed
qed

definition vma_sane :: "task_vm \<Rightarrow> bool" where
  "vma_sane vm \<longleftrightarrow> (\<forall>i<length (vmas vm). pte_flags (vmas vm ! i) AND VMM_ADDR_MASK = 0 \<and> pte_flags (vmas vm ! i) AND VMM_SHARED = 0)"

lemma and_bit_mono: "(fl :: u64) AND b \<noteq> 0 \<Longrightarrow> (x OR (fl OR y)) AND b \<noteq> 0"
proof
  assume *: "fl AND b \<noteq> 0" "(x OR (fl OR y)) AND b = 0"
  then obtain n where "bit (fl AND b) n" by (metis bit_eqI bit_0_eq bot_apply bot_bool_def)
  then have "bit ((x OR (fl OR y)) AND b) n" by (simp add: bit_and_iff bit_or_iff)
  then show False using *(2) by simp
qed

lemma uvm_fault_in_effect:
  assumes inv: "as_inv m (user_pml4 vm)" and sane: "vma_sane vm" and page: "user_va (page_of addr)"
    and f: "uvm_fault_in m vm addr writable = (ok, m')"
  shows "as_inv m' (user_pml4 vm)"
    and "ok \<Longrightarrow> vmm_entry_in m' (user_pml4 vm) (page_of addr) AND VMM_USER \<noteq> 0
           \<and> (writable \<longrightarrow> vmm_entry_in m' (user_pml4 vm) (page_of addr) AND VMM_WRITE \<noteq> 0)"
    and "\<not> ok \<or> \<not> same_page v (page_of addr) \<or> vmm_entry_in m (user_pml4 vm) (page_of addr) \<noteq> 0 \<Longrightarrow>
           vmm_entry_in m' (user_pml4 vm) v = vmm_entry_in m (user_pml4 vm) v"
    and "ok \<Longrightarrow> vmm_entry_in m (user_pml4 vm) (page_of addr) = 0 \<Longrightarrow>
           frame_of m' (user_pml4 vm) (page_of addr) \<in> avail_frames (pmm_st m)
           \<and> (\<forall>i<512. rd m' (frame_of m' (user_pml4 vm) (page_of addr)) i = 0)
           \<and> (\<exists>fl. covers (vmas vm) (page_of addr) fl
                \<and> vmm_entry_in m' (user_pml4 vm) (page_of addr)
                    = (frame_of m' (user_pml4 vm) (page_of addr) AND VMM_ADDR_MASK) OR (fl OR VMM_PRESENT))"
proof -
  let ?r = "user_pml4 vm" and ?p = "page_of addr"
  let ?e = "vmm_entry_in m ?r ?p"
  have "as_inv m' ?r \<and> (ok \<longrightarrow> vmm_entry_in m' ?r ?p AND VMM_USER \<noteq> 0 \<and> (writable \<longrightarrow> vmm_entry_in m' ?r ?p AND VMM_WRITE \<noteq> 0))
    \<and> (\<forall>v. \<not> ok \<or> \<not> same_page v ?p \<or> ?e \<noteq> 0 \<longrightarrow> vmm_entry_in m' ?r v = vmm_entry_in m ?r v)
    \<and> (ok \<longrightarrow> ?e = 0 \<longrightarrow> frame_of m' ?r ?p \<in> avail_frames (pmm_st m) \<and> (\<forall>i<512. rd m' (frame_of m' ?r ?p) i = 0)
        \<and> (\<exists>fl. covers (vmas vm) ?p fl \<and> vmm_entry_in m' ?r ?p = (frame_of m' ?r ?p AND VMM_ADDR_MASK) OR (fl OR VMM_PRESENT)))"
  proof (cases "?r = 0 \<or> ?e \<noteq> 0")
    case True
    then show ?thesis using f inv by (auto simp: uvm_fault_in_def Let_def split: if_splits)
  next
    case False
    show ?thesis
    proof (cases "vma_at vm ?p")
      case None
      then show ?thesis using f inv False by (auto simp: uvm_fault_in_def Let_def)
    next
      case (Some i)
      let ?fl = "pte_flags (vmas vm ! i)"
      note i = vma_at_Some [OF Some]
      have fl: "?fl AND VMM_ADDR_MASK = 0" "?fl AND VMM_SHARED = 0" using sane i by (simp_all add: vma_sane_def)
      have cov: "covers (vmas vm) ?p ?fl" using i by (auto simp: covers_def)
      obtain a m1 where al: "alloc_frame m = (a, m1)" by fastforce
      obtain res m3 where mp: "vmm_map_in (zero_page m1 a) ?r ?p a ?fl = (res, m3)" by fastforce
      show ?thesis
      proof (cases "?fl AND VMM_USER = 0 \<or> (writable \<and> ?fl AND VMM_WRITE = 0)")
        case True
        then show ?thesis using f inv False Some by (auto simp: uvm_fault_in_def Let_def)
      next
        case perm: False
        show ?thesis
        proof (cases "a = 0")
          case True
          have "m1 = m" using as_invD(1) [OF inv] al True by (cases rule: alloc_frame_cases) auto
          then have "ok = False" "m' = m" using f False Some perm al True by (auto simp: uvm_fault_in_def Let_def)
          then show ?thesis using inv by simp
        next
          case a0: False
          have p0: "vmm_entry_in m ?r ?p = 0" using False by simp
          note mf = map_fresh [OF inv al a0 page p0 fl mp]
          show ?thesis
          proof (cases "res = 0")
            case True
            have r: "ok" "m' = m3" using f False Some perm al a0 mp True by (auto simp: uvm_fault_in_def Let_def)
            have e: "vmm_entry_in m3 ?r ?p = (a AND VMM_ADDR_MASK) OR (?fl OR VMM_PRESENT)"
              using mf(5) [of ?p] True by (simp add: same_page_def)
            have "vmm_entry_in m3 ?r ?p AND VMM_USER \<noteq> 0 \<and> (writable \<longrightarrow> vmm_entry_in m3 ?r ?p AND VMM_WRITE \<noteq> 0)"
              unfolding e using perm and_bit_mono [of ?fl VMM_USER] and_bit_mono [of ?fl VMM_WRITE] by blast
            then show ?thesis using mf(1) [OF True] mf(3) e cov r False mf(5) by (auto simp: same_page_def)
          next
            case res: False
            have r: "\<not> ok" "m' = free_frame m3 a" using f False Some perm al a0 mp res by (auto simp: uvm_fault_in_def Let_def)
            then show ?thesis using mf(2) [OF res] mf(5) res by simp
          qed
        qed
      qed
    qed
  qed
  then show "as_inv m' ?r"
    "ok \<Longrightarrow> vmm_entry_in m' ?r ?p AND VMM_USER \<noteq> 0 \<and> (writable \<longrightarrow> vmm_entry_in m' ?r ?p AND VMM_WRITE \<noteq> 0)"
    "\<not> ok \<or> \<not> same_page v ?p \<or> ?e \<noteq> 0 \<Longrightarrow> vmm_entry_in m' ?r v = vmm_entry_in m ?r v"
    "ok \<Longrightarrow> ?e = 0 \<Longrightarrow> frame_of m' ?r ?p \<in> avail_frames (pmm_st m) \<and> (\<forall>i<512. rd m' (frame_of m' ?r ?p) i = 0)
        \<and> (\<exists>fl. covers (vmas vm) ?p fl \<and> vmm_entry_in m' ?r ?p = (frame_of m' ?r ?p AND VMM_ADDR_MASK) OR (fl OR VMM_PRESENT))"
    by blast+
qed

text \<open>Releasing a page: the entry goes, and its frame goes back exactly when the page owned it.\<close>

lemma release_page_effect:
  assumes inv: "as_inv m r" and u: "user_va va"
  shows "as_inv (release_page r va m) r"
    and "vmm_entry_in (release_page r va m) r v = (if same_page v va then 0 else vmm_entry_in m r v)"
    and "avail_frames (pmm_st (release_page r va m))
       = avail_frames (pmm_st m) \<union> (if owned m r va then {frame_of m r va} else {})"
proof -
  let ?e = "vmm_entry_in m r va"
  obtain res m1 where un: "vmm_unmap_in m r va = (res, m1)" by fastforce
  note wf = as_invD(1) [OF inv]
  note w1 = vmm_unmap_in_effect [OF wf un]
  have en1: "vmm_entry_in m1 r v = (if same_page v va then 0 else vmm_entry_in m r v)" for v
    using vm.unmap_entry [OF wf, of va v] un by simp
  have tab1: "tab m1 r p = tab m r p" if "set p \<subseteq> {..<512}" for p
  proof (cases "tab m r [va_split va 2, va_split va 1, va_split va 0]")
    case None
    then show ?thesis using un by (simp add: vmm_unmap_in_def walk_only_tab)
  next
    case (Some pt)
    have "m1 = m\<lparr>pmem := (pmem m)(pt + 8 * of_nat (va_split va 3) := 0)\<rparr>"
      using un Some by (simp add: vmm_unmap_in_def walk_only_tab)
    moreover have "set [va_split va 2, va_split va 1, va_split va 0] \<subseteq> {..<512}" by (simp add: va_split_less)
    ultimately show ?thesis using leaf_write(3) [OF wf _ Some _ va_split_less _ that] by simp
  qed
  have nt1: "not_table m1 r f = not_table m r f" for f using tab1 by (simp add: not_table_def)
  have ow1: "owned m1 r v \<longleftrightarrow> owned m r v \<and> \<not> same_page v va" "\<not> same_page v va \<Longrightarrow> frame_of m1 r v = frame_of m r v" for v
    using en1 [of v] by (auto simp: owned_def frame_of_def)
  have "as_inv (release_page r va m) r
    \<and> (\<forall>v. vmm_entry_in (release_page r va m) r v = (if same_page v va then 0 else vmm_entry_in m r v))
    \<and> avail_frames (pmm_st (release_page r va m))
       = avail_frames (pmm_st m) \<union> (if owned m r va then {frame_of m r va} else {})"
  proof (cases "?e = 0")
    case True
    then show ?thesis using inv same_page_entry [of _ va m r] by (auto simp: release_page_def owned_def)
  next
    case False
    have as1: "as_inv m1 r"
      unfolding as_inv_def nt1 w1(2) ow1(1)
      using w1(1) ow1(2) as_invD(2-5) [OF inv] by auto
    show ?thesis
    proof (cases "?e AND VMM_SHARED = 0")
      case sh: False
      then have "release_page r va m = m1" using False un by (simp add: release_page_def Let_def)
      then show ?thesis using as1 en1 w1(2) sh by (simp add: owned_def)
    next
      case True
      let ?f = "frame_of m r va"
      have o: "owned m r va" using False True by (simp add: owned_def)
      have r: "release_page r va m = free_frame m1 ?f" using False True un by (simp add: release_page_def Let_def frame_of_def)
      have man: "?f \<in> managed_frames (pmm_st m1)" using as_invD(2) [OF inv u o] w1(2) by simp
      have "tab m1 r p \<noteq> Some ?f" if "set p \<subseteq> {..<512}" for p
        using as_invD(4) [OF inv u o] tab1 [OF that] that by (simp add: not_table_def)
      note wf2 = pt_wf_free [OF w1(1) man this]
      have av: "avail_frames (pmm_st (free_frame m1 ?f)) = insert ?f (avail_frames (pmm_st m))"
        using pm.free_gives [OF pt_wfD(1) [OF w1(1)] man] w1(2) by (simp add: free_frame_def)
      have mn: "managed_frames (pmm_st (free_frame m1 ?f)) = managed_frames (pmm_st m)"
        by (simp add: free_frame_def pm.free_managed w1(2))
      have ow: "owned (free_frame m1 ?f) r v \<longleftrightarrow> owned m r v \<and> \<not> same_page v va" for v
        using ow1(1) by (simp add: owned_def)
      have fr: "frame_of (free_frame m1 ?f) r v = frame_of m r v" if "\<not> same_page v va" for v
        using ow1(2) [OF that] by (simp add: frame_of_def)
      have nt: "not_table (free_frame m1 ?f) r f = not_table m r f" for f using nt1 by (simp add: not_table_def)
      have "as_inv (free_frame m1 ?f) r"
        unfolding as_inv_def ow nt mn av
        using wf2 fr as_invD(2-4) [OF inv] as_invD(5) [OF inv _ u _ o] as_invD(5) [OF inv] by auto
      then show ?thesis using r av en1 o by auto
    qed
  qed
  then show "as_inv (release_page r va m) r"
    "vmm_entry_in (release_page r va m) r v = (if same_page v va then 0 else vmm_entry_in m r v)"
    "avail_frames (pmm_st (release_page r va m))
       = avail_frames (pmm_st m) \<union> (if owned m r va then {frame_of m r va} else {})" by blast+
qed

lemma release_pages_effect:
  assumes "as_inv m r" and "\<And>v. v \<in> set vs \<Longrightarrow> user_va v"
  shows "as_inv (fold (release_page r) vs m) r"
    and "vmm_entry_in (fold (release_page r) vs m) r v = (if \<exists>w\<in>set vs. same_page v w then 0 else vmm_entry_in m r v)"
    and "avail_frames (pmm_st (fold (release_page r) vs m))
       = avail_frames (pmm_st m) \<union> {frame_of m r w | w. w \<in> set vs \<and> owned m r w}"
proof -
  have "as_inv (fold (release_page r) vs m) r
    \<and> (\<forall>v. vmm_entry_in (fold (release_page r) vs m) r v = (if \<exists>w\<in>set vs. same_page v w then 0 else vmm_entry_in m r v))
    \<and> avail_frames (pmm_st (fold (release_page r) vs m))
       = avail_frames (pmm_st m) \<union> {frame_of m r w | w. w \<in> set vs \<and> owned m r w}"
    using assms
  proof (induction vs arbitrary: m)
    case (Cons a vs)
    have u: "user_va a" using Cons.prems(2) by simp
    note e = release_page_effect [OF Cons.prems(1) u]
    let ?m = "release_page r a m"
    have ih: "as_inv (fold (release_page r) vs ?m) r
      \<and> (\<forall>v. vmm_entry_in (fold (release_page r) vs ?m) r v = (if \<exists>w\<in>set vs. same_page v w then 0 else vmm_entry_in ?m r v))
      \<and> avail_frames (pmm_st (fold (release_page r) vs ?m))
         = avail_frames (pmm_st ?m) \<union> {frame_of ?m r w | w. w \<in> set vs \<and> owned ?m r w}"
      using Cons.IH [OF e(1)] Cons.prems(2) by simp
    have ow: "owned ?m r w \<longleftrightarrow> owned m r w \<and> \<not> same_page w a" "\<not> same_page w a \<Longrightarrow> frame_of ?m r w = frame_of m r w" for w
      using e(2) [of w] by (auto simp: owned_def frame_of_def)
    have "avail_frames (pmm_st ?m) \<union> {frame_of ?m r w | w. w \<in> set vs \<and> owned ?m r w}
        = avail_frames (pmm_st m) \<union> {frame_of m r w | w. w \<in> set (a # vs) \<and> owned m r w}"
    proof (intro set_eqI iffI)
      fix x assume "x \<in> avail_frames (pmm_st ?m) \<union> {frame_of ?m r w | w. w \<in> set vs \<and> owned ?m r w}"
      then show "x \<in> avail_frames (pmm_st m) \<union> {frame_of m r w | w. w \<in> set (a # vs) \<and> owned m r w}"
        using ow e(3) by (auto split: if_splits)
    next
      fix x assume "x \<in> avail_frames (pmm_st m) \<union> {frame_of m r w | w. w \<in> set (a # vs) \<and> owned m r w}"
      then consider "x \<in> avail_frames (pmm_st m)" | w where "w \<in> set (a # vs)" "owned m r w" "x = frame_of m r w" by blast
      then show "x \<in> avail_frames (pmm_st ?m) \<union> {frame_of ?m r w | w. w \<in> set vs \<and> owned ?m r w}"
      proof cases
        case 1
        then show ?thesis using e(3) by simp
      next
        case (2 w)
        show ?thesis
        proof (cases "same_page w a")
          case True
          then show ?thesis using 2 e(3) owned_same_page [OF True, of m r] by auto
        next
          case False
          then have "w \<in> set vs" using 2(1) by (auto simp: same_page_def)
          then show ?thesis using 2 ow [of w] False by auto
        qed
      qed
    qed
    then show ?case using ih e(2) by auto
  qed simp
  then show "as_inv (fold (release_page r) vs m) r"
    "vmm_entry_in (fold (release_page r) vs m) r v = (if \<exists>w\<in>set vs. same_page v w then 0 else vmm_entry_in m r v)"
    "avail_frames (pmm_st (fold (release_page r) vs m))
       = avail_frames (pmm_st m) \<union> {frame_of m r w | w. w \<in> set vs \<and> owned m r w}" by blast+
qed

end
