(* ===== verification/Uvm_Props.thy ===== *)
theory Uvm_Props
  imports Uvm
begin

text \<open>
  What the user address space promises: releasing and discarding ranges, demand paging, buffer
  validation, changing permissions, and the reservations over the histories the arena is made for.
\<close>

section \<open>Ranges of pages and placements\<close>

section \<open>Ranges of pages\<close>

lemma same_page_low:
  assumes "v < 0x1000000000000" "w < 0x1000000000000"
  shows "same_page v w \<longleftrightarrow> unat v div 4096 = unat w div 4096"
proof -
  have m: "x AND 0xFFFFFFFFF000 = x AND NOT 4095" if "x < 0x1000000000000" for x :: u64
  proof -
    have "x AND 0xFFFFFFFFFFFF = take_bit 48 x" by (simp add: take_bit_eq_mask mask_eq_exp_minus_1)
    also have "\<dots> = x" using that
      by (simp add: word_unat_eq_iff unsigned_take_bit_eq take_bit_nat_eq_self_iff word_less_nat_alt del: take_bit_eq_mod)
    finally have "x AND 0xFFFFFFFFFFFF = x" .
    have "x AND 0xFFFFFFFFF000 = x AND (0xFFFFFFFFFFFF AND NOT 4095)" by simp
    also have "\<dots> = (x AND 0xFFFFFFFFFFFF) AND NOT 4095" by (simp only: and.assoc)
    also have "\<dots> = x AND NOT 4095" by (simp only: \<open>x AND 0xFFFFFFFFFFFF = x\<close>)
    finally show ?thesis .
  qed
  have "same_page v w \<longleftrightarrow> unat (v AND NOT 4095) = unat (w AND NOT 4095)"
    unfolding same_page_def m [OF assms(1)] m [OF assms(2)] by (simp add: word_unat_eq_iff)
  then show ?thesis unfolding and_not_4095 by simp
qed

lemma offset_range: "(\<exists>k<n. (q :: nat) = a + k) \<longleftrightarrow> a \<le> q \<and> q < a + n"
proof
  assume "a \<le> q \<and> q < a + n"
  then have "q - a < n \<and> q = a + (q - a)" by linarith
  then show "\<exists>k<n. q = a + k" by blast
qed auto

lemma uvm_range_okD:
  assumes "uvm_range_ok base bytes"
  shows "bytes \<noteq> 0" "USER_VA_MIN \<le> base" "unat (base + bytes) = unat base + unat bytes"
    "base < base + bytes" "base + bytes \<le> USER_VA_MAX"
proof -
  show *: "bytes \<noteq> 0" "USER_VA_MIN \<le> base" "base + bytes \<le> USER_VA_MAX"
    using assms by (auto simp: uvm_range_ok_def split: if_splits)
  have le: "base \<le> base + bytes" using assms by (auto simp: uvm_range_ok_def not_less split: if_splits)
  then show u: "unat (base + bytes) = unat base + unat bytes" using unat_plus_simple by blast
  have "0 < unat bytes" using *(1) by (simp add: unat_gt_0)
  then show "base < base + bytes" using u by (simp add: word_less_nat_alt)
qed

lemma range_pages:
  assumes "uvm_range_ok addr bytes" "addr AND 4095 = 0" "bytes AND 4095 = 0" "user_va v"
  shows "(\<exists>w\<in>set (map (\<lambda>off. addr + off) (page_offs bytes)). same_page v w) \<longleftrightarrow> addr \<le> v \<and> v < addr + bytes"
    and "w \<in> set (map (\<lambda>off. addr + off) (page_offs bytes)) \<Longrightarrow> addr \<le> w \<and> w < addr + bytes \<and> user_va w \<and> w AND 4095 = 0"
proof -
  note d = uvm_range_okD [OF assms(1)]
  obtain a n where a: "unat addr = 4096 * a" and n: "unat bytes = 4096 * n"
    using assms(2,3) by (auto simp: aligned_iff_dvd dvd_def)
  have top: "unat addr + unat bytes \<le> 0x7F0000000000" using d(3,5) by (simp add: word_le_nat_alt)
  have len: "(unat bytes + 4095) div 4096 = n" by (simp add: n)
  have pg: "unat (addr + of_nat k * 4096) = 4096 * (a + k)" if "k < n" for k
  proof -
    have "4096 * k < 2 ^ 64" "unat addr + 4096 * k < 2 ^ 64" using top that n by simp_all
    then show ?thesis by (simp add: unat_word_ariths unat_of_nat take_bit_eq_mod a)
  qed
  have low: "addr + of_nat k * 4096 < 0x1000000000000" if "k < n" for k
    using pg [OF that] top a n that by (simp add: word_less_nat_alt)
  have vlow: "v < 0x1000000000000" by (rule less_trans [OF assms(4)]) simp
  have "(\<exists>w\<in>set (map (\<lambda>off. addr + off) (page_offs bytes)). same_page v w) \<longleftrightarrow> (\<exists>k<n. unat v div 4096 = a + k)"
  proof -
    have "same_page v (addr + of_nat k * 4096) \<longleftrightarrow> unat v div 4096 = a + k" if "k < n" for k
      using same_page_low [OF vlow low [OF that]] pg [OF that] by simp
    then show ?thesis by (auto simp: page_offs_def len)
  qed
  also have "\<dots> \<longleftrightarrow> a \<le> unat v div 4096 \<and> unat v div 4096 < a + n"
    by (rule offset_range)
  also have "\<dots> \<longleftrightarrow> 4096 * a \<le> unat v \<and> unat v < 4096 * (a + n)"
    using div_less_iff_less_mult [of 4096 "unat v" "a + n"] less_eq_div_iff_mult_less_eq [of 4096 a "unat v"] by (simp add: mult.commute)
  also have "\<dots> \<longleftrightarrow> addr \<le> v \<and> v < addr + bytes"
    using d(3) a n by (simp add: word_le_nat_alt word_less_nat_alt)
  finally show "(\<exists>w\<in>set (map (\<lambda>off. addr + off) (page_offs bytes)). same_page v w) \<longleftrightarrow> addr \<le> v \<and> v < addr + bytes" .
  assume "w \<in> set (map (\<lambda>off. addr + off) (page_offs bytes))"
  then obtain k where k: "k < n" "w = addr + of_nat k * 4096" by (auto simp: page_offs_def len)
  have "4096 * (a + k) < 4096 * (a + n)" using k(1) by simp
  then show "addr \<le> w \<and> w < addr + bytes \<and> user_va w \<and> w AND 4095 = 0"
    using pg [OF k(1)] k(2) d(3) a n top by (simp add: word_le_nat_alt word_less_nat_alt aligned_iff_dvd)
qed

section \<open>The arena\<close>

text \<open>
  What keeps automatically placed reservations apart: freed ranges and the untouched part of
  the arena above the bump pointer hold no reservation, and freed ranges lie below the pointer.
\<close>

definition arena_inv :: "task_vm \<Rightarrow> bool" where
  "arena_inv vm \<longleftrightarrow> vma_wf (vmas vm) \<and> hole_wf (mmap_holes vm)
     \<and> USER_MMAP_BASE \<le> mmap_next_va vm \<and> mmap_next_va vm \<le> USER_MMAP_LIMIT
     \<and> (\<forall>a. hole_cov (mmap_holes vm) a \<longrightarrow> USER_MMAP_BASE \<le> a \<and> a < mmap_next_va vm \<and> (\<forall>fl. \<not> covers (vmas vm) a fl))
     \<and> (\<forall>a fl. mmap_next_va vm \<le> a \<and> a < USER_MMAP_LIMIT \<longrightarrow> \<not> covers (vmas vm) a fl)"

lemma range_freeI:
  assumes "vma_wf vs" "base < stop" "\<And>a fl. base \<le> a \<Longrightarrow> a < stop \<Longrightarrow> \<not> covers vs a fl"
  shows "range_free vs base stop"
  unfolding range_free_def
proof (intro allI impI)
  fix i assume i: "i < length vs" "used (vs ! i)"
  show "vend (vs ! i) \<le> base \<or> stop \<le> vstart (vs ! i)"
  proof (rule ccontr)
    assume c: "\<not> ?thesis"
    let ?a = "if base \<le> vstart (vs ! i) then vstart (vs ! i) else base"
    have "within (vs ! i) ?a" using c i vma_wfD(1) [OF assms(1) i] by (auto simp: within_def)
    moreover have "base \<le> ?a" "?a < stop" using c assms(2) by auto
    ultimately show False using assms(3) [of ?a] i(1) by (auto simp: covers_def)
  qed
qed

lemma free_slotD: "vma_free_slot vm = Some i \<Longrightarrow> i < length (vmas vm) \<and> \<not> used (vmas vm ! i)"
  unfolding vma_free_slot_def find_upt_Some_iff by simp

lemma uvm_reserve_fixed_effect:
  assumes wf: "vma_wf (vmas vm)" and r: "uvm_reserve m vm addr bytes fl True = (base, vm')"
  shows "base = 0 \<and> vm' = vm \<or>
    base = addr \<and> uvm_range_ok addr bytes \<and> vma_wf (vmas vm') \<and> mmap_holes vm' = mmap_holes vm
    \<and> mmap_next_va vm' = mmap_next_va vm
    \<and> (\<forall>a g. addr \<le> a \<and> a < addr + bytes \<longrightarrow> \<not> covers (vmas vm) a g)
    \<and> (\<forall>a g. covers (vmas vm') a g \<longleftrightarrow> covers (vmas vm) a g \<or> (addr \<le> a \<and> a < addr + bytes \<and> g = fl))"
proof (cases "vma_free_slot vm")
  case None
  then show ?thesis using r by (auto simp: uvm_reserve_def split: if_splits)
next
  case (Some slot)
  note sl = free_slotD [OF Some]
  show ?thesis
  proof (cases "uvm_range_ok addr bytes \<and> range_is_unmapped m vm addr bytes \<and> base \<noteq> 0")
    case False
    have "\<not> uvm_range_ok 0 bytes" by (simp add: uvm_range_ok_def)
    then show ?thesis using False r Some by (auto simp: uvm_reserve_def split: if_splits)
  next
    case True
    then have ok: "uvm_range_ok addr bytes" "range_is_unmapped m vm addr bytes" "base \<noteq> 0" by blast+
    have res: "base = addr" "vm' = vm\<lparr>vmas := vma_insert (vmas vm) slot addr bytes fl\<rparr>"
      using r Some ok by (auto simp: uvm_reserve_def split: if_splits)
    have rf: "range_free (vmas vm) addr (addr + bytes)"
      using ok(2) by (auto simp: range_is_unmapped_def Let_def range_free_def list_ex_length not_less split: if_splits)
    have nc: "\<not> covers (vmas vm) a g" if "addr \<le> a \<and> a < addr + bytes" for a g
      using rf that by (fastforce simp: covers_def range_free_def within_def)
    note i = vma_insert_effect [OF wf _ _ rf uvm_range_okD(4) [OF ok(1)], of slot fl] 
    show ?thesis using i sl res ok(1) nc by simp
  qed
qed

lemma uvm_reserve_arena_effect:
  assumes inv: "arena_inv vm" and r: "uvm_reserve m vm addr bytes fl False = (base, vm')"
  shows "base = 0 \<and> vm' = vm \<or>
    base \<noteq> 0 \<and> arena_inv vm' \<and> USER_MMAP_BASE \<le> base \<and> base < base + bytes \<and> base + bytes \<le> USER_MMAP_LIMIT
    \<and> (\<forall>a g. base \<le> a \<and> a < base + bytes \<longrightarrow> \<not> covers (vmas vm) a g)
    \<and> (\<forall>a g. covers (vmas vm') a g \<longleftrightarrow> covers (vmas vm) a g \<or> (base \<le> a \<and> a < base + bytes \<and> g = fl))"
proof (cases "user_pml4 vm = 0 \<or> bytes = 0 \<or> bytes AND 4095 \<noteq> 0 \<or> fl = 0 \<or> vma_free_slot vm = None")
  case True
  then have "(base, vm') = (0, vm)" using r by (auto simp: uvm_reserve_def split: if_splits)
  then show ?thesis by simp
next
  case False
  then obtain slot where Some: "vma_free_slot vm = Some slot" by auto
  note sl = free_slotD [OF Some]
  have nz: "bytes \<noteq> 0" using False by blast
  obtain b vm1 where al: "arena_alloc vm bytes = (b, vm1)" by fastforce
  have I: "vma_wf (vmas vm)" "hole_wf (mmap_holes vm)" "USER_MMAP_BASE \<le> mmap_next_va vm" "mmap_next_va vm \<le> USER_MMAP_LIMIT"
    "\<And>a. hole_cov (mmap_holes vm) a \<Longrightarrow> USER_MMAP_BASE \<le> a \<and> a < mmap_next_va vm \<and> (\<forall>fl. \<not> covers (vmas vm) a fl)"
    "\<And>a fl. mmap_next_va vm \<le> a \<Longrightarrow> a < USER_MMAP_LIMIT \<Longrightarrow> \<not> covers (vmas vm) a fl"
    using inv unfolding arena_inv_def by blast+
  note e = arena_alloc_effect [OF I(2) nz al]
  have res: "(base, vm') = (if b = 0 then (0, vm1) else (b, vm1\<lparr>vmas := vma_insert (vmas vm1) slot b bytes fl\<rparr>))"
    using r False Some al by (simp add: uvm_reserve_def split: if_splits)
  from e(3) consider (hole) i where "i < length (mmap_holes vm)" "hlen (mmap_holes vm ! i) \<noteq> 0" "b = hbase (mmap_holes vm ! i)"
      "b < b + bytes" "mmap_next_va vm1 = mmap_next_va vm" "hole_wf (mmap_holes vm1)"
      "\<forall>a. b \<le> a \<and> a < b + bytes \<longrightarrow> hole_cov (mmap_holes vm) a"
      "\<forall>a. hole_cov (mmap_holes vm1) a \<longleftrightarrow> hole_cov (mmap_holes vm) a \<and> \<not> (b \<le> a \<and> a < b + bytes)"
    | (bump) "b = mmap_next_va vm" "b < b + bytes" "b + bytes \<le> USER_MMAP_LIMIT" "vm1 = vm\<lparr>mmap_next_va := b + bytes\<rparr>"
    | (none) "b = 0" "vm1 = vm" by blast
  then show ?thesis
  proof cases
    case none
    then show ?thesis using res by simp
  next
    case hole
    have hb: "hole_cov (mmap_holes vm) b" using hole(4,7) by blast
    then have b: "USER_MMAP_BASE \<le> b" using I(5) by blast
    have nc: "\<not> covers (vmas vm) a g" if "b \<le> a \<and> a < b + bytes" for a g using hole(7) I(5) that by blast
    have top: "b + bytes \<le> mmap_next_va vm"
    proof -
      have s: "unat (b + bytes) = unat b + unat bytes" using less_imp_le [OF hole(4)] unat_plus_simple by blast
      have pos: "0 < unat bytes" using nz by (simp add: unat_gt_0)
      then have "b + bytes \<noteq> 0" using s by (metis add_is_0 less_numeral_extra(3) unat_0)
      then have u: "unat (b + bytes - 1) = unat b + unat bytes - 1" using unat_minus_one [of "b + bytes"] s by simp
      have "b \<le> b + bytes - 1" "b + bytes - 1 < b + bytes"
        unfolding word_le_nat_alt word_less_nat_alt u s using pos by linarith+
      then have "b + bytes - 1 < mmap_next_va vm" using hole(7) I(5) by blast
      then show ?thesis unfolding word_less_nat_alt word_le_nat_alt u s using pos by linarith
    qed
    have b0: "b \<noteq> 0" using b by auto
    have rf: "range_free (vmas vm) b (b + bytes)" using nc by (intro range_freeI [OF I(1) hole(4)]) blast
    note i = vma_insert_effect [OF I(1) _ _ rf hole(4), of slot fl]
    have vm': "base = b" "vm' = vm1\<lparr>vmas := vma_insert (vmas vm) slot b bytes fl\<rparr>" using res b0 e(1) by simp_all
    have "arena_inv vm'"
      unfolding arena_inv_def vm' using i sl hole(5,6,8) I top b by (auto 0 4)
    then show ?thesis using vm' b0 b hole(4) top I(4) nc i sl by auto
  next
    case bump
    have b: "USER_MMAP_BASE \<le> b" using bump(1) I(3) by simp
    have b0: "b \<noteq> 0" using b by auto
    have nc: "\<not> covers (vmas vm) a g" if "b \<le> a \<and> a < b + bytes" for a g
    proof -
      have "a < USER_MMAP_LIMIT" using that bump(3) by (meson less_le_trans)
      then show ?thesis using I(6) that bump(1) by blast
    qed
    have rf: "range_free (vmas vm) b (b + bytes)" using nc by (intro range_freeI [OF I(1) bump(2)]) blast
    note i = vma_insert_effect [OF I(1) _ _ rf bump(2), of slot fl]
    have vm': "base = b" "vm' = vm\<lparr>mmap_next_va := b + bytes, vmas := vma_insert (vmas vm) slot b bytes fl\<rparr>"
      using res b0 bump(4) by simp_all
    have h: "USER_MMAP_BASE \<le> a \<and> a < b \<and> a < b + bytes \<and> (\<forall>fl. \<not> covers (vmas vm) a fl)"
      if "hole_cov (mmap_holes vm) a" for a
    proof -
      have "a < b" using I(5) [OF that] bump(1) by simp
      moreover have "a < b + bytes" using \<open>a < b\<close> bump(2) by (rule less_trans)
      ultimately show ?thesis using I(5) [OF that] by blast
    qed
    have "\<not> covers (vmas vm) a g" if "b + bytes \<le> a" "a < USER_MMAP_LIMIT" for a g
      using I(6) [of a g] that bump(1,2) by simp
    moreover have "USER_MMAP_BASE \<le> b + bytes" using b bump(2) by simp
    ultimately have "arena_inv vm'"
      unfolding arena_inv_def vm' using i sl bump(3) I(2) h by (auto simp: not_le)
    then show ?thesis using vm' b0 b bump(2,3) nc i sl by auto
  qed
qed

section \<open>Releasing and discarding ranges\<close>

lemma release_range_effect:
  assumes inv: "as_inv m r" and ok: "uvm_range_ok addr bytes" "addr AND 4095 = 0" "bytes AND 4095 = 0"
    and m': "m' = fold (release_page r) (map (\<lambda>off. addr + off) (page_offs bytes)) m"
  shows "as_inv m' r"
    and "user_va v \<Longrightarrow> vmm_entry_in m' r v = (if addr \<le> v \<and> v < addr + bytes then 0 else vmm_entry_in m r v)"
    and "avail_frames (pmm_st m') = avail_frames (pmm_st m) \<union> {frame_of m r v | v. addr \<le> v \<and> v < addr + bytes \<and> owned m r v}"
proof -
  let ?vs = "map (\<lambda>off. addr + off) (page_offs bytes)"
  have u: "w \<in> set ?vs \<Longrightarrow> user_va w" for w using range_pages(2) [OF ok, of 0 w] by simp
  note e = release_pages_effect [OF inv, of ?vs, OF u]
  show "as_inv m' r" using e(1) m' by simp
  show "user_va v \<Longrightarrow> vmm_entry_in m' r v = (if addr \<le> v \<and> v < addr + bytes then 0 else vmm_entry_in m r v)"
    using e(2) [of v] m' range_pages(1) [OF ok, of v] by simp
  have "{frame_of m r w | w. w \<in> set ?vs \<and> owned m r w} = {frame_of m r v | v. addr \<le> v \<and> v < addr + bytes \<and> owned m r v}"
    (is "?A = ?B")
  proof (intro equalityI subsetI)
    fix f assume "f \<in> ?A"
    then obtain w where "f = frame_of m r w" "w \<in> set ?vs" "owned m r w" by blast
    then show "f \<in> ?B" using range_pages(2) [OF ok, of 0 w] by auto
  next
    fix f assume "f \<in> ?B"
    then obtain v where v: "f = frame_of m r v" "addr \<le> v" "v < addr + bytes" "owned m r v" by blast
    have "user_va v" using v(3) uvm_range_okD(5) [OF ok(1)] by (simp add: word_less_nat_alt word_le_nat_alt)
    then obtain w where "w \<in> set ?vs" "same_page v w" using range_pages(1) [OF ok, of v] v(2,3) by blast
    then show "f \<in> ?A" using v owned_same_page [of v w m r] by auto
  qed
  then show "avail_frames (pmm_st m') = avail_frames (pmm_st m) \<union> {frame_of m r v | v. addr \<le> v \<and> v < addr + bytes \<and> owned m r v}"
    using e(3) m' by simp
qed

lemma discard_release:
  assumes "as_inv m r" and "\<And>v. v \<in> set vs \<Longrightarrow> user_va v \<and> vmm_entry_in m r v AND VMM_SHARED = 0"
  shows "fold (discard_page r) vs m = fold (release_page r) vs m"
  using assms
proof (induction vs arbitrary: m)
  case (Cons v vs)
  have d: "discard_page r v m = release_page r v m"
    using Cons.prems(2) [of v] by (simp add: discard_page_def release_page_def Let_def)
  have "vmm_entry_in (release_page r v m) r w AND VMM_SHARED = 0" if "w \<in> set vs" for w
    using release_page_effect(2) [OF Cons.prems(1), of v w] Cons.prems(2) [of v] Cons.prems(2) [of w] that by simp
  then show ?case
    using Cons.IH [of "release_page r v m"] release_page_effect(1) [OF Cons.prems(1), of v] Cons.prems(2) d by simp
qed simp



section \<open>Demand paging\<close>

lemma page_of_aligned: "page_of v AND 4095 = 0"
  by (simp add: page_of_def and.assoc)

lemma page_of_id:
  assumes "v AND 4095 = 0" shows "page_of v = v"
proof -
  have "unat (page_of v) = unat v" using assms unfolding page_of_def and_not_4095 aligned_iff_dvd by simp
  then show ?thesis unfolding word_unat_eq_iff .
qed


lemma buffer_pages_effect:
  assumes "as_inv m (user_pml4 vm)" "vma_sane vm" "page AND 4095 = 0" "unat page + n * 4096 \<le> 2 ^ 47"
    and "buffer_pages m vm page n writable = (ok, m')"
  shows "as_inv m' (user_pml4 vm) \<and> (\<forall>v. vmm_entry_in m (user_pml4 vm) v \<noteq> 0 \<longrightarrow> vmm_entry_in m' (user_pml4 vm) v = vmm_entry_in m (user_pml4 vm) v)
    \<and> (ok \<longrightarrow> (\<forall>k<n. vmm_entry_in m' (user_pml4 vm) (page + of_nat k * 4096) AND VMM_USER \<noteq> 0
          \<and> (writable \<longrightarrow> vmm_entry_in m' (user_pml4 vm) (page + of_nat k * 4096) AND VMM_WRITE \<noteq> 0)))"
  using assms
proof (induction n arbitrary: m page)
  case (Suc n)
  obtain ok1 m1 where f: "uvm_fault_in m vm page writable = (ok1, m1)" by fastforce
  have pg: "page_of page = page" using Suc.prems(3) by (rule page_of_id)
  have u: "user_va (page_of page)" using Suc.prems(4) by (simp add: pg word_less_nat_alt)
  note e = uvm_fault_in_effect [OF Suc.prems(1,2) u f, unfolded pg]
  have keep: "vmm_entry_in m1 (user_pml4 vm) v = vmm_entry_in m (user_pml4 vm) v" if "vmm_entry_in m (user_pml4 vm) v \<noteq> 0" for v
  proof (rule e(3))
    show "\<not> ok1 \<or> \<not> same_page v page \<or> vmm_entry_in m (user_pml4 vm) page \<noteq> 0"
      using that same_page_entry [of v page m "user_pml4 vm"] by auto
  qed
  show ?case
  proof (cases ok1)
    case False
    then show ?thesis using Suc.prems(5) f e(1) keep by simp
  next
    case True
    have b: "buffer_pages m1 vm (page + 4096) n writable = (ok, m')" using Suc.prems(5) f True by simp
    show ?thesis
    proof (cases n)
      case 0
      then show ?thesis using b e(1) e(2) [OF True] keep by simp
    next
      case (Suc n')
      have up: "unat (page + 4096) = unat page + 4096"
        using Suc.prems(4) \<open>n = Suc n'\<close> by (simp add: unat_word_ariths)
      have "(page + 4096) AND 4095 = 0" using Suc.prems(3) by (simp add: aligned_iff_dvd up)
      then have i: "as_inv m' (user_pml4 vm)"
        "vmm_entry_in m1 (user_pml4 vm) v \<noteq> 0 \<Longrightarrow> vmm_entry_in m' (user_pml4 vm) v = vmm_entry_in m1 (user_pml4 vm) v"
        "ok \<Longrightarrow> k < n \<Longrightarrow> vmm_entry_in m' (user_pml4 vm) (page + 4096 + of_nat k * 4096) AND VMM_USER \<noteq> 0
          \<and> (writable \<longrightarrow> vmm_entry_in m' (user_pml4 vm) (page + 4096 + of_nat k * 4096) AND VMM_WRITE \<noteq> 0)" for v k
        using Suc.IH [OF e(1) Suc.prems(2) _ _ b] Suc.prems(4) up by auto
      have first: "vmm_entry_in m' (user_pml4 vm) page = vmm_entry_in m1 (user_pml4 vm) page"
        using i(2) [of page] e(2) [OF True] by fastforce
      have "vmm_entry_in m' (user_pml4 vm) (page + of_nat k * 4096) AND VMM_USER \<noteq> 0
          \<and> (writable \<longrightarrow> vmm_entry_in m' (user_pml4 vm) (page + of_nat k * 4096) AND VMM_WRITE \<noteq> 0)"
        if "ok" "k < Suc n" for k
      proof (cases k)
        case 0
        then show ?thesis using first e(2) [OF True] by simp
      next
        case (Suc k')
        then show ?thesis using i(3) [of k'] that by (simp add: algebra_simps)
      qed
      then show ?thesis using i(1,2) keep by auto
    qed
  qed
qed simp

lemma page_of_unat: "unat (page_of v) = unat v div 4096 * 4096"
  by (simp only: page_of_def and_not_4095)


section \<open>Changing permissions\<close>

lemma commit_pages_effect:
  assumes "as_inv m (user_pml4 vm)" "vma_sane vm" "\<And>v. v \<in> set vs \<Longrightarrow> user_va v \<and> v AND 4095 = 0"
    and "commit_pages m vm vs = (ok, m')"
  shows "as_inv m' (user_pml4 vm)
    \<and> (\<forall>v. vmm_entry_in m (user_pml4 vm) v \<noteq> 0 \<or> \<not> (\<exists>w\<in>set vs. same_page v w) \<longrightarrow>
          vmm_entry_in m' (user_pml4 vm) v = vmm_entry_in m (user_pml4 vm) v)
    \<and> (ok \<longrightarrow> (\<forall>v\<in>set vs. vmm_entry_in m' (user_pml4 vm) v \<noteq> 0))"
  using assms
proof (induction vs arbitrary: m)
  case (Cons w vs)
  obtain ok1 m1 where f: "uvm_fault_in m vm w False = (ok1, m1)" by fastforce
  have pg: "page_of w = w" "user_va (page_of w)" using Cons.prems(3) [of w] by (simp_all add: page_of_id)
  note e = uvm_fault_in_effect [OF Cons.prems(1,2) pg(2) f, unfolded pg(1)]
  have keep: "vmm_entry_in m1 (user_pml4 vm) v = vmm_entry_in m (user_pml4 vm) v"
    if "vmm_entry_in m (user_pml4 vm) v \<noteq> 0 \<or> \<not> same_page v w" for v
  proof (rule e(3))
    show "\<not> ok1 \<or> \<not> same_page v w \<or> vmm_entry_in m (user_pml4 vm) w \<noteq> 0"
      using that same_page_entry [of v w m "user_pml4 vm"] by auto
  qed
  show ?case
  proof (cases ok1)
    case False
    then show ?thesis using Cons.prems(4) f e(1) keep by auto
  next
    case True
    then have c: "commit_pages m1 vm vs = (ok, m')" using Cons.prems(4) f by simp
    have i: "as_inv m' (user_pml4 vm)"
      "vmm_entry_in m1 (user_pml4 vm) v \<noteq> 0 \<or> \<not> (\<exists>w\<in>set vs. same_page v w) \<Longrightarrow>
        vmm_entry_in m' (user_pml4 vm) v = vmm_entry_in m1 (user_pml4 vm) v"
      "ok \<Longrightarrow> v \<in> set vs \<Longrightarrow> vmm_entry_in m' (user_pml4 vm) v \<noteq> 0" for v
      using Cons.IH [OF e(1) Cons.prems(2) _ c] Cons.prems(3) by auto
    have "vmm_entry_in m1 (user_pml4 vm) w \<noteq> 0" using e(2) [OF True] by auto
    then have "vmm_entry_in m' (user_pml4 vm) w \<noteq> 0" using i(2) [of w] by simp
    moreover have "vmm_entry_in m' (user_pml4 vm) v = vmm_entry_in m (user_pml4 vm) v"
      if "vmm_entry_in m (user_pml4 vm) v \<noteq> 0 \<or> \<not> (\<exists>u\<in>set (w # vs). same_page v u)" for v
      using that keep [of v] i(2) [of v] by auto
    ultimately show ?thesis using i(1,3) by auto
  qed
qed simp

text \<open>What \<open>vmm_protect_in\<close> writes into the entry \<open>e\<close>.\<close>

definition reprotected :: "u64 \<Rightarrow> u64 \<Rightarrow> u64" where
  "reprotected fl e = ((e AND VMM_ADDR_MASK) OR (e AND VMM_SHARED)) OR (fl OR VMM_PRESENT)"

lemma mask_split:
  assumes "fl AND VMM_ADDR_MASK = 0" "fl AND VMM_SHARED = 0"
  shows "reprotected fl e AND VMM_ADDR_MASK = e AND VMM_ADDR_MASK"
    "reprotected fl e AND VMM_SHARED = e AND VMM_SHARED"
    "reprotected fl (reprotected fl e) = reprotected fl e"
proof -
  have c: "VMM_ADDR_MASK AND VMM_SHARED = 0" "VMM_PRESENT AND VMM_ADDR_MASK = (0 :: u64)" "VMM_PRESENT AND VMM_SHARED = (0 :: u64)" by simp_all
  have i: "(x AND VMM_ADDR_MASK) AND VMM_ADDR_MASK = x AND VMM_ADDR_MASK" "(x AND VMM_SHARED) AND VMM_SHARED = x AND VMM_SHARED"
    "(x AND VMM_SHARED) AND VMM_ADDR_MASK = 0" "(x AND VMM_ADDR_MASK) AND VMM_SHARED = 0" for x :: u64
    by (simp_all add: and.assoc)
  show a: "reprotected fl e AND VMM_ADDR_MASK = e AND VMM_ADDR_MASK" for e
    unfolding reprotected_def bit.conj_disj_distrib2 i assms(1) c(2) by simp
  show b: "reprotected fl e AND VMM_SHARED = e AND VMM_SHARED" for e
    unfolding reprotected_def bit.conj_disj_distrib2 i assms(2) c(3) by simp
  show "reprotected fl (reprotected fl e) = reprotected fl e"
    unfolding reprotected_def [of fl "reprotected fl e"] a b by (rule reprotected_def [symmetric])
qed

lemma protect_page_effect:
  assumes inv: "as_inv m r" and p: "vmm_protect_in m r w fl = (res, m')"
    and fl: "fl AND VMM_ADDR_MASK = 0" "fl AND VMM_SHARED = 0"
  shows "as_inv m' r" and "res = (if vmm_entry_in m r w \<noteq> 0 then 0 else -1)"
    and "vmm_entry_in m' r v = (if same_page v w \<and> vmm_entry_in m r w \<noteq> 0 then reprotected fl (vmm_entry_in m r v)
           else vmm_entry_in m r v)"
proof -
  note wf = as_invD(1) [OF inv]
  note e = vmm_protect_in_effect [OF wf p]
  show res: "res = (if vmm_entry_in m r w \<noteq> 0 then 0 else -1)" unfolding e(4) entry_nonzero ..
  have en: "vmm_entry_in m' r v = (if same_page v w \<and> vmm_entry_in m r w \<noteq> 0 then reprotected fl (vmm_entry_in m r v)
           else vmm_entry_in m r v)" for v
  proof (cases "same_page v w \<and> vmm_entry_in m r w \<noteq> 0")
    case True
    then have "path v = path w" "fst (look m r w) = 3" by (simp_all add: same_page_path entry_nonzero)
    moreover have "look m r v = look m r w" using \<open>path v = path w\<close> by (simp add: look_def)
    ultimately have "look m' r v = (3, reprotected fl (snd (look m r v)))"
      unfolding reprotected_def by (simp only: e(5) [of v] if_True simp_thms)
    then show ?thesis using True \<open>look m r v = look m r w\<close> \<open>fst (look m r w) = 3\<close>
      by (cases "look m r w") (simp add: vmm_entry_in_look)
  next
    case False
    then have "\<not> (path v = path w \<and> fst (look m r w) = 3)" by (simp add: same_page_path entry_nonzero)
    then have "look m' r v = look m r v" using e(5) [of v] by (simp only: if_False)
    then have "vmm_entry_in m' r v = vmm_entry_in m r v" by (simp add: vmm_entry_in_look)
    then show ?thesis using False by auto
  qed
  then show "vmm_entry_in m' r v = (if same_page v w \<and> vmm_entry_in m r w \<noteq> 0 then reprotected fl (vmm_entry_in m r v)
           else vmm_entry_in m r v)" .
  have tab1: "tab m' r p = tab m r p" if sp: "set p \<subseteq> {..<512}" for p
  proof (cases "tab m r [va_split w 2, va_split w 1, va_split w 0]")
    case None
    then show ?thesis using p by (simp add: vmm_protect_in_def walk_only_tab)
  next
    case (Some pt)
    then have "m' = m \<or> (\<exists>x. m' = m\<lparr>pmem := (pmem m)(pt + 8 * of_nat (va_split w 3) := x)\<rparr>)"
      using p by (auto simp: vmm_protect_in_def walk_only_tab Let_def split: if_splits)
    moreover have "set [va_split w 2, va_split w 1, va_split w 0] \<subseteq> {..<512}" by (simp add: va_split_less)
    ultimately show ?thesis using leaf_write(3) [OF wf _ Some _ va_split_less _ sp] by auto
  qed
  have nt: "not_table m' r f = not_table m r f" for f using tab1 by (simp add: not_table_def)
  have "reprotected fl x \<noteq> 0" if "x \<noteq> 0" for x
    unfolding reprotected_def by (metis or_eq_0_iff one_neq_zero)
  then have nz: "vmm_entry_in m' r v \<noteq> 0 \<longleftrightarrow> vmm_entry_in m r v \<noteq> 0" for v
    using same_page_entry [of v w m r] by (auto simp: en)
  have sh: "vmm_entry_in m' r v AND VMM_SHARED = vmm_entry_in m r v AND VMM_SHARED"
    "vmm_entry_in m' r v AND VMM_ADDR_MASK = vmm_entry_in m r v AND VMM_ADDR_MASK" for v
    using mask_split(1,2) [OF fl] by (simp_all only: en split: if_split) blast+
  have ow: "owned m' r v = owned m r v" "frame_of m' r v = frame_of m r v" for v
    using nz sh by (simp_all only: owned_def frame_of_def)
  show "as_inv m' r" unfolding as_inv_def ow nt e(2) using e(1) as_invD(2-5) [OF inv] by auto
qed

lemma protect_pages_effect:
  assumes "as_inv m r" "fl AND VMM_ADDR_MASK = 0" "fl AND VMM_SHARED = 0"
    and "\<And>v. v \<in> set vs \<Longrightarrow> vmm_entry_in m r v \<noteq> 0" and "protect_pages m r vs fl = (res, m')"
  shows "as_inv m' r \<and> res = 0 \<and> (\<forall>v. vmm_entry_in m' r v =
     (if \<exists>w\<in>set vs. same_page v w then reprotected fl (vmm_entry_in m r v) else vmm_entry_in m r v))"
  using assms
proof (induction vs arbitrary: m)
  case (Cons w vs)
  obtain r1 m1 where p: "vmm_protect_in m r w fl = (r1, m1)" by fastforce
  note e = protect_page_effect [OF Cons.prems(1) p Cons.prems(2,3)]
  have w: "vmm_entry_in m r w \<noteq> 0" using Cons.prems(4) by simp
  have en: "vmm_entry_in m1 r v = (if same_page v w then reprotected fl (vmm_entry_in m r v) else vmm_entry_in m r v)" for v
    using e(3) [of v] w by simp
  have "vmm_entry_in m1 r v \<noteq> 0" if "v \<in> set vs" for v
    using en [of v] Cons.prems(4) [of v] that by (auto simp: reprotected_def or_eq_0_iff)
  moreover have "protect_pages m1 r vs fl = (res, m')" using Cons.prems(5) p e(2) w by simp
  ultimately have i: "as_inv m' r" "res = 0" "vmm_entry_in m' r v =
     (if \<exists>w\<in>set vs. same_page v w then reprotected fl (vmm_entry_in m1 r v) else vmm_entry_in m1 r v)" for v
    using Cons.IH [OF e(1) Cons.prems(2,3)] by blast+
  show ?case using i(1,2) mask_split(3) [OF Cons.prems(2,3)] by (simp add: i(3) en)
qed simp


section \<open>The reservations over time\<close>

text \<open>
  The histories the arena is made for: automatic placements, fixed reservations outside the arena,
  and releases of ranges that either lie outside the arena or were handed out before.
\<close>

inductive uvm_reach :: "task_vm \<Rightarrow> bool" where
  init: "uvm_reach (uvm_init vm)"
| place: "uvm_reach vm \<Longrightarrow> uvm_reserve m vm addr bytes fl False = (base, vm') \<Longrightarrow> uvm_reach vm'"
| fixed: "uvm_reach vm \<Longrightarrow> uvm_reserve m vm addr bytes fl True = (base, vm') \<Longrightarrow>
    addr + bytes \<le> USER_MMAP_BASE \<or> USER_MMAP_LIMIT \<le> addr \<Longrightarrow> uvm_reach vm'"
| release: "uvm_reach vm \<Longrightarrow> uvm_release m vm addr bytes = (res, m', vm') \<Longrightarrow>
    addr + bytes \<le> mmap_next_va vm \<or> \<not> (USER_MMAP_BASE \<le> addr \<and> addr + bytes \<le> USER_MMAP_LIMIT) \<Longrightarrow> uvm_reach vm'"

lemma uvm_init_arena: "arena_inv (uvm_init vm)"
  by (auto simp: arena_inv_def uvm_init_def vma_wf_def hole_wf_def hole_cov_def covers_def within_def no_vma_def no_hole_def)

lemma arena_invD:
  assumes "arena_inv vm"
  shows "vma_wf (vmas vm)" "hole_wf (mmap_holes vm)" "USER_MMAP_BASE \<le> mmap_next_va vm" "mmap_next_va vm \<le> USER_MMAP_LIMIT"
    and "hole_cov (mmap_holes vm) a \<Longrightarrow> USER_MMAP_BASE \<le> a \<and> a < mmap_next_va vm \<and> (\<forall>fl. \<not> covers (vmas vm) a fl)"
    and "mmap_next_va vm \<le> a \<Longrightarrow> a < USER_MMAP_LIMIT \<Longrightarrow> \<not> covers (vmas vm) a fl"
  using assms by (simp_all add: arena_inv_def)

lemma fixed_arena:
  assumes inv: "arena_inv vm" and r: "uvm_reserve m vm addr bytes fl True = (base, vm')"
    and out: "addr + bytes \<le> USER_MMAP_BASE \<or> USER_MMAP_LIMIT \<le> addr"
  shows "arena_inv vm'"
proof -
  note I = arena_invD [OF inv]
  from uvm_reserve_fixed_effect [OF I(1) r] show ?thesis
  proof (elim disjE conjE)
    assume e: "vma_wf (vmas vm')" "mmap_holes vm' = mmap_holes vm" "mmap_next_va vm' = mmap_next_va vm"
      "\<forall>a g. covers (vmas vm') a g \<longleftrightarrow> covers (vmas vm) a g \<or> (addr \<le> a \<and> a < addr + bytes \<and> g = fl)"
    have far: "\<not> (addr \<le> a \<and> a < addr + bytes)" if "USER_MMAP_BASE \<le> a" "a < USER_MMAP_LIMIT" for a
      using out that by (auto dest: order.strict_trans2 order.strict_trans1)
    have "a < USER_MMAP_LIMIT" if "a < mmap_next_va vm" for a using that I(4) by (rule order.strict_trans2)
    then show ?thesis
      unfolding arena_inv_def e(2,3) using e(1,4) I far
      by (auto dest: order_trans)
  qed (use inv in simp)
qed

lemma release_arena:
  assumes inv: "arena_inv vm" and r: "uvm_release m vm addr bytes = (res, m', vm')"
    and below: "addr + bytes \<le> mmap_next_va vm \<or> \<not> (USER_MMAP_BASE \<le> addr \<and> addr + bytes \<le> USER_MMAP_LIMIT)"
  shows "arena_inv vm'"
proof (cases "user_pml4 vm = 0 \<or> addr AND 4095 \<noteq> 0 \<or> bytes AND 4095 \<noteq> 0 \<or> \<not> uvm_range_ok addr bytes")
  case True
  then have "uvm_release m vm addr bytes = (-1, m, vm)"
    unfolding uvm_release_def by (simp only: split: if_split) blast
  then show ?thesis using r inv by simp
next
  case False
  note I = arena_invD [OF inv]
  have ok: "uvm_range_ok addr bytes" using False by blast
  obtain r1 vm1 where rm: "vma_remove_range vm addr (addr + bytes) = (r1, vm1)" by fastforce
  note lt = uvm_range_okD(4) [OF ok]
  note e = vma_remove_range_effect [OF I(1) lt rm]
  show ?thesis
  proof (cases "r1 = 0")
    case r1: False
    then have "vm' = vm1" using r False rm by (auto simp: uvm_release_def split: if_splits)
    then show ?thesis using e(1) inv r1 by simp
  next
    case True
    obtain vs where vs: "vm1 = vm\<lparr>vmas := vs\<rparr>" using e(2) by blast
    have cov: "covers (vmas vm1) a g \<longleftrightarrow> covers (vmas vm) a g \<and> \<not> (addr \<le> a \<and> a < addr + bytes)" for a g
      using e(1) True by simp
    have inv1: "arena_inv vm1"
      unfolding arena_inv_def cov using e(1) I by (simp add: vs)
    have vm': "vm' = (if USER_MMAP_BASE \<le> addr \<and> addr + bytes \<le> USER_MMAP_LIMIT then hole_add vm1 addr bytes else vm1)"
      using r False rm True by (auto simp: uvm_release_def split: if_splits)
    show ?thesis
    proof (cases "USER_MMAP_BASE \<le> addr \<and> addr + bytes \<le> USER_MMAP_LIMIT")
      case True
      note J = arena_invD [OF inv1]
      note h = hole_add_effect [OF J(2) lt]
      have nx: "mmap_next_va vm1 = mmap_next_va vm" by (simp add: vs)
      have top: "a < mmap_next_va vm" if "a < addr + bytes" for a
        using that below True by (auto dest: order.strict_trans2)
      have "arena_inv (hole_add vm1 addr bytes)"
        using h(2)
      proof
        assume c: "\<forall>a. hole_cov (mmap_holes (hole_add vm1 addr bytes)) a \<longleftrightarrow> hole_cov (mmap_holes vm1) a \<or> (addr \<le> a \<and> a < addr + bytes)"
        have "USER_MMAP_BASE \<le> a" if "addr \<le> a" for a using True that by (auto intro: order_trans)
        then show ?thesis
          unfolding arena_inv_def h(3,4) using c h(1) J top nx cov by auto
      qed (use inv1 in auto)
      then show ?thesis using vm' True by simp
    qed (use vm' inv1 in auto)
  qed
qed


section \<open>Concrete address spaces\<close>

text \<open>The machine of the page-table examples without its one leaf, and a task with two pages reserved at 0x6000.\<close>

definition vm_u :: mach where
  "vm_u = vm_w\<lparr>pmem := (pmem vm_w)(0x4028 := 0)\<rparr>"

definition as_u :: task_vm where
  "as_u = uvm_init \<lparr>user_pml4 = 0x1000, shmem_next_va = 0, mmap_next_va = 0, mmap_holes = [], vmas = [], shmem_shared_out = False\<rparr>
            \<lparr>vmas := \<lparr>vstart = 0x6000, vend = 0x8000, pte_flags = 7, used = True\<rparr> # replicate 63 no_vma\<rparr>"

lemma vm_u_rd:
  assumes "t AND 4095 = 0" "i < 512"
  shows "rd vm_u t i = (if t = 0x4000 \<and> i = 5 then 0 else rd vm_w t i)"
  using cell_inj [OF assms(1) _ assms(2), of "0x4000" 5] by (simp add: rd_def vm_u_def)

lemma vm_u_tab:
  assumes "set p \<subseteq> {..<512}"
  shows "tab vm_u 0x1000 p = tab vm_w 0x1000 p"
  unfolding vm_w_tab [OF assms] using assms
proof (induction p)
  case (Cons i p)
  then show ?case by (auto simp: vm_u_rd vm_w_rd view_def)
qed simp

lemma vm_u_empty: "vmm_entry_in vm_u 0x1000 v = 0"
proof (cases "tab vm_u 0x1000 [va_split v 2, va_split v 1, va_split v 0]")
  case None
  then show ?thesis by (simp add: vmm_entry_in_def walk_only_tab)
next
  case (Some t)
  have sp: "set [va_split v 2, va_split v 1, va_split v 0] \<subseteq> {..<512}" by (simp add: va_split_less)
  have "t = 0x4000 \<or> t = 0x8000" using Some unfolding vm_u_tab [OF sp] vm_w_tab [OF sp]
    by (auto split: if_splits)
  then have "rd vm_u t (va_split v 3) = 0" by (auto simp: vm_u_rd vm_w_rd va_split_less)
  then show ?thesis using Some by (simp add: vmm_entry_in_def walk_only_tab rd_def)
qed

lemma vm_u_inv: "as_inv vm_u 0x1000"
proof -
  have "pmm_st vm_u = pmm_st vm_w" by (simp add: vm_u_def)
  then have "pt_wf vm_u 0x1000" using vm_w_wf unfolding pt_wf_def by (simp add: vm_u_tab)
  then show ?thesis by (simp add: as_inv_def owned_def vm_u_empty)
qed

lemma as_u_facts:
  "user_pml4 as_u = 0x1000" "vma_sane as_u" "vma_wf (vmas as_u)" "vma_at as_u 0x6000 = Some 0" "vma_at as_u 0x7000 = Some 0"
  "pte_flags (vmas as_u ! 0) = 7"
proof -
  have n: "replicate 63 no_vma ! k = no_vma" if "k < 63" for k using that by simp
  show "user_pml4 as_u = 0x1000" "vma_at as_u 0x6000 = Some 0" "vma_at as_u 0x7000 = Some 0" "pte_flags (vmas as_u ! 0) = 7"
    by (simp_all add: as_u_def uvm_init_def vma_at_def upt_conv_Cons)
  show "vma_sane as_u"
    by (auto simp: as_u_def uvm_init_def vma_sane_def nth_Cons no_vma_def split: nat.splits)
  show "vma_wf (vmas as_u)"
    by (auto simp: as_u_def uvm_init_def vma_wf_def nth_Cons no_vma_def split: nat.splits)
qed

lemma alloc_u: "fst (pmm_alloc_frame pmm_w) = 0x100000"
proof -
  have "fst (pmm_alloc_frame pmm_w) = frame_addr 256"
    by (simp add: pmm_alloc_frame_next_fit pmm_w_next_fit allocate_frame_at_def Let_def)
  then show ?thesis by (simp add: frame_addr_def)
qed

abbreviation m_f :: mach where
  "m_f \<equiv> snd (uvm_fault_in vm_u as_u 0x6123 True)"

lemma fault_u: "fst (uvm_fault_in vm_u as_u 0x6123 True)"
proof -
  obtain s where s: "pmm_alloc_frame pmm_w = (0x100000, s)" using alloc_u by (cases "pmm_alloc_frame pmm_w") auto
  have "alloc_frame vm_u = (0x100000, vm_u\<lparr>pmm_st := s\<rparr>)" using s by (simp add: alloc_frame_def vm_u_def vm_w_def)
  moreover have "fst (vmm_map_in (zero_page (vm_u\<lparr>pmm_st := s\<rparr>) 0x100000) 0x1000 0x6000 0x100000 7) = 0"
    by (simp add: vmm_map_in_def walk_or_create_def descend_def va_split_def rd_def vm_u_def vm_w_def zero_page_def)
  moreover have "page_of 0x6123 = 0x6000" by (simp add: page_of_def)
  ultimately show ?thesis
    by (auto simp: uvm_fault_in_def as_u_facts vm_u_empty split: prod.splits)
qed

lemma fault_u_eq: "uvm_fault_in vm_u as_u 0x6123 True = (True, m_f)"
  using fault_u by (auto intro: prod_eqI)

lemma page_u: "page_of 0x6123 = 0x6000" "\<not> same_page 0x7000 0x6000" "same_page 0x6000 0x6000"
  by (simp_all add: page_of_def same_page_def)


lemma m_f_state: "as_inv m_f 0x1000" "vmm_entry_in m_f 0x1000 0x6000 \<noteq> 0" "owned m_f 0x1000 0x6000"
proof -
  have e: "as_inv m_f 0x1000" "frame_of m_f 0x1000 0x6000 \<in> avail_frames (pmm_st vm_u)"
    and fl: "\<exists>fl. covers (vmas as_u) 0x6000 fl \<and> vmm_entry_in m_f 0x1000 0x6000 = (frame_of m_f 0x1000 0x6000 AND VMM_ADDR_MASK) OR (fl OR VMM_PRESENT)"
    using uvm_fault_in_effect [OF _ as_u_facts(2) _ fault_u_eq] vm_u_inv as_u_facts(1) vm_u_empty page_u by simp_all
  show "as_inv m_f 0x1000" by (rule e(1))
  from fl obtain fl where fl: "covers (vmas as_u) 0x6000 fl"
    "vmm_entry_in m_f 0x1000 0x6000 = (frame_of m_f 0x1000 0x6000 AND VMM_ADDR_MASK) OR (fl OR VMM_PRESENT)" by blast
  show nz: "vmm_entry_in m_f 0x1000 0x6000 \<noteq> 0" unfolding fl(2) by (simp add: or_eq_0_iff)
  have "fl = 7" using covers_vma_at [OF as_u_facts(3) fl(1)] as_u_facts(4,6) by auto
  moreover have "(x AND VMM_ADDR_MASK) AND VMM_SHARED = 0" for x :: u64 by (simp add: and.assoc)
  ultimately show "owned m_f 0x1000 0x6000"
    unfolding owned_def using nz by (simp add: fl(2) bit.conj_disj_distrib2)
qed

lemma range_u: "uvm_range_ok 0x6000 0x2000" by (simp add: uvm_range_ok_def)

lemma remove_u: "fst (vma_remove_range as_u 0x6000 0x8000) = 0"
  by (auto simp: vma_remove_range_def as_u_def uvm_init_def no_vma_def Let_def list_ex_iff)


lemma page_offs_u: "page_offs 0x2000 = [0, 0x1000]"
  by (simp add: page_offs_def upt_conv_Cons)


lemma fault_again: "uvm_fault_in m_f as_u 0x6000 True = (True, m_f)"
proof -
  have "page_of 0x6000 = 0x6000" by (simp add: page_of_def)
  then show ?thesis
    using uvm_fault_in_effect(2) [OF _ as_u_facts(2) _ fault_u_eq] vm_u_inv as_u_facts(1) page_u m_f_state(2)
    by (auto simp: uvm_fault_in_def Let_def)
qed



definition vm_0 :: task_vm where
  "vm_0 = uvm_init \<lparr>user_pml4 = 0x1000, shmem_next_va = 0, mmap_next_va = 0, mmap_holes = [], vmas = [], shmem_shared_out = False\<rparr>"

lemma vm_0_facts: "uvm_reach vm_0" "arena_inv vm_0" "vmas vm_0 = replicate 64 no_vma" "user_pml4 vm_0 = 0x1000"
    "mmap_next_va vm_0 = USER_MMAP_BASE" "mmap_holes vm_0 = replicate TASK_MMAP_HOLES no_hole"
  unfolding vm_0_def by (rule uvm_reach.init, rule uvm_init_arena) (simp_all add: uvm_init_def)

lemma alloc_bump:
  assumes "mmap_holes vm = replicate TASK_MMAP_HOLES no_hole" "mmap_next_va vm = USER_MMAP_BASE" "bytes \<le> 0x2000"
  shows "arena_alloc vm bytes = (USER_MMAP_BASE, vm\<lparr>mmap_next_va := USER_MMAP_BASE + bytes\<rparr>)"
proof -
  have "find (\<lambda>i. \<not> (hlen (mmap_holes vm ! i) = 0 \<or> hlen (mmap_holes vm ! i) < bytes)) [0..<length (mmap_holes vm)] = None"
    unfolding find_None_iff by (simp add: assms(1) no_hole_def)
  moreover have "unat (USER_MMAP_BASE + bytes) = 0x70000000 + unat bytes"
    using assms(3) by (simp add: unat_word_ariths word_le_nat_alt)
  then have "\<not> (USER_MMAP_BASE + bytes < USER_MMAP_BASE \<or> USER_MMAP_LIMIT < USER_MMAP_BASE + bytes)"
    using assms(3) by (simp add: word_le_nat_alt word_less_nat_alt)
  ultimately show ?thesis by (simp add: arena_alloc_def assms(2))
qed


section \<open>Histories outside the discipline\<close>

lemma vma_insert_plain:
  assumes "\<And>i. i < length vs \<Longrightarrow> used (vs ! i) \<Longrightarrow> pte_flags (vs ! i) \<noteq> fl"
  shows "vma_insert vs slot base bytes fl = vs[slot := \<lparr>vstart = base, vend = base + bytes, pte_flags = fl, used = True\<rparr>]"
proof -
  have "fold (merge_step base bytes fl vs) [0..<length vs] (None, None) = (None, None)"
    by (rule fold_skip) (use assms in \<open>auto simp: merge_step_def Let_def\<close>)
  then show ?thesis by (simp add: vma_insert_def)
qed

definition vma_a :: "u64 \<Rightarrow> u64 \<Rightarrow> user_vma" where
  "vma_a base fl = \<lparr>vstart = base, vend = base + 0x1000, pte_flags = fl, used = True\<rparr>"

lemma insert_first: "vma_insert (replicate 64 no_vma) 0 base 0x1000 fl = vma_a base fl # replicate 63 no_vma"
proof -
  have "replicate 64 no_vma = no_vma # replicate 63 no_vma" by (simp add: replicate_Suc [symmetric])
  then show ?thesis by (subst vma_insert_plain) (auto simp: nth_Cons no_vma_def vma_a_def split: nat.splits)
qed

lemma insert_second:
  assumes "fl \<noteq> fl'"
  shows "vma_insert (vma_a base fl # replicate 63 no_vma) 1 base' 0x1000 fl'
     = vma_a base fl # vma_a base' fl' # replicate 62 no_vma"
proof -
  have "replicate 63 no_vma = no_vma # replicate 62 no_vma" by (simp add: replicate_Suc [symmetric])
  then show ?thesis using assms
    by (subst vma_insert_plain) (auto simp: nth_Cons no_vma_def vma_a_def split: nat.splits)
qed

lemma free_slots:
  "vmas vm = replicate 64 no_vma \<Longrightarrow> vma_free_slot vm = Some 0"
  "vmas vm = vma_a b fl # replicate 63 no_vma \<Longrightarrow> vma_free_slot vm = Some 1"
  by (simp_all add: vma_free_slot_def upt_conv_Cons no_vma_def vma_a_def)

text \<open>
  A fixed reservation inside the arena does not move the bump pointer, so the next automatic
  placement returns the same address and the table then holds two reservations of one page.
\<close>

lemma fixed_in_arena_overlaps:
  defines "v1 \<equiv> snd (uvm_reserve vm_u vm_0 USER_MMAP_BASE 0x1000 7 True)"
  shows "fst (uvm_reserve vm_u vm_0 USER_MMAP_BASE 0x1000 7 True) = USER_MMAP_BASE
    \<and> fst (uvm_reserve vm_u v1 0 0x1000 5 False) = USER_MMAP_BASE
    \<and> \<not> vma_wf (vmas (snd (uvm_reserve vm_u v1 0 0x1000 5 False)))"
proof -
  note v = vm_0_facts(3-6)
  have "range_is_unmapped vm_u vm_0 USER_MMAP_BASE 0x1000"
    by (simp add: range_is_unmapped_def v list_ex_iff no_vma_def page_offs_def upt_conv_Cons Let_def vmm_translate_in_def
        walk_only_def va_split_def rd_def vm_u_def vm_w_def)
  then have r1: "uvm_reserve vm_u vm_0 USER_MMAP_BASE 0x1000 7 True
      = (USER_MMAP_BASE, vm_0\<lparr>vmas := vma_a USER_MMAP_BASE 7 # replicate 63 no_vma\<rparr>)"
    unfolding uvm_reserve_def by (simp add: v free_slots(1) uvm_range_ok_def insert_first)
  then have v1: "v1 = vm_0\<lparr>vmas := vma_a USER_MMAP_BASE 7 # replicate 63 no_vma\<rparr>" by (simp add: v1_def)
  have s: "vma_free_slot v1 = Some 1" by (rule free_slots(2)) (simp add: v1)
  have a: "arena_alloc v1 0x1000 = (USER_MMAP_BASE, v1\<lparr>mmap_next_va := USER_MMAP_BASE + 0x1000\<rparr>)"
    by (rule alloc_bump) (simp_all add: v1 v)
  have "uvm_reserve vm_u v1 0 0x1000 5 False
      = (USER_MMAP_BASE, v1\<lparr>mmap_next_va := USER_MMAP_BASE + 0x1000,
           vmas := vma_a USER_MMAP_BASE 7 # vma_a USER_MMAP_BASE 5 # replicate 62 no_vma\<rparr>)"
    unfolding uvm_reserve_def s a using insert_second [of 7 5 USER_MMAP_BASE USER_MMAP_BASE] by (simp add: v1 v)
  moreover have "\<not> vma_wf (vma_a USER_MMAP_BASE 7 # vma_a USER_MMAP_BASE 5 # replicate 62 no_vma)"
    using vma_wfD(2) [of "vma_a USER_MMAP_BASE 7 # vma_a USER_MMAP_BASE 5 # replicate 62 no_vma" 0 1]
    by (auto simp: apart_def vma_a_def)
  ultimately show ?thesis using r1 by simp
qed

text \<open>
  Releasing arena addresses that were never handed out succeeds and records them as a free range
  although they also lie above the bump pointer.
\<close>

lemma release_unallocated:
  "fst (uvm_release vm_u vm_0 USER_MMAP_BASE 0x1000) = 0
   \<and> hole_cov (mmap_holes (snd (snd (uvm_release vm_u vm_0 USER_MMAP_BASE 0x1000)))) USER_MMAP_BASE
   \<and> mmap_next_va (snd (snd (uvm_release vm_u vm_0 USER_MMAP_BASE 0x1000))) = USER_MMAP_BASE"
proof -
  note v = vm_0_facts(3-6) and i = vm_0_facts(2)
  have "\<not> list_ex (\<lambda>v. used v \<and> b > vstart v \<and> e < vend v) (vmas vm_0)" for b e
    by (simp add: v(1) list_ex_iff no_vma_def)
  then obtain vm1 where rm: "vma_remove_range vm_0 USER_MMAP_BASE (USER_MMAP_BASE + 0x1000) = (0, vm1)"
    unfolding vma_remove_range_def by simp
  obtain vs where vs: "vm1 = vm_0\<lparr>vmas := vs\<rparr>" using rm vma_remove_range_effect(2) [OF arena_invD(1) [OF i] _ rm] by auto
  have h: "mmap_holes vm1 ! 0 = no_hole" "length (mmap_holes vm1) = TASK_MMAP_HOLES" "hole_wf (mmap_holes vm1)"
    using arena_invD(2) [OF i] by (simp_all add: vs v)
  have "hlen (mmap_holes vm1 ! 0) = 0" by (simp add: h(1) no_hole_def)
  then have full: "\<not> (\<forall>i<length (mmap_holes vm1). hlen (mmap_holes vm1 ! i) \<noteq> 0)" unfolding h(2)
    by (intro notI) (drule spec [of _ 0], simp)
  have lt: "USER_MMAP_BASE < USER_MMAP_BASE + (0x1000 :: u64)" by simp
  have "hole_cov (mmap_holes (hole_add vm1 USER_MMAP_BASE 0x1000)) USER_MMAP_BASE"
    using hole_add_effect(2) [OF h(3) lt] full lt by blast
  moreover have "uvm_release vm_u vm_0 USER_MMAP_BASE 0x1000
    = (0, fold (release_page 0x1000) (map (\<lambda>off. USER_MMAP_BASE + off) (page_offs 0x1000)) vm_u, hole_add vm1 USER_MMAP_BASE 0x1000)"
    using rm by (simp add: uvm_release_def v uvm_range_ok_def)
  moreover have "mmap_next_va (hole_add vm1 USER_MMAP_BASE 0x1000) = USER_MMAP_BASE"
    using hole_add_effect(4) [OF h(3) lt] by (simp add: vs v)
  ultimately show ?thesis by simp
qed

end
