(* ===== verification/Inet.thy ===== *)
theory Inet
  imports Gaia_Prelude
begin

text \<open>
  Byte order, checksums and address tests of the network stack: \<open>kernel/net/inet.h\<close> and
  \<open>kernel/net/inet.c\<close>, with the transport checksums of \<open>kernel/net/udp.c\<close> and
  \<open>kernel/net/tcp.c\<close>.  A packed header field of type \<open>u16\<close> or \<open>u32\<close> is the bytes a little-endian
  machine keeps it in (\<open>le16\<close>, \<open>le32\<close>); byte order is a matter of which value is stored.
\<close>

section \<open>Byte order\<close>

definition bswap16 :: "u16 \<Rightarrow> u16" where
  "bswap16 v = push_bit 8 v OR drop_bit 8 v"

definition bswap32 :: "u32 \<Rightarrow> u32" where
  "bswap32 v = push_bit 24 (v AND 0x000000FF) OR push_bit 8 (v AND 0x0000FF00) OR
               drop_bit 8 (v AND 0x00FF0000) OR drop_bit 24 (v AND 0xFF000000)"

definition to_be16 :: "u16 \<Rightarrow> u16" where "to_be16 v = bswap16 v"
definition from_be16 :: "u16 \<Rightarrow> u16" where "from_be16 v = bswap16 v"
definition to_be32 :: "u32 \<Rightarrow> u32" where "to_be32 v = bswap32 v"
definition from_be32 :: "u32 \<Rightarrow> u32" where "from_be32 v = bswap32 v"

definition le16 :: "u16 \<Rightarrow> bytes" where
  "le16 v = [ucast v, ucast (drop_bit 8 v)]"

definition rd16 :: "bytes \<Rightarrow> nat \<Rightarrow> u16" where
  "rd16 bs i = ucast (bs ! i) OR push_bit 8 (ucast (bs ! (i + 1)))"

definition le32 :: "u32 \<Rightarrow> bytes" where
  "le32 v = [ucast v, ucast (drop_bit 8 v), ucast (drop_bit 16 v), ucast (drop_bit 24 v)]"

definition rd32 :: "bytes \<Rightarrow> nat \<Rightarrow> u32" where
  "rd32 bs i = ucast (bs ! i) OR push_bit 8 (ucast (bs ! (i + 1))) OR
               push_bit 16 (ucast (bs ! (i + 2))) OR push_bit 24 (ucast (bs ! (i + 3)))"

lemma len_le16 [simp]: "length (le16 v) = 2" and len_le32 [simp]: "length (le32 w) = 4"
  by (simp_all add: le16_def le32_def)

lemma bswap16_invol [simp]: "bswap16 (bswap16 v) = v"
  unfolding bswap16_def by (rule bit_word_eqI) (auto simp: bit_simps)

lemma be16_inverse [wire_simps]: "from_be16 (to_be16 v) = v" "to_be16 (from_be16 v) = v"
  by (simp_all add: to_be16_def from_be16_def)

lemma rd16_le16 [wire_simps]: "rd16 (le16 v @ bs) 0 = v"
proof -
  have "bit (rd16 (le16 v @ bs) 0) n = bit v n" if "n < 16" for n
    using that by (auto simp: rd16_def le16_def bit_simps)
  then show ?thesis by (intro bit_word_eqI) simp
qed

lemma rd16_append [wire_simps]: "i + 1 < length xs \<Longrightarrow> rd16 (xs @ ys) i = rd16 xs i"
  by (simp add: rd16_def nth_append)

lemma rd16_skip [wire_simps]: "length xs \<le> i \<Longrightarrow> rd16 (xs @ ys) i = rd16 ys (i - length xs)"
proof -
  assume "length xs \<le> i"
  then have "i + 1 - length xs = i - length xs + 1" "\<not> i < length xs" "\<not> i + 1 < length xs" by auto
  then show ?thesis by (simp add: rd16_def nth_append)
qed

section \<open>The one's complement checksum\<close>

text \<open>The reading loop: words in memory order, an odd byte alone at the end.\<close>

fun sum_words :: "bytes \<Rightarrow> u32 \<Rightarrow> u32" where
  "sum_words (a # b # bs) acc = sum_words bs (acc + ucast (rd16 [a, b] 0))"
| "sum_words [a] acc = acc + ucast a"
| "sum_words [] acc = acc"

function fold16 :: "u32 \<Rightarrow> u32" where
  "fold16 acc = (if drop_bit 16 acc = 0 then acc else fold16 ((acc AND 0xFFFF) + drop_bit 16 acc))"
  by auto

lemma unat_drop: "unat (drop_bit 16 (s :: u32)) = unat s div 65536"
proof -
  have "unat s < 2 ^ 32" using unsigned_less [of s, where 'a = nat] by simp
  then show ?thesis by (simp only: unsigned_drop_bit_eq) (simp add: drop_bit_eq_div take_bit_eq_mod)
qed

lemma fold_once: "unat (((s :: u32) AND 0xFFFF) + drop_bit 16 s) = unat s mod 65536 + unat s div 65536"
proof -
  have "s AND 0xFFFF = take_bit 16 s" by (simp add: take_bit_eq_mask mask_eq_exp_minus_1)
  then have a: "unat (s AND 0xFFFF) = unat s mod 65536" by (simp add: unsigned_take_bit_eq) (simp add: take_bit_eq_mod)
  note d = unat_drop
  have "unat s < 2 ^ 32" using unsigned_less [of s, where 'a = nat] by simp
  then have "unat s div 65536 < 65536" by (simp add: less_mult_imp_div_less)
  then show ?thesis by (simp add: unat_word_ariths a d)
qed

termination fold16
proof (relation "measure unat")
  fix s :: u32 assume "drop_bit 16 s \<noteq> 0"
  then have "0 < unat (drop_bit 16 s)" unfolding unat_gt_0 .
  then have "0 < unat s div 65536" unfolding unat_drop .
  then have "unat s mod 65536 + unat s div 65536 < unat s" using div_mult_mod_eq [of "unat s" 65536] by linarith
  then show "((s AND 0xFFFF) + drop_bit 16 s, s) \<in> measure unat" by (simp add: fold_once)
qed simp

declare fold16.simps [simp del]

definition inet_checksum :: "bytes \<Rightarrow> u16" where
  "inet_checksum data = NOT (ucast (fold16 (sum_words data 0)))"

text \<open>The transport checksums read big-endian words and return the sum as a host number.\<close>

fun udp_sum :: "bytes \<Rightarrow> u32 \<Rightarrow> u32" where
  "udp_sum (a # b # bs) acc = udp_sum bs (acc + (push_bit 8 (ucast a) OR ucast b))"
| "udp_sum [a] acc = acc + push_bit 8 (ucast a)"
| "udp_sum [] acc = acc"

fun tcp_sum :: "bytes \<Rightarrow> u32 \<Rightarrow> u32" where
  "tcp_sum (a # b # bs) acc = tcp_sum bs (acc + (push_bit 8 (ucast a) OR ucast b))"
| "tcp_sum [a] acc = acc + push_bit 8 (ucast a)"
| "tcp_sum [] acc = acc"

definition udp_checksum :: "bytes \<Rightarrow> bytes \<Rightarrow> bytes \<Rightarrow> u16" where
  "udp_checksum src_ip dst_ip seg =
     (let pseudo = take 4 src_ip @ take 4 dst_ip @ [0, 17] @ le16 (to_be16 (of_nat (length seg)))
      in NOT (ucast (fold16 (udp_sum seg (udp_sum pseudo 0)))))"

definition tcp_checksum :: "bytes \<Rightarrow> bytes \<Rightarrow> bytes \<Rightarrow> u16" where
  "tcp_checksum src_ip dst_ip seg =
     (let pseudo = take 4 src_ip @ take 4 dst_ip @ [0, 6] @ le16 (to_be16 (of_nat (length seg)))
      in NOT (ucast (fold16 (tcp_sum seg (tcp_sum pseudo 0)))))"

section \<open>Addresses\<close>

definition ipv4_addr_equal :: "bytes \<Rightarrow> bytes \<Rightarrow> bool" where
  "ipv4_addr_equal a b \<longleftrightarrow> a ! 0 = b ! 0 \<and> a ! 1 = b ! 1 \<and> a ! 2 = b ! 2 \<and> a ! 3 = b ! 3"

definition ipv4_addr_is_zero :: "bytes \<Rightarrow> bool" where
  "ipv4_addr_is_zero a \<longleftrightarrow> (a ! 0 OR a ! 1 OR a ! 2 OR a ! 3) = 0"

definition ipv4_is_broadcast :: "bytes \<Rightarrow> bytes \<Rightarrow> bytes \<Rightarrow> bool" where
  "ipv4_is_broadcast addr ip netmask \<longleftrightarrow>
     list_all (\<lambda>i. addr ! i OR netmask ! i = 0xFF \<and> ip ! i AND netmask ! i = addr ! i AND netmask ! i) [0..<4]"

definition ipv4_same_subnet :: "bytes \<Rightarrow> bytes \<Rightarrow> bytes \<Rightarrow> bool" where
  "ipv4_same_subnet a b netmask \<longleftrightarrow> list_all (\<lambda>i. a ! i AND netmask ! i = b ! i AND netmask ! i) [0..<4]"

section \<open>Checksums verify what they sign\<close>

lemma fold16_spec:
  "unat (fold16 s) < 65536 \<and> unat (fold16 s) mod 65535 = unat s mod 65535 \<and> (fold16 s = 0 \<longleftrightarrow> s = 0)"
proof (induction s rule: fold16.induct)
  case (1 s)
  show ?case
  proof (cases "drop_bit 16 s = 0")
    case True
    then have "unat s div 65536 = 0" using unat_drop [of s] by simp
    then have "unat s < 65536" by (simp add: div_eq_0_iff)
    then show ?thesis using True by (subst (1 2 3) fold16.simps) simp
  next
    case False
    let ?t = "(s AND 0xFFFF) + drop_bit 16 s"
    have f: "fold16 s = fold16 ?t" using False by (subst fold16.simps) simp
    have d: "0 < unat s div 65536" using False unat_drop [of s] unat_gt_0 [of "drop_bit 16 s"] by simp
    have "unat ?t mod 65535 = unat s mod 65535"
    proof -
      have "unat s = 65535 * (unat s div 65536) + unat ?t"
        using div_mult_mod_eq [of "unat s" 65536] unfolding fold_once by linarith
      then have "unat s mod 65535 = (65535 * (unat s div 65536) + unat ?t) mod 65535" by (rule arg_cong)
      then show ?thesis by (simp only: mod_mult_self4)
    qed
    moreover have "0 < unat ?t" unfolding fold_once using d by simp
    then have "?t \<noteq> 0" unfolding unat_gt_0 .
    moreover have "s \<noteq> 0" using False by auto
    ultimately show ?thesis unfolding f using 1 [OF False] by simp
  qed
qed

definition csum :: "u32 \<Rightarrow> u16" where
  "csum s = NOT (ucast (fold16 s))"

lemma unat_csum: "unat (csum s) = 65535 - unat (fold16 s)"
proof -
  let ?w = "ucast (fold16 s) :: u16"
  have w: "unat ?w = unat (fold16 s)"
    using conjunct1 [OF fold16_spec [of s]] by (simp add: unsigned_ucast_eq take_bit_eq_mod)
  have "NOT ?w = 0xFFFF - ?w" by (simp add: not_eq_complement)
  moreover have "?w \<le> 0xFFFF" using conjunct1 [OF fold16_spec [of s]] w by (simp add: word_le_nat_alt)
  ultimately show ?thesis unfolding csum_def w [symmetric] by (simp add: unat_sub)
qed

lemma complement_mod:
  fixes t f s :: nat
  assumes "f mod 65535 = s mod 65535" "t + f = s + 65535"
  shows "t mod 65535 = 0"
proof -
  have "(t + f) mod 65535 = f mod 65535" using assms by simp
  then have "65535 dvd (t + f) - f" by (subst mod_eq_dvd_iff_nat [symmetric]) simp_all
  then show ?thesis by simp
qed

text \<open>
  A way of summing a byte string in 16-bit words: \<open>wsum\<close> the accumulating loop, \<open>val\<close> the number it
  adds, \<open>enc\<close> the two bytes that add a given word.
\<close>

locale ones_sum =
  fixes wsum :: "bytes \<Rightarrow> u32 \<Rightarrow> u32" and val :: "bytes \<Rightarrow> nat" and enc :: "u16 \<Rightarrow> bytes"
  assumes wsum_val: "unat s + val bs < 2 ^ 32 \<Longrightarrow> unat (wsum bs s) = unat s + val bs"
    and val_append: "even (length xs) \<Longrightarrow> val (xs @ ys) = val xs + val ys"
    and val_enc: "val (enc w) = unat w" and val_zero: "val [0, 0] = 0" and len_enc: "length (enc w) = 2"
    and val_bound: "val bs \<le> 65535 * ((length bs + 1) div 2)"
begin

lemma val_small: "length bs \<le> 100000 \<Longrightarrow> val bs < 2 ^ 32 - 65536"
  using val_bound [of bs] by simp

lemma self_check:
  assumes "even (length xs)" and "length xs + length ys \<le> 99998"
  shows "csum (wsum (xs @ enc (csum (wsum (xs @ [0, 0] @ ys) 0)) @ ys) 0) = 0"
proof -
  let ?z = "xs @ [0, 0] @ ys" and ?s = "wsum (xs @ [0, 0] @ ys) 0"
  let ?b = "xs @ enc (csum ?s) @ ys"
  have v: "val ?z = val xs + val ys"
    using val_append [OF assms(1)] val_append [of "[0, 0]" ys] val_zero by simp
  have vb: "val ?b = val ?z + unat (csum ?s)"
    using val_append [OF assms(1)] val_append [of "enc (csum ?s)" ys] len_enc val_enc v by simp
  have small: "val ?z < 2 ^ 32 - 65536" by (rule val_small) (use assms(2) in simp)
  have s: "unat ?s = val ?z" using wsum_val [of 0 ?z] small by simp
  have c: "unat (csum ?s) \<le> 65535" unfolding unat_csum by simp
  have t: "unat (wsum ?b 0) = val ?z + unat (csum ?s)" using wsum_val [of 0 ?b] small c vb by simp
  let ?t = "wsum ?b 0"
  note fs = fold16_spec [of ?s] and ft = fold16_spec [of ?t]
  have fle: "unat (fold16 ?s) \<le> 65535" using fs by simp
  have tt: "unat ?t + unat (fold16 ?s) = unat ?s + 65535" using t s fle unfolding unat_csum by simp
  have "unat ?t mod 65535 = 0" by (rule complement_mod [OF _ tt]) (use fs in simp)
  moreover have "unat ?t \<noteq> 0"
  proof
    assume "unat ?t = 0"
    then have "unat ?s = 0 \<and> unat (fold16 ?s) = 65535" using tt fle by linarith
    then show False using fs by (auto simp: unat_eq_zero)
  qed
  ultimately have "unat (fold16 ?t) mod 65535 = 0" "unat (fold16 ?t) \<noteq> 0" "unat (fold16 ?t) < 65536"
    using ft by (auto simp: unat_eq_zero)
  then have "unat (fold16 ?t) = 65535" by (auto simp: mod_eq_0_iff_dvd dvd_def)
  then have "unat (csum ?t) = 0" unfolding unat_csum by simp
  then show ?thesis by (simp only: unat_eq_zero)
qed

end

fun val_le :: "bytes \<Rightarrow> nat" where
  "val_le (a # b # bs) = unat a + 256 * unat b + val_le bs"
| "val_le [a] = unat a"
| "val_le [] = 0"

fun val_be :: "bytes \<Rightarrow> nat" where
  "val_be (a # b # bs) = 256 * unat a + unat b + val_be bs"
| "val_be [a] = 256 * unat a"
| "val_be [] = 0"

lemma unat_ucast32 [simp]: "unat (ucast (b :: u8) :: u32) = unat b" "unat (ucast (w :: u16) :: u32) = unat w"
  using unsigned_less [of b, where 'a = nat] unsigned_less [of w, where 'a = nat]
  by (simp_all add: unsigned_ucast_eq take_bit_eq_mod)

lemma byte_less: "unat (b :: u8) < 256" using unsigned_less [of b, where 'a = nat] by simp

lemma unat_rd16 [simp]: "unat (rd16 [a, b] 0) = unat a + 256 * unat b"
proof -
  have "rd16 [a, b] 0 = ucast a + push_bit 8 (ucast b)"
    unfolding rd16_def by (simp, subst disjunctive_add) (auto simp: bit_simps dest: bit_imp_le_length)
  moreover have "unat (ucast a + push_bit 8 (ucast b) :: u16) = unat a + 256 * unat b"
    using byte_less [of a] byte_less [of b]
    by (simp add: unat_word_ariths push_bit_eq_mult unsigned_ucast_eq take_bit_eq_mod)
  ultimately show ?thesis by simp
qed

lemma unat_be [simp]: "unat (push_bit 8 (ucast (a :: u8)) OR ucast (b :: u8) :: u32) = 256 * unat a + unat b"
proof -
  have "(push_bit 8 (ucast a) OR ucast b :: u32) = push_bit 8 (ucast a) + ucast b"
    by (subst disjunctive_add) (auto simp: bit_simps dest: bit_imp_le_length)
  then show ?thesis using byte_less [of a] byte_less [of b]
    by (simp add: unat_word_ariths push_bit_eq_mult)
qed

lemma unat_shift8 [simp]: "unat (push_bit 8 (ucast (a :: u8)) :: u32) = 256 * unat a"
  using byte_less [of a] by (simp add: unat_word_ariths push_bit_eq_mult)

lemma unat_plus32: "unat (s :: u32) + unat t < 2 ^ 32 \<Longrightarrow> unat (s + t) = unat s + unat t"
  by (simp add: unat_word_ariths)

lemma len_pair: "(length (a # b # bs) + 1) div 2 = Suc ((length bs + 1) div 2)" by simp

lemma le16_bytes: "unat (ucast w :: u8) + 256 * unat (ucast (drop_bit 8 w) :: u8) = unat (w :: u16)"
proof -
  have "unat w < 65536" using unsigned_less [of w, where 'a = nat] by simp
  then have "unat w div 256 < 256" by (simp add: less_mult_imp_div_less)
  moreover have "unat (drop_bit 8 w) = unat w div 256"
    using \<open>unat w < 65536\<close> by (simp only: unsigned_drop_bit_eq) (simp add: drop_bit_eq_div take_bit_eq_mod)
  ultimately show ?thesis
    by (simp add: unsigned_ucast_eq take_bit_eq_mod)
qed

interpretation inet: ones_sum sum_words val_le le16
proof unfold_locales
  show "unat (sum_words bs s) = unat s + val_le bs" if "unat s + val_le bs < 2 ^ 32" for s bs
    using that by (induction bs s rule: sum_words.induct) (simp_all add: unat_plus32)
  show "val_le (xs @ ys) = val_le xs + val_le ys" if "even (length xs)" for xs ys
    using that by (induction xs rule: val_le.induct) simp_all
  show "val_le (le16 w) = unat w" for w by (simp add: le16_def le16_bytes)
  show "val_le bs \<le> 65535 * ((length bs + 1) div 2)" for bs
  proof (induction bs rule: val_le.induct)
    case (1 a b bs)
    then show ?case using byte_less [of a] byte_less [of b] unfolding len_pair by simp
  next
    case (2 a)
    then show ?case using byte_less [of a] by simp
  qed simp
qed simp_all

lemma be16_bytes: "le16 (to_be16 w) = [ucast (drop_bit 8 w), ucast w]"
proof -
  have "(ucast (push_bit 8 w OR drop_bit 8 w) :: u8) = ucast (drop_bit 8 w)"
    "(ucast (drop_bit 8 (push_bit 8 w OR drop_bit 8 w)) :: u8) = ucast w"
    by (rule bit_word_eqI; simp add: bit_simps)+
  then show ?thesis by (simp add: le16_def to_be16_def bswap16_def)
qed

interpretation udp: ones_sum udp_sum val_be "\<lambda>w. le16 (to_be16 w)"
proof unfold_locales
  show "unat (udp_sum bs s) = unat s + val_be bs" if "unat s + val_be bs < 2 ^ 32" for s bs
    using that by (induction bs s rule: udp_sum.induct) (simp_all add: unat_plus32)
  show "val_be (xs @ ys) = val_be xs + val_be ys" if "even (length xs)" for xs ys
    using that by (induction xs rule: val_be.induct) simp_all
  show "val_be (le16 (to_be16 w)) = unat w" for w using le16_bytes [of w] by (simp add: be16_bytes)
  show "val_be bs \<le> 65535 * ((length bs + 1) div 2)" for bs
  proof (induction bs rule: val_be.induct)
    case (1 a b bs)
    then show ?case using byte_less [of a] byte_less [of b] unfolding len_pair by simp
  next
    case (2 a)
    then show ?case using byte_less [of a] by simp
  qed simp
qed simp_all

lemma tcp_sum_udp: "tcp_sum bs s = udp_sum bs s"
  by (induction bs s rule: tcp_sum.induct) simp_all

interpretation tcp: ones_sum tcp_sum val_be "\<lambda>w. le16 (to_be16 w)"
  using udp.ones_sum_axioms unfolding tcp_sum_udp [abs_def] .

end
