(* ===== verification/Net.thy ===== *)
theory Net
  imports Inet
begin

text \<open>
  The network stack above the driver: \<open>kernel/net/netif.c\<close>, \<open>eth.c\<close>, \<open>arp.c\<close>, \<open>ipv4.c\<close>, \<open>icmp.c\<close>,
  \<open>udp.c\<close>, \<open>tcp.c\<close> and \<open>ksocket.c\<close> over one state.  A frame buffer with headroom is represented by its
  payload, since every header byte is overwritten before transmission; lengths are those of the
  lists.  Handing a frame to the driver appends it to \<open>wire\<close>; the driver's answer is the function
  \<open>ntx\<close> of the interface, applied to the frames handed over before.  Null pointers, locks and log
  lines are left out: the operations run one at a time.
\<close>

section \<open>State\<close>

record netif =
  nmac :: bytes
  nipv4 :: bytes
  nnetmask :: bytes
  ngateway :: bytes
  nmtu :: u16
  driver_data :: nat
  ntx :: "bytes list \<Rightarrow> bytes \<Rightarrow> int"

datatype arp_state = ARP_FREE | ARP_PENDING | ARP_VALID

record arp_entry =
  aip :: bytes
  amac :: bytes
  astate :: arp_state
  aretries :: u8
  adeadline :: u64

record arp_pending =
  in_use :: bool
  pentry :: nat
  ptype :: u16
  ppayload :: bytes
  queued_at :: u64

record icmp_session =
  iused :: bool
  replied :: bool
  iident :: u16
  iseq :: u16
  idst :: bytes
  sent_ticks :: u64
  reply_ticks :: u64

record sockaddr_in =
  family :: u16
  port :: u16
  sip :: bytes

datatype socket_state = SOCKET_UNBOUND | SOCKET_OPEN | SOCKET_LISTENING | SOCKET_CONNECTING | SOCKET_ESTABLISHED | SOCKET_CLOSED

record packet_node =
  psrc_ip :: bytes
  psrc_port :: u16
  pdata :: bytes

text \<open>\<open>sptr\<close> is the address of the socket; the receive queue is the list its links form.\<close>

record socket =
  sptr :: nat
  sid :: u32
  sstate :: socket_state
  stype :: int
  sprotocol :: int
  slocal :: sockaddr_in
  sremote :: sockaddr_in
  rx_queue :: "packet_node list"
  rx_count :: u32

text \<open>\<open>mem\<close> says which of the coming \<open>kmalloc\<close> calls succeed; \<open>brk\<close> is the next address it returns.\<close>

record net =
  interface :: "netif option"
  wire :: "bytes list"
  pit_ticks :: u64
  pit_freq :: u32
  ipv4_next_id :: u16
  cache :: "arp_entry list"
  pending :: "arp_pending list"
  pings :: "icmp_session list"
  socket_list :: "socket list"
  next_socket_id :: u32
  next_port :: u16
  mem :: "bool list"
  brk :: nat

abbreviation ETH_TYPE_IPV4 :: u16 where "ETH_TYPE_IPV4 \<equiv> 0x0800"
abbreviation ETH_TYPE_ARP :: u16 where "ETH_TYPE_ARP \<equiv> 0x0806"
abbreviation ETH_HDR_LEN :: nat where "ETH_HDR_LEN \<equiv> 14"
abbreviation ETH_FRAME_MAX :: nat where "ETH_FRAME_MAX \<equiv> 1514"
abbreviation IPV4_HDR_LEN :: nat where "IPV4_HDR_LEN \<equiv> 20"
abbreviation IPV4_PAYLOAD_MAX :: nat where "IPV4_PAYLOAD_MAX \<equiv> 1480"
abbreviation UDP_HEADER_SIZE :: nat where "UDP_HEADER_SIZE \<equiv> 8"
abbreviation ICMP_HDR_LEN :: nat where "ICMP_HDR_LEN \<equiv> 8"
abbreviation ARP_MAX_RETRIES :: u8 where "ARP_MAX_RETRIES \<equiv> 3"

definition eth_broadcast :: bytes where "eth_broadcast = replicate 6 0xFF"

section \<open>The interface\<close>

definition netif_register :: "netif \<Rightarrow> net \<Rightarrow> net" where
  "netif_register nif s = s\<lparr>interface := Some (if nmtu nif = 0 then nif\<lparr>nmtu := 1500\<rparr> else nif)\<rparr>"

definition netif_unregister :: "nat \<Rightarrow> net \<Rightarrow> net" where
  "netif_unregister d s =
     (case interface s of
        None \<Rightarrow> s
      | Some nif \<Rightarrow> if driver_data nif = d then s\<lparr>interface := None\<rparr> else s)"

definition netif_set_ipv4 :: "bytes option \<Rightarrow> bytes option \<Rightarrow> bytes option \<Rightarrow> net \<Rightarrow> net" where
  "netif_set_ipv4 ipv4 netmask gateway s =
     (case interface s of
        None \<Rightarrow> s
      | Some nif \<Rightarrow>
          s\<lparr>interface := Some (nif\<lparr>nipv4 := (case ipv4 of None \<Rightarrow> nipv4 nif | Some a \<Rightarrow> take 4 a),
                                  nnetmask := (case netmask of None \<Rightarrow> nnetmask nif | Some a \<Rightarrow> take 4 a),
                                  ngateway := (case gateway of None \<Rightarrow> ngateway nif | Some a \<Rightarrow> take 4 a)\<rparr>)\<rparr>)"

definition netif_tx :: "bytes \<Rightarrow> net \<Rightarrow> int \<times> net" where
  "netif_tx frame s =
     (case interface s of
        None \<Rightarrow> (-1, s)
      | Some nif \<Rightarrow>
          if frame = [] then (-1, s) else (ntx nif (wire s) frame, s\<lparr>wire := wire s @ [frame]\<rparr>))"

section \<open>Ethernet output\<close>

definition eth_output_framed :: "bytes \<Rightarrow> bytes \<Rightarrow> u16 \<Rightarrow> net \<Rightarrow> int \<times> net" where
  "eth_output_framed payload dst type s =
     (case interface s of
        None \<Rightarrow> (-1, s)
      | Some nif \<Rightarrow>
          if length payload > unat (nmtu nif) then (-1, s)
          else netif_tx (take 6 dst @ take 6 (nmac nif) @ le16 (to_be16 type) @ payload) s)"

definition eth_output :: "bytes \<Rightarrow> u16 \<Rightarrow> bytes \<Rightarrow> net \<Rightarrow> int \<times> net" where
  "eth_output dst type payload s =
     (if length payload > ETH_FRAME_MAX - ETH_HDR_LEN then (-1, s) else eth_output_framed payload dst type s)"

section \<open>ARP\<close>

definition arp_deadline :: "net \<Rightarrow> u32 \<Rightarrow> u64" where
  "arp_deadline s ms =
     (let hz = (if pit_freq s = 0 then 1000 else pit_freq s);
          ticks = (ucast ms * ucast hz) div 1000
      in pit_ticks s + (if ticks = 0 then 1 else ticks))"

definition arp_zero :: arp_entry where
  "arp_zero = \<lparr>aip = replicate 4 0, amac = replicate 6 0, astate = ARP_FREE, aretries = 0, adeadline = 0\<rparr>"

definition arp_find_locked :: "arp_entry list \<Rightarrow> bytes \<Rightarrow> nat option" where
  "arp_find_locked c ip = find (\<lambda>i. astate (c ! i) \<noteq> ARP_FREE \<and> ipv4_addr_equal (aip (c ! i)) ip) [0..<length c]"

definition arp_drop_pending_locked :: "nat \<Rightarrow> arp_pending list \<Rightarrow> arp_pending list" where
  "arp_drop_pending_locked e ps = map (\<lambda>p. if in_use p \<and> pentry p = e then p\<lparr>in_use := False\<rparr> else p) ps"

text \<open>The scan of \<open>arp_alloc_locked\<close>: a free slot, or the slot closest to its deadline.\<close>

fun arp_scan :: "arp_entry list \<Rightarrow> nat list \<Rightarrow> nat \<Rightarrow> bool \<times> nat" where
  "arp_scan c [] victim = (False, victim)"
| "arp_scan c (i # is) victim =
     (if astate (c ! i) = ARP_FREE then (True, i)
      else arp_scan c is (if adeadline (c ! i) < adeadline (c ! victim) then i else victim))"

definition arp_alloc_locked :: "net \<Rightarrow> nat \<times> net" where
  "arp_alloc_locked s =
     (let (free, i) = arp_scan (cache s) [0..<length (cache s)] 0
      in if free then (i, s)
         else (i, s\<lparr>pending := arp_drop_pending_locked i (pending s), cache := (cache s)[i := arp_zero]\<rparr>))"

fun pending_scan :: "arp_pending list \<Rightarrow> nat list \<Rightarrow> nat \<Rightarrow> nat" where
  "pending_scan ps [] victim = victim"
| "pending_scan ps (i # is) victim =
     (if \<not> in_use (ps ! i) then i
      else pending_scan ps is (if queued_at (ps ! i) < queued_at (ps ! victim) then i else victim))"

definition arp_pending_alloc_locked :: "arp_pending list \<Rightarrow> nat" where
  "arp_pending_alloc_locked ps = pending_scan ps [0..<length ps] 0"

definition arp_fill :: "netif \<Rightarrow> u16 \<Rightarrow> bytes option \<Rightarrow> bytes \<Rightarrow> bytes" where
  "arp_fill nif oper tha tpa =
     le16 (to_be16 1) @ le16 (to_be16 ETH_TYPE_IPV4) @ [6, 4] @ le16 (to_be16 oper) @
     take 6 (nmac nif) @ take 4 (nipv4 nif) @ (case tha of None \<Rightarrow> replicate 6 0 | Some a \<Rightarrow> take 6 a) @ take 4 tpa"

definition arp_request :: "bytes \<Rightarrow> net \<Rightarrow> net" where
  "arp_request ip s =
     (case interface s of
        None \<Rightarrow> s
      | Some nif \<Rightarrow> snd (eth_output eth_broadcast ETH_TYPE_ARP (arp_fill nif 1 None ip) s))"

definition arp_announce :: "net \<Rightarrow> net" where
  "arp_announce s =
     (case interface s of
        None \<Rightarrow> s
      | Some nif \<Rightarrow>
          if ipv4_addr_is_zero (nipv4 nif) then s
          else snd (eth_output eth_broadcast ETH_TYPE_ARP (arp_fill nif 1 None (nipv4 nif)) s))"

definition arp_prime_gateway :: "net \<Rightarrow> net" where
  "arp_prime_gateway s =
     (case interface s of
        None \<Rightarrow> s
      | Some nif \<Rightarrow>
          if ipv4_addr_is_zero (ngateway nif) then s
          else if ipv4_addr_equal (ngateway nif) (nipv4 nif) then s
          else arp_request (ngateway nif) s)"

definition parked :: "nat \<Rightarrow> arp_pending \<Rightarrow> bool" where
  "parked e p \<longleftrightarrow> in_use p \<and> pentry p = e"

lemma eth_output_framed_keeps [simp]:
  "pending (snd (eth_output_framed p d t s)) = pending s" "cache (snd (eth_output_framed p d t s)) = cache s"
  "interface (snd (eth_output_framed p d t s)) = interface s" "socket_list (snd (eth_output_framed p d t s)) = socket_list s"
  "pings (snd (eth_output_framed p d t s)) = pings s" "pit_ticks (snd (eth_output_framed p d t s)) = pit_ticks s"
  "pit_freq (snd (eth_output_framed p d t s)) = pit_freq s" "ipv4_next_id (snd (eth_output_framed p d t s)) = ipv4_next_id s"
  by (simp_all add: eth_output_framed_def netif_tx_def split: option.splits)

text \<open>Each pass takes the first parked frame out of the pool and transmits it.\<close>

function arp_flush_pending :: "nat \<Rightarrow> bytes \<Rightarrow> net \<Rightarrow> net" where
  "arp_flush_pending e mac s =
     (case find (\<lambda>i. parked e (pending s ! i)) [0..<length (pending s)] of
        None \<Rightarrow> s
      | Some i \<Rightarrow>
          (let p = pending s ! i; s1 = s\<lparr>pending := (pending s)[i := p\<lparr>in_use := False\<rparr>]\<rparr>
           in arp_flush_pending e mac (snd (eth_output_framed (ppayload p) mac (ptype p) s1))))"
  by auto

lemma parked_unpark:
  "i < length ps \<Longrightarrow> parked e (ps ! i) \<Longrightarrow>
     length (filter (parked e) (ps[i := (ps ! i)\<lparr>in_use := False\<rparr>])) < length (filter (parked e) ps)"
proof (induction ps arbitrary: i)
  case (Cons p ps)
  then show ?case by (cases i) (auto simp: parked_def)
qed simp

termination arp_flush_pending
proof (relation "measure (\<lambda>(e, _, s). length (filter (parked e) (pending s)))", goal_cases)
  case (2 e mac s i p s1)
  then show ?case by (auto simp: find_Some_iff intro!: parked_unpark)
qed simp

declare arp_flush_pending.simps [simp del]

definition arp_lookup :: "bytes \<Rightarrow> net \<Rightarrow> bytes option" where
  "arp_lookup ip s =
     (case arp_find_locked (cache s) ip of
        None \<Rightarrow> None
      | Some i \<Rightarrow> if astate (cache s ! i) = ARP_VALID then Some (amac (cache s ! i)) else None)"

definition arp_park :: "nat \<Rightarrow> bytes \<Rightarrow> u16 \<Rightarrow> net \<Rightarrow> net" where
  "arp_park e payload type s =
     s\<lparr>pending := (pending s)[arp_pending_alloc_locked (pending s) :=
        \<lparr>in_use = True, pentry = e, ptype = type, ppayload = payload, queued_at = pit_ticks s\<rparr>]\<rparr>"

definition arp_send_or_queue :: "bytes \<Rightarrow> bytes \<Rightarrow> u16 \<Rightarrow> net \<Rightarrow> int \<times> net" where
  "arp_send_or_queue ip payload type s =
     (if interface s = None then (-1, s)
      else if ETH_HDR_LEN + length payload > ETH_FRAME_MAX then (-1, s)
      else
        (case arp_find_locked (cache s) ip of
           Some e \<Rightarrow>
             if astate (cache s ! e) = ARP_VALID then eth_output_framed payload (amac (cache s ! e)) type s
             else (1, arp_park e payload type s)
         | None \<Rightarrow>
             (let (e, s1) = arp_alloc_locked s;
                  s2 = s1\<lparr>cache := (cache s1)[e := (cache s1 ! e)\<lparr>aip := take 4 ip, astate := ARP_PENDING,
                             aretries := 0, adeadline := arp_deadline s 1000\<rparr>]\<rparr>
              in (1, arp_request ip (arp_park e payload type s2)))))"

definition arp_learn :: "bytes \<Rightarrow> bytes \<Rightarrow> bool \<Rightarrow> net \<Rightarrow> net" where
  "arp_learn ip mac may_create s =
     (let (slot, s1) = (case arp_find_locked (cache s) ip of
            Some e \<Rightarrow> (Some e, s)
          | None \<Rightarrow> if may_create then (let (e, s1) = arp_alloc_locked s in (Some e, s1)) else (None, s))
      in case slot of
           None \<Rightarrow> s1
         | Some e \<Rightarrow>
             arp_flush_pending e mac
               (s1\<lparr>cache := (cache s1)[e := \<lparr>aip = take 4 ip, amac = take 6 mac, astate = ARP_VALID,
                     aretries = 0, adeadline = arp_deadline s1 120000\<rparr>]\<rparr>))"

text \<open>\<open>src\<close> is the sender of the Ethernet frame that carried the packet \<open>pkt\<close>.\<close>

definition arp_input :: "bytes \<Rightarrow> bytes \<Rightarrow> net \<Rightarrow> net" where
  "arp_input src pkt s =
     (case interface s of
        None \<Rightarrow> s
      | Some nif \<Rightarrow>
          if length pkt < 28 then s
          else if from_be16 (rd16 pkt 0) \<noteq> 1 then s
          else if from_be16 (rd16 pkt 2) \<noteq> ETH_TYPE_IPV4 then s
          else if pkt ! 4 \<noteq> 6 then s
          else if pkt ! 5 \<noteq> 4 then s
          else
            (let oper = from_be16 (rd16 pkt 6);
                 sha = take 6 (drop 8 pkt); spa = take 4 (drop 14 pkt); tpa = take 4 (drop 24 pkt);
                 for_us = ipv4_addr_equal tpa (nipv4 nif)
             in if oper \<noteq> 1 \<and> oper \<noteq> 2 then s
                else
                  (let s1 = (if ipv4_addr_is_zero spa then s else arp_learn spa sha for_us s)
                   in if oper \<noteq> 1 then s1
                      else if \<not> for_us then s1
                      else if ipv4_addr_is_zero (nipv4 nif) then s1
                      else snd (eth_output src ETH_TYPE_ARP (arp_fill nif 2 (Some sha) spa) s1))))"

text \<open>One entry of \<open>arp_tick\<close>'s scan; the addresses to ask for again are collected in order.\<close>

definition arp_tick_entry :: "nat \<Rightarrow> net \<times> bytes list \<Rightarrow> net \<times> bytes list" where
  "arp_tick_entry i = (\<lambda>(s, retry).
     (let e = cache s ! i
      in if astate e = ARP_FREE \<or> pit_ticks s < adeadline e then (s, retry)
         else if astate e = ARP_VALID then (s\<lparr>cache := (cache s)[i := e\<lparr>astate := ARP_FREE\<rparr>]\<rparr>, retry)
         else if ARP_MAX_RETRIES \<le> aretries e then
           (s\<lparr>pending := arp_drop_pending_locked i (pending s), cache := (cache s)[i := arp_zero]\<rparr>, retry)
         else (s\<lparr>cache := (cache s)[i := e\<lparr>aretries := aretries e + 1, adeadline := arp_deadline s 1000\<rparr>]\<rparr>,
               retry @ [aip e])))"

definition arp_tick :: "net \<Rightarrow> net" where
  "arp_tick s =
     (if interface s = None then s
      else
        (let (s1, retry) = fold arp_tick_entry [0..<length (cache s)] (s, [])
         in fold arp_request retry s1))"

definition arp_flush :: "net \<Rightarrow> net" where
  "arp_flush s = s\<lparr>cache := map (\<lambda>_. arp_zero) (cache s), pending := map (\<lambda>p. p\<lparr>in_use := False\<rparr>) (pending s)\<rparr>"

section \<open>IPv4 output\<close>

definition ipv4_next_hop :: "netif \<Rightarrow> bytes \<Rightarrow> bytes option" where
  "ipv4_next_hop nif dst =
     (if ipv4_same_subnet dst (nipv4 nif) (nnetmask nif) then Some (take 4 dst)
      else if ipv4_addr_is_zero (ngateway nif) then None
      else Some (take 4 (ngateway nif)))"

definition ipv4_dst_is_broadcast :: "netif \<Rightarrow> bytes \<Rightarrow> bool" where
  "ipv4_dst_is_broadcast nif dst \<longleftrightarrow>
     ipv4_addr_equal dst (replicate 4 0xFF) \<or> ipv4_is_broadcast dst (nipv4 nif) (nnetmask nif)"

definition ipv4_header :: "u16 \<Rightarrow> u16 \<Rightarrow> u8 \<Rightarrow> bytes \<Rightarrow> bytes \<Rightarrow> u16 \<Rightarrow> bytes" where
  "ipv4_header total_len ident protocol src dst checksum =
     [0x45, 0] @ le16 (to_be16 total_len) @ le16 (to_be16 ident) @ le16 0 @ [64, protocol] @
     le16 checksum @ take 4 src @ take 4 dst"

definition ipv4_output_framed :: "bytes \<Rightarrow> bytes \<Rightarrow> u8 \<Rightarrow> net \<Rightarrow> int \<times> net" where
  "ipv4_output_framed payload dst protocol s =
     (case interface s of
        None \<Rightarrow> (-1, s)
      | Some nif \<Rightarrow>
          if length payload > IPV4_PAYLOAD_MAX then (-1, s)
          else
            (let total_len = of_nat (IPV4_HDR_LEN + length payload);
                 hdr = ipv4_header total_len (ipv4_next_id s) protocol (nipv4 nif) dst;
                 packet = hdr (inet_checksum (hdr 0)) @ payload;
                 s1 = s\<lparr>ipv4_next_id := ipv4_next_id s + 1\<rparr>
             in if ipv4_dst_is_broadcast nif dst then eth_output_framed packet eth_broadcast ETH_TYPE_IPV4 s1
                else (case ipv4_next_hop nif dst of
                        None \<Rightarrow> (-1, s1)
                      | Some hop \<Rightarrow> arp_send_or_queue hop packet ETH_TYPE_IPV4 s1)))"

definition ipv4_output :: "bytes \<Rightarrow> u8 \<Rightarrow> bytes \<Rightarrow> net \<Rightarrow> int \<times> net" where
  "ipv4_output dst protocol payload s =
     (if length payload > IPV4_PAYLOAD_MAX then (-1, s) else ipv4_output_framed payload dst protocol s)"

definition hdr_src :: "bytes \<Rightarrow> bytes" where "hdr_src ip = take 4 (drop 12 ip)"
definition hdr_dst :: "bytes \<Rightarrow> bytes" where "hdr_dst ip = take 4 (drop 16 ip)"

section \<open>ICMP\<close>

definition icmp_ticks_to_ms :: "net \<Rightarrow> u64 \<Rightarrow> u32" where
  "icmp_ticks_to_ms s ticks = (if pit_freq s = 0 then 0 else ucast ((ticks * 1000) div ucast (pit_freq s)))"

definition icmp_echo_reply_input :: "bytes \<Rightarrow> bytes \<Rightarrow> net \<Rightarrow> net" where
  "icmp_echo_reply_input ip icmp s =
     (let ident = from_be16 (rd16 icmp 4); seq = from_be16 (rd16 icmp 6)
      in case find (\<lambda>i. iused (pings s ! i) \<and> \<not> replied (pings s ! i) \<and> iident (pings s ! i) = ident \<and>
                        iseq (pings s ! i) = seq \<and> ipv4_addr_equal (idst (pings s ! i)) (hdr_src ip)) [0..<length (pings s)] of
           None \<Rightarrow> s
         | Some i \<Rightarrow> s\<lparr>pings := (pings s)[i := (pings s ! i)\<lparr>reply_ticks := pit_ticks s, replied := True\<rparr>]\<rparr>)"

definition icmp_echo_request_input :: "bytes \<Rightarrow> bytes \<Rightarrow> net \<Rightarrow> net" where
  "icmp_echo_request_input ip payload s =
     (let reply = (\<lambda>c. [0, payload ! 1] @ le16 c @ drop 4 payload)
      in snd (ipv4_output_framed (reply (inet_checksum (reply 0))) (hdr_src ip) 1 s))"

definition icmp_input :: "bytes \<Rightarrow> bytes \<Rightarrow> net \<Rightarrow> net" where
  "icmp_input ip payload s =
     (if length payload < ICMP_HDR_LEN \<or> length payload > IPV4_PAYLOAD_MAX then s
      else if payload ! 1 \<noteq> 0 then s
      else if inet_checksum payload \<noteq> 0 then s
      else if payload ! 0 = 8 then icmp_echo_request_input ip payload s
      else if payload ! 0 = 0 then icmp_echo_reply_input ip payload s
      else s)"

definition icmp_session_release :: "nat \<Rightarrow> net \<Rightarrow> net" where
  "icmp_session_release slot s = s\<lparr>pings := (pings s)[slot := (pings s ! slot)\<lparr>iused := False\<rparr>]\<rparr>"

definition icmp_echo_request :: "u16 \<Rightarrow> u16 \<Rightarrow> u16 \<Rightarrow> bytes" where
  "icmp_echo_request ident seq checksum =
     [8, 0] @ le16 checksum @ le16 (to_be16 ident) @ le16 (to_be16 seq) @ map (\<lambda>i. of_nat (97 + i mod 23)) [0..<32]"

text \<open>
  \<open>icmp_ping\<close> up to its waiting loop: the claimed slot, or the error \<open>-2\<close>; and one turn of the
  loop, which yields to the other tasks when it has no result yet.  \<open>start\<close> is the tick count at
  the beginning of the wait.
\<close>

definition icmp_ping_send :: "bytes \<Rightarrow> u16 \<Rightarrow> u16 \<Rightarrow> net \<Rightarrow> (int + nat) \<times> net" where
  "icmp_ping_send dst ident seq s =
     (if interface s = None then (Inl (-2), s)
      else
        (case find (\<lambda>i. \<not> iused (pings s ! i)) [0..<length (pings s)] of
           None \<Rightarrow> (Inl (-2), s)
         | Some slot \<Rightarrow>
             (let s1 = s\<lparr>pings := (pings s)[slot := \<lparr>iused = True, replied = False, iident = ident, iseq = seq,
                           idst = take 4 dst, sent_ticks = pit_ticks s, reply_ticks = 0\<rparr>]\<rparr>;
                  req = icmp_echo_request ident seq;
                  (r, s2) = ipv4_output_framed (req (inet_checksum (req 0))) dst 1 s1
              in if r < 0 then (Inl (-2), icmp_session_release slot s2) else (Inr slot, s2))))"

definition icmp_ping_poll :: "nat \<Rightarrow> u32 \<Rightarrow> u64 \<Rightarrow> net \<Rightarrow> (int \<times> u32) option \<times> net" where
  "icmp_ping_poll slot timeout_ms start s =
     (let hz = (if pit_freq s = 0 then 1000 else pit_freq s);
          limit0 = (ucast timeout_ms * ucast hz) div 1000;
          limit = (if limit0 = 0 then 1 else limit0);
          p = pings s ! slot
      in if replied p then (Some (0, icmp_ticks_to_ms s (reply_ticks p - sent_ticks p)), icmp_session_release slot s)
         else if limit \<le> pit_ticks s - start then (Some (-1, 0), icmp_session_release slot s)
         else (None, s))"

section \<open>Sockets\<close>

definition kmalloc_ok :: "net \<Rightarrow> bool \<times> net" where
  "kmalloc_ok s = (case mem s of [] \<Rightarrow> (False, s) | b # bs \<Rightarrow> (b, s\<lparr>mem := bs, brk := brk s + 1\<rparr>))"

definition no_addr :: sockaddr_in where
  "no_addr = \<lparr>family = 0, port = 0, sip = replicate 4 0\<rparr>"

definition socket_create :: "int \<Rightarrow> int \<Rightarrow> net \<Rightarrow> nat option \<times> net" where
  "socket_create type protocol s =
     (let (ok, s1) = kmalloc_ok s
      in if \<not> ok then (None, s1)
         else
           (let sock = \<lparr>sptr = brk s, sid = next_socket_id s1, sstate = SOCKET_UNBOUND, stype = type, sprotocol = protocol,
                        slocal = no_addr, sremote = no_addr, rx_queue = [], rx_count = 0\<rparr>
            in (Some (brk s), s1\<lparr>next_socket_id := next_socket_id s1 + 1, socket_list := sock # socket_list s1\<rparr>)))"

definition update_socket :: "nat \<Rightarrow> (socket \<Rightarrow> socket) \<Rightarrow> net \<Rightarrow> net" where
  "update_socket p f s = s\<lparr>socket_list := map (\<lambda>k. if sptr k = p then f k else k) (socket_list s)\<rparr>"

definition find_socket :: "nat \<Rightarrow> net \<Rightarrow> socket option" where
  "find_socket p s = find (\<lambda>k. sptr k = p) (socket_list s)"

definition socket_bind :: "nat \<Rightarrow> sockaddr_in \<Rightarrow> net \<Rightarrow> int \<times> net" where
  "socket_bind p addr s = (0, update_socket p (\<lambda>k. k\<lparr>slocal := addr, sstate := SOCKET_OPEN\<rparr>) s)"

definition socket_sendto :: "nat \<Rightarrow> bytes \<Rightarrow> sockaddr_in \<Rightarrow> net \<Rightarrow> int \<times> net" where
  "socket_sendto p buf dest s =
     (case find_socket p s of
        None \<Rightarrow> (-1, s)
      | Some sock \<Rightarrow>
          if length buf > IPV4_PAYLOAD_MAX - UDP_HEADER_SIZE then (-1, s)
          else
            (let s1 = update_socket p (\<lambda>k. k\<lparr>sremote := dest\<rparr>) s; (ok, s2) = kmalloc_ok s1
             in if \<not> ok then (-1, s2)
                else
                  (let seg = le16 (port (slocal sock)) @ le16 (port dest) @ le16 (to_be16 (of_nat (UDP_HEADER_SIZE + length buf))) @
                             le16 0 @ buf;
                       (r, s3) = ipv4_output (sip dest) 17 seg s2
                   in if r < 0 then (-1, s3) else (int (length buf), s3))))"

definition socket_readable :: "nat \<Rightarrow> net \<Rightarrow> bool" where
  "socket_readable p s = (case find_socket p s of None \<Rightarrow> False | Some k \<Rightarrow> rx_queue k \<noteq> [])"

text \<open>
  One pass of \<open>socket_recvfrom\<close>: a datagram cut to the buffer with its sender, \<open>-EAGAIN\<close> on an empty
  queue without blocking, or nothing when the caller would be parked on the wait queue.
\<close>

definition socket_recvfrom :: "nat \<Rightarrow> nat \<Rightarrow> bool \<Rightarrow> net \<Rightarrow> (int + bytes \<times> sockaddr_in) option \<times> net" where
  "socket_recvfrom p len nonblock s =
     (case find_socket p s of
        None \<Rightarrow> (Some (Inl (-22)), s)
      | Some k \<Rightarrow>
          (case rx_queue k of
             [] \<Rightarrow> ((if nonblock then Some (Inl (-11)) else None), s)
           | n # ns \<Rightarrow>
               (Some (Inr (take len (pdata n), \<lparr>family = 2, port = psrc_port n, sip = psrc_ip n\<rparr>)),
                update_socket p (\<lambda>k. k\<lparr>rx_queue := ns, rx_count := rx_count k - 1\<rparr>) s)))"

definition socket_close :: "nat \<Rightarrow> net \<Rightarrow> net" where
  "socket_close p s =
     s\<lparr>socket_list := takeWhile (\<lambda>k. sptr k \<noteq> p) (socket_list s) @ tl (dropWhile (\<lambda>k. sptr k \<noteq> p) (socket_list s))\<rparr>"

text \<open>\<open>n\<close> attempts are left; \<open>cand\<close> is the static \<open>next_port\<close>.\<close>

fun port_scan :: "nat \<Rightarrow> u16 \<Rightarrow> socket list \<Rightarrow> u16 \<times> u16" where
  "port_scan 0 cand socks = (0, cand)"
| "port_scan (Suc n) cand socks =
     (let nxt = (if cand \<ge> 60999 then 32768 else cand + 1)
      in if list_ex (\<lambda>k. from_be16 (port (slocal k)) = cand) socks then port_scan n nxt socks
         else (to_be16 cand, nxt))"

definition socket_alloc_ephemeral_port :: "net \<Rightarrow> u16 \<times> net" where
  "socket_alloc_ephemeral_port s =
     (let (p, nxt) = port_scan 28232 (next_port s) (socket_list s) in (p, s\<lparr>next_port := nxt\<rparr>))"

definition socket_handle_incoming :: "bytes \<Rightarrow> u16 \<Rightarrow> bytes \<Rightarrow> u16 \<Rightarrow> int \<Rightarrow> bytes \<Rightarrow> net \<Rightarrow> net" where
  "socket_handle_incoming src_ip src_port dest_ip dest_port protocol payload s =
     (case find (\<lambda>k. sprotocol k = protocol \<and> port (slocal k) = dest_port \<and>
                     (sip (slocal k) = dest_ip \<or> sip (slocal k) = replicate 4 0)) (socket_list s) of
        None \<Rightarrow> s
      | Some target \<Rightarrow>
          (let (ok1, s1) = kmalloc_ok s
           in if \<not> ok1 then s1
              else
                (let (ok2, s2) = kmalloc_ok s1
                 in if \<not> ok2 then s2
                    else
                      update_socket (sptr target)
                        (\<lambda>k. k\<lparr>rx_queue := rx_queue k @ [\<lparr>psrc_ip = src_ip, psrc_port = src_port, pdata = payload\<rparr>],
                              rx_count := rx_count k + 1,
                              sremote := (sremote k)\<lparr>sip := src_ip, port := src_port\<rparr>,
                              sstate := SOCKET_ESTABLISHED\<rparr>) s2)))"

section \<open>UDP\<close>

definition udp_input :: "bytes \<Rightarrow> bytes \<Rightarrow> net \<Rightarrow> net" where
  "udp_input ip segment s =
     (if length segment < UDP_HEADER_SIZE then s
      else
        (let udp_len = unat (from_be16 (rd16 segment 4))
         in if udp_len < UDP_HEADER_SIZE \<or> udp_len > length segment then s
            else if rd16 segment 6 \<noteq> 0 \<and> udp_checksum (hdr_src ip) (hdr_dst ip) (take udp_len segment) \<noteq> 0 then s
            else socket_handle_incoming (hdr_src ip) (rd16 segment 0) (hdr_dst ip) (rd16 segment 2) 17
                   (take (udp_len - UDP_HEADER_SIZE) (drop UDP_HEADER_SIZE segment)) s))"

definition udp_segment :: "u16 \<Rightarrow> u16 \<Rightarrow> bytes \<Rightarrow> u16 \<Rightarrow> bytes" where
  "udp_segment src_port dst_port payload checksum =
     le16 (to_be16 src_port) @ le16 (to_be16 dst_port) @ le16 (to_be16 (of_nat (UDP_HEADER_SIZE + length payload))) @
     le16 checksum @ payload"

definition udp_output :: "bytes \<Rightarrow> u16 \<Rightarrow> u16 \<Rightarrow> bytes \<Rightarrow> net \<Rightarrow> int \<times> net" where
  "udp_output dst_ip src_port dst_port payload s =
     (if length payload > IPV4_PAYLOAD_MAX - UDP_HEADER_SIZE then (-1, s)
      else
        (case interface s of
           None \<Rightarrow> (-1, s)
         | Some nif \<Rightarrow>
             (let seg = udp_segment src_port dst_port payload;
                  c = udp_checksum (nipv4 nif) dst_ip (seg 0)
              in ipv4_output dst_ip 17 (seg (if c = 0 then 0xFFFF else c)) s)))"

section \<open>TCP\<close>

definition tcp_header_len :: "bytes \<Rightarrow> u8" where
  "tcp_header_len hdr = drop_bit 4 (hdr ! 12) * 4"

definition tcp_header_len_valid :: "bytes \<Rightarrow> bool" where
  "tcp_header_len_valid hdr \<longleftrightarrow> 5 \<le> drop_bit 4 (hdr ! 12) \<and> drop_bit 4 (hdr ! 12) \<le> 15"

definition tcp_seq_lt :: "u32 \<Rightarrow> u32 \<Rightarrow> bool" where "tcp_seq_lt a b \<longleftrightarrow> sint (a - b) < 0"
definition tcp_seq_le :: "u32 \<Rightarrow> u32 \<Rightarrow> bool" where "tcp_seq_le a b \<longleftrightarrow> sint (a - b) \<le> 0"
definition tcp_seq_gt :: "u32 \<Rightarrow> u32 \<Rightarrow> bool" where "tcp_seq_gt a b \<longleftrightarrow> sint (a - b) > 0"
definition tcp_seq_ge :: "u32 \<Rightarrow> u32 \<Rightarrow> bool" where "tcp_seq_ge a b \<longleftrightarrow> sint (a - b) \<ge> 0"

record tcp_options =
  mss :: u16
  has_mss :: bool
  sack_permitted :: bool
  timestamp_present :: bool
  timestamp_value :: u32
  timestamp_echo :: u32

definition no_options :: tcp_options where
  "no_options = \<lparr>mss = 0, has_mss = False, sack_permitted = False, timestamp_present = False,
                 timestamp_value = 0, timestamp_echo = 0\<rparr>"

text \<open>One option of kind \<open>kind\<close> and length \<open>len\<close>, whose bytes after kind and length are \<open>body\<close>.\<close>

definition tcp_option :: "u8 \<Rightarrow> nat \<Rightarrow> bytes \<Rightarrow> tcp_options \<Rightarrow> tcp_options" where
  "tcp_option kind len body out =
     (if kind = 2 then (if len = 4 then out\<lparr>mss := from_be16 (rd16 body 0), has_mss := True\<rparr> else out)
      else if kind = 4 then (if len = 2 then out\<lparr>sack_permitted := True\<rparr> else out)
      else if kind = 8 then
        (if len = 10 then out\<lparr>timestamp_value := from_be32 (rd32 body 0), timestamp_echo := from_be32 (rd32 body 4),
                              timestamp_present := True\<rparr> else out)
      else out)"

text \<open>\<open>opts\<close> is what is left of the option bytes at the loop index.\<close>

function tcp_parse_from :: "bytes \<Rightarrow> tcp_options \<Rightarrow> tcp_options" where
  "tcp_parse_from opts out =
     (case opts of
        [] \<Rightarrow> out
      | kind # rest \<Rightarrow>
          if kind = 0 then out
          else if kind = 1 then tcp_parse_from rest out
          else
            (case rest of
               [] \<Rightarrow> out
             | lenb # body \<Rightarrow>
                 if lenb < 2 \<or> unat lenb > length opts then out
                 else tcp_parse_from (drop (unat lenb) opts) (tcp_option kind (unat lenb) body out)))"
  by auto

termination tcp_parse_from
proof (relation "measure (\<lambda>(opts, _). length opts)", goal_cases)
  case (3 opts out kind rest lenb body)
  then have "2 \<le> unat lenb" by (simp add: word_less_nat_alt not_less)
  then show ?case using 3 by (simp add: less_diff_conv)
qed auto

declare tcp_parse_from.simps [simp del]

definition tcp_parse_options :: "bytes \<Rightarrow> tcp_options" where
  "tcp_parse_options opts = tcp_parse_from opts no_options"

definition tcp_input :: "bytes \<Rightarrow> bytes \<Rightarrow> net \<Rightarrow> net" where
  "tcp_input ip segment s =
     (if length segment < 20 then s
      else if \<not> tcp_header_len_valid segment then s
      else
        (let hdr_len = unat (tcp_header_len segment)
         in if hdr_len > length segment then s
            else if tcp_checksum (hdr_src ip) (hdr_dst ip) segment \<noteq> 0 then s
            else socket_handle_incoming (hdr_src ip) (rd16 segment 0) (hdr_dst ip) (rd16 segment 2) 6
                   (drop hdr_len segment) s))"

section \<open>Input\<close>

definition ipv4_deliver :: "u8 \<Rightarrow> bytes \<Rightarrow> bytes \<Rightarrow> net \<Rightarrow> net" where
  "ipv4_deliver protocol ip payload s =
     (if protocol = 1 then icmp_input ip payload s
      else if protocol = 17 then udp_input ip payload s
      else if protocol = 6 then tcp_input ip payload s
      else s)"

definition ipv4_input :: "bytes \<Rightarrow> net \<Rightarrow> net" where
  "ipv4_input packet s =
     (case interface s of
        None \<Rightarrow> s
      | Some nif \<Rightarrow>
          if length packet < IPV4_HDR_LEN then s
          else if drop_bit 4 (packet ! 0) \<noteq> 4 then s
          else
            (let ihl = unat (packet ! 0 AND 0x0F) * 4; total_len = unat (from_be16 (rd16 packet 2))
             in if ihl < IPV4_HDR_LEN \<or> total_len < ihl \<or> total_len > length packet then s
                else if inet_checksum (take ihl packet) \<noteq> 0 then s
                else if from_be16 (rd16 packet 6) AND 0x3FFF \<noteq> 0 then s
                else if \<not> ipv4_addr_equal (hdr_dst packet) (nipv4 nif) \<and> \<not> ipv4_dst_is_broadcast nif (hdr_dst packet) then s
                else ipv4_deliver (packet ! 9) packet (take (total_len - ihl) (drop ihl packet)) s))"

definition eth_addressed_to_us :: "netif \<Rightarrow> bytes \<Rightarrow> bool" where
  "eth_addressed_to_us nif dst \<longleftrightarrow> (if dst ! 0 AND 1 \<noteq> 0 then True else take 6 dst = nmac nif)"

definition eth_input :: "bytes \<Rightarrow> net \<Rightarrow> net" where
  "eth_input frame s =
     (case interface s of
        None \<Rightarrow> s
      | Some nif \<Rightarrow>
          if length frame < ETH_HDR_LEN \<or> length frame > ETH_FRAME_MAX then s
          else if \<not> eth_addressed_to_us nif frame then s
          else
            (let type = from_be16 (rd16 frame 12); payload = drop ETH_HDR_LEN frame
             in if type = ETH_TYPE_ARP then arp_input (take 6 (drop 6 frame)) payload s
                else if type = ETH_TYPE_IPV4 then ipv4_input payload s
                else s))"

end
