(* ===== verification/Net_Props.thy ===== *)
theory Net_Props
  imports Net
begin

text \<open>
  What the network stack promises: checksums that verify, packets one host sends being accepted by
  another, the consistency of the address cache over every history, delivery of parked frames,
  port allocation and option parsing.
\<close>

section \<open>Checksums\<close>

lemma inet_checksum_csum: "inet_checksum bs = csum (sum_words bs 0)"
  by (simp add: inet_checksum_def csum_def)

lemma udp_sum_append: "even (length xs) \<Longrightarrow> udp_sum (xs @ ys) s = udp_sum ys (udp_sum xs s)"
  by (induction xs s rule: udp_sum.induct) simp_all

text \<open>The bytes the transport checksum covers.\<close>

definition pseudo_seg :: "bytes \<Rightarrow> bytes \<Rightarrow> u8 \<Rightarrow> bytes \<Rightarrow> bytes" where
  "pseudo_seg src dst proto seg = take 4 src @ take 4 dst @ [0, proto] @ le16 (to_be16 (of_nat (length seg))) @ seg"

lemma udp_checksum_csum:
  assumes "length src = 4" "length dst = 4"
  shows "udp_checksum src dst seg = csum (udp_sum (pseudo_seg src dst 17 seg) 0)"
    "tcp_checksum src dst seg = csum (tcp_sum (pseudo_seg src dst 6 seg) 0)"
  using assms udp_sum_append [of "take 4 src @ take 4 dst @ [0, 17] @ le16 (to_be16 (of_nat (length seg)))" seg 0]
    udp_sum_append [of "take 4 src @ take 4 dst @ [0, 6] @ le16 (to_be16 (of_nat (length seg)))" seg 0]
  by (simp_all add: udp_checksum_def tcp_checksum_def csum_def pseudo_seg_def Let_def tcp_sum_udp)

text \<open>
  C23. The checksum routine verifies its own output: for any message of even prefix, storing the
  checksum computed with a zeroed field into that field makes the checksum of the whole zero,
  which is the test every receiver of the stack applies.
\<close>

theorem inet_checksum_verifies:
  assumes "even (length xs)" and "length xs + length ys \<le> 99998"
  shows "inet_checksum (xs @ le16 (inet_checksum (xs @ [0, 0] @ ys)) @ ys) = 0"
  unfolding inet_checksum_csum by (rule inet.self_check [OF assms])

theorem inet_checksum_verifies_witness:
  "inet_checksum ([8, 0] @ le16 (inet_checksum ([8, 0] @ [0, 0] @ [1, 2, 3])) @ [1, 2, 3]) = 0"
  using inet_checksum_verifies [of "[8, 0]" "[1, 2, 3]"] by simp

lemma small_multiple: "n \<le> 131070 \<Longrightarrow> n mod 65535 = 0 \<longleftrightarrow> n = 0 \<or> n = 65535 \<or> n = (131070 :: nat)"
  by (auto simp: mod_eq_0_iff_dvd dvd_def)

lemma checksum_iff:
  assumes "even (length xs)" and "length xs + length ys \<le> 99998" and "c = csum (udp_sum (xs @ [0, 0] @ ys) 0)"
  shows "csum (udp_sum (xs @ le16 w @ ys) 0) = 0 \<longleftrightarrow> bswap16 w = c \<or> (c = 0 \<and> bswap16 w = 0xFFFF)"
proof -
  have w: "le16 w = le16 (to_be16 (bswap16 w))" by (simp add: to_be16_def)
  let ?z = "xs @ [0, 0] @ ys" and ?b = "xs @ le16 (to_be16 (bswap16 w)) @ ys" and ?v = "bswap16 w"
  have v: "val_be ?z = val_be xs + val_be ys"
    using udp.val_append [OF assms(1)] udp.val_append [of "[0, 0]" ys] by simp
  have vb: "val_be ?b = val_be ?z + unat ?v"
    using udp.val_append [OF assms(1)] udp.val_append [of "le16 (to_be16 ?v)" ys] udp.val_enc [of ?v] v by simp
  have small: "val_be ?z < 2 ^ 32 - 65536" by (rule udp.val_small) (use assms(2) in simp)
  have vlt: "unat x < 65536" for x :: u16 using unsigned_less [of x, where 'a = nat] by simp
  define S T where "S = udp_sum ?z 0" and "T = udp_sum ?b 0"
  have s: "unat S = val_be ?z" using udp.wsum_val [of 0 ?z] small by (simp add: S_def)
  have t: "unat T = unat S + unat ?v" using udp.wsum_val [of 0 ?b] small vb vlt [of ?v] s by (simp add: T_def)
  note fS = fold16_spec [of S] and fT = fold16_spec [of T]
  have cS: "unat c + unat (fold16 S) = 65535" using fS unat_csum [of S] by (simp add: assms(3) S_def)
  have "unat T mod 65535 = (unat (fold16 S) + unat ?v) mod 65535"
    unfolding t using fS by (metis mod_add_left_eq)
  also have "\<dots> = 0 \<longleftrightarrow> unat (fold16 S) + unat ?v = 0 \<or> unat (fold16 S) + unat ?v = 65535 \<or> unat (fold16 S) + unat ?v = 131070"
    using fS vlt [of ?v] by (intro small_multiple) simp
  finally have m: "unat T mod 65535 = 0 \<longleftrightarrow>
      unat (fold16 S) + unat ?v = 0 \<or> unat (fold16 S) + unat ?v = 65535 \<or> unat (fold16 S) + unat ?v = 131070"
    (is "_ \<longleftrightarrow> ?m") .
  have z: "unat (fold16 S) = 0 \<longleftrightarrow> unat S = 0" using fS by (simp add: unat_eq_zero)
  have tz: "unat T \<noteq> 0 \<longleftrightarrow> unat S \<noteq> 0 \<or> unat ?v \<noteq> 0" using t by auto
  have "csum T = 0 \<longleftrightarrow> unat (fold16 T) = 65535" using fT unat_csum [of T] unat_eq_zero [of "csum T"] by auto
  also have "\<dots> \<longleftrightarrow> unat T mod 65535 = 0 \<and> unat T \<noteq> 0"
    using fT small_multiple [of "unat (fold16 T)"] unat_eq_zero [of T] unat_eq_zero [of "fold16 T"] by auto
  also have "\<dots> \<longleftrightarrow> unat ?v = unat c \<or> (unat c = 0 \<and> unat ?v = 65535)"
    unfolding m tz using cS z vlt [of ?v] by auto
  also have "\<dots> \<longleftrightarrow> ?v = c \<or> (c = 0 \<and> ?v = 0xFFFF)" by (simp add: word_unat_eq_iff)
  finally show ?thesis unfolding T_def w [symmetric] .
qed


lemma checksum_ex: "udp_checksum [10, 0, 2, 15] [10, 0, 2, 2] (udp_segment 53 53 [1] 0) = 0xE661" "bswap16 0xE661 = 0x61E6"
  by (simp_all add: udp_checksum_def udp_segment_def le16_def to_be16_def bswap16_def fold16.simps)


section \<open>IPv4\<close>

lemma ipv4_header_bytes:
  assumes "length src = 4" "length dst = 4"
  shows "length (ipv4_header n i p src dst c) = 20" "ipv4_header n i p src dst c ! 0 = 0x45"
    "ipv4_header n i p src dst c ! 9 = p" "from_be16 (rd16 (ipv4_header n i p src dst c) 2) = n"
    "rd16 (ipv4_header n i p src dst c) 6 = 0" "hdr_src (ipv4_header n i p src dst c @ q) = src"
    "hdr_dst (ipv4_header n i p src dst c @ q) = dst"
proof -
  have r: "rd16 (le16 v) 0 = v" for v using rd16_le16 [of v "[]"] by simp
  show "length (ipv4_header n i p src dst c) = 20" "ipv4_header n i p src dst c ! 0 = 0x45"
    "ipv4_header n i p src dst c ! 9 = p"
    "hdr_src (ipv4_header n i p src dst c @ q) = src" "hdr_dst (ipv4_header n i p src dst c @ q) = dst"
    using assms by (simp_all add: ipv4_header_def le16_def hdr_src_def hdr_dst_def)
  have "rd16 (ipv4_header n i p src dst c) 2 = to_be16 n"
    by (simp add: ipv4_header_def rd16_skip [of "[0x45, 0]", simplified] rd16_le16)
  then show "from_be16 (rd16 (ipv4_header n i p src dst c) 2) = n" by (simp add: wire_simps)
  show "rd16 (ipv4_header n i p src dst c) 6 = 0"
    using rd16_skip [of "[0x45, 0] @ le16 (to_be16 n) @ le16 (to_be16 i)" 6 "le16 0 @ [64, p] @ le16 c @ take 4 src @ take 4 dst"]
    by (simp add: ipv4_header_def rd16_le16)
qed

lemma ipv4_header_checksum:
  assumes "length src = 4" "length dst = 4"
  shows "inet_checksum (ipv4_header n i p src dst (inet_checksum (ipv4_header n i p src dst 0))) = 0"
proof -
  let ?xs = "[0x45, 0] @ le16 (to_be16 n) @ le16 (to_be16 i) @ le16 0 @ [64, p]" and ?ys = "take 4 src @ take 4 dst"
  have h: "ipv4_header n i p src dst c = ?xs @ le16 c @ ?ys" for c by (simp add: ipv4_header_def)
  have "le16 0 = [0, 0]" by (simp add: le16_def)
  then show ?thesis unfolding h using inet.self_check [of ?xs ?ys] assms by (simp add: inet_checksum_csum)
qed

lemma ipv4_input_accepts:
  assumes i: "interface r = Some nif" and l: "length src = 4" "length dst = 4" and d: "nipv4 nif = dst"
    and p: "length payload \<le> 1480"
    and h: "hdr = ipv4_header (of_nat (20 + length payload)) k proto src dst"
  shows "ipv4_input (hdr (inet_checksum (hdr 0)) @ payload @ pad) r
      = ipv4_deliver proto (hdr (inet_checksum (hdr 0)) @ payload @ pad) payload r"
proof -
  let ?h = "hdr (inet_checksum (hdr 0))" and ?n = "of_nat (20 + length payload) :: u16"
  note b = ipv4_header_bytes [OF l, of ?n k proto, folded h]
  have n: "unat ?n = 20 + length payload" using p by (simp only: unat_of_nat) simp
  have f: "(?h @ q) ! 0 = 0x45" "(?h @ q) ! 9 = proto" "from_be16 (rd16 (?h @ q) 2) = ?n" "rd16 (?h @ q) 6 = 0"
    "take 20 (?h @ q) = ?h" "drop 20 (?h @ q) = q" for q
    using b(1-5) by (simp_all add: nth_append rd16_append)
  have z: "from_be16 0 = 0" by (simp add: from_be16_def bswap16_def)
  have c: "inet_checksum ?h = 0" using ipv4_header_checksum [OF l] by (simp add: h)
  have e: "ipv4_addr_equal dst (nipv4 nif)" by (simp add: d ipv4_addr_equal_def)
  have "drop_bit 4 (0x45 :: u8) = 4" "unat ((0x45 :: u8) AND 0x0F) * 4 = 20" by simp_all
  then show ?thesis
    unfolding ipv4_input_def i using f n c z e b(1,7) by (simp add: Let_def)
qed

text \<open>
  C20. What one host sends, another accepts: when the destination resolves, \<open>ipv4_output_framed\<close>
  puts exactly one frame on the wire, and the host with that address and MAC, receiving it with
  any Ethernet padding, hands exactly the payload to the protocol it was sent to, with source and
  destination address as sent.
\<close>

theorem ipv4_send_receive:
  assumes "interface s = Some nif" and "length (nmac nif) = 6" and "length (nipv4 nif) = 4" and "1500 \<le> unat (nmtu nif)"
    and "length dst = 4" and "length payload \<le> 1480" and "\<not> ipv4_dst_is_broadcast nif dst"
    and "ipv4_next_hop nif dst = Some hop" and "arp_lookup hop s = Some mac" and "length mac = 6"
    and "interface r = Some nif2" and "nipv4 nif2 = dst" and "nmac nif2 = mac"
    and "ipv4_output_framed payload dst proto s = (res, s')"
  shows "\<exists>frame. wire s' = wire s @ [frame] \<and> res = ntx nif (wire s) frame \<and> length frame = 34 + length payload \<and>
    (\<forall>pad. length frame + length pad \<le> ETH_FRAME_MAX \<longrightarrow>
       (\<exists>ip. hdr_src ip = nipv4 nif \<and> hdr_dst ip = dst \<and> eth_input (frame @ pad) r = ipv4_deliver proto ip payload r))"
proof -
  let ?hdr = "ipv4_header (of_nat (20 + length payload)) (ipv4_next_id s) proto (nipv4 nif) dst"
  let ?packet = "?hdr (inet_checksum (?hdr 0)) @ payload" and ?s1 = "s\<lparr>ipv4_next_id := ipv4_next_id s + 1\<rparr>"
  let ?frame = "mac @ nmac nif @ le16 (to_be16 ETH_TYPE_IPV4) @ ?packet"
  note hb = ipv4_header_bytes [OF assms(3,5)]
  have out: "ipv4_output_framed payload dst proto s = arp_send_or_queue hop ?packet ETH_TYPE_IPV4 ?s1"
    using assms(1,6-8) by (simp add: ipv4_output_framed_def Let_def)
  obtain e where e: "arp_find_locked (cache s) hop = Some e" "astate (cache s ! e) = ARP_VALID" "amac (cache s ! e) = mac"
    using assms(9) by (auto simp: arp_lookup_def split: option.splits if_splits)
  have "mac \<noteq> []" using assms(10) by auto
  then have "(res, s') = (ntx nif (wire s) ?frame, ?s1\<lparr>wire := wire s @ [?frame]\<rparr>)"
    using out assms(1,2,4,6,10,14) e hb(1)
    by (simp add: arp_send_or_queue_def eth_output_framed_def netif_tx_def)
  then have w: "wire s' = wire s @ [?frame]" "res = ntx nif (wire s) ?frame" by simp_all
  have "\<exists>ip. hdr_src ip = nipv4 nif \<and> hdr_dst ip = dst \<and> eth_input (?frame @ pad) r = ipv4_deliver proto ip payload r"
    if "length ?frame + length pad \<le> ETH_FRAME_MAX" for pad
  proof (intro exI conjI)
    have f: "?frame @ pad = (mac @ nmac nif) @ le16 (to_be16 ETH_TYPE_IPV4) @ ?packet @ pad" by simp
    have ty: "from_be16 (rd16 (?frame @ pad) 12) = ETH_TYPE_IPV4"
      unfolding f using assms(2,10) by (simp add: rd16_skip rd16_le16 be16_inverse)
    have dr: "drop 14 (?frame @ pad) = ?packet @ pad" unfolding f using assms(2,10) by simp
    have us: "eth_addressed_to_us nif2 (?frame @ pad)" using assms(10,13) by (simp add: eth_addressed_to_us_def)
    have "eth_input (?frame @ pad) r = ipv4_input (?packet @ pad) r"
      unfolding eth_input_def assms(11) option.case ty dr using that us assms(2,10) by (simp add: Let_def)
    then show "eth_input (?frame @ pad) r = ipv4_deliver proto (?packet @ pad) payload r"
      using ipv4_input_accepts [OF assms(11,3,5,12,6) refl] by simp
    show "hdr_src (?packet @ pad) = nipv4 nif" "hdr_dst (?packet @ pad) = dst" using hb(6,7) by simp_all
  qed
  moreover have "length ?frame = 34 + length payload" using assms(2,10) hb(1) by simp
  ultimately show ?thesis using w by blast
qed

definition nif_w :: netif where
  "nif_w = \<lparr>nmac = [2, 0, 0, 0, 0, 1], nipv4 = [10, 0, 2, 15], nnetmask = [255, 255, 255, 0], ngateway = [10, 0, 2, 2],
           nmtu = 1500, driver_data = 1, ntx = (\<lambda>_ _. 0)\<rparr>"

definition nif_v :: netif where
  "nif_v = nif_w\<lparr>nmac := [2, 0, 0, 0, 0, 2], nipv4 := [10, 0, 2, 2]\<rparr>"

definition net_0 :: "netif \<Rightarrow> net" where
  "net_0 nif = \<lparr>interface = Some nif, wire = [], pit_ticks = 0, pit_freq = 1000, ipv4_next_id = 0,
     cache = replicate 16 arp_zero, pending = replicate 4 \<lparr>in_use = False, pentry = 0, ptype = 0, ppayload = [], queued_at = 0\<rparr>,
     pings = replicate 4 \<lparr>iused = False, replied = False, iident = 0, iseq = 0, idst = replicate 4 0, sent_ticks = 0, reply_ticks = 0\<rparr>,
     socket_list = [], next_socket_id = 1, next_port = 32768, mem = [], brk = 1\<rparr>"

definition net_w :: net where
  "net_w = (net_0 nif_w)\<lparr>cache := \<lparr>aip = [10, 0, 2, 2], amac = [2, 0, 0, 0, 0, 2], astate = ARP_VALID, aretries = 0,
      adeadline = 120000\<rparr> # replicate 15 arp_zero\<rparr>"

lemma net_w_facts:
  "interface net_w = Some nif_w" "\<not> ipv4_dst_is_broadcast nif_w [10, 0, 2, 2]"
  "ipv4_next_hop nif_w [10, 0, 2, 2] = Some [10, 0, 2, 2]" "arp_lookup [10, 0, 2, 2] net_w = Some [2, 0, 0, 0, 0, 2]"
  "interface (net_0 nif_v) = Some nif_v" "wire net_w = []"
  by (simp_all add: net_w_def net_0_def nif_w_def ipv4_dst_is_broadcast_def ipv4_addr_equal_def ipv4_is_broadcast_def upt_conv_Cons
      ipv4_next_hop_def ipv4_same_subnet_def arp_lookup_def arp_find_locked_def)

theorem ipv4_send_receive_witness:
  "\<exists>frame. wire (snd (ipv4_output_framed [1, 2, 3] [10, 0, 2, 2] 17 net_w)) = [frame] \<and>
     (\<exists>ip. hdr_src ip = [10, 0, 2, 15] \<and> eth_input frame (net_0 nif_v) = ipv4_deliver 17 ip [1, 2, 3] (net_0 nif_v))"
proof -
  have l: "length (nmac nif_w) = 6" "length (nipv4 nif_w) = 4" "1500 \<le> unat (nmtu nif_w)" "nipv4 nif_w = [10, 0, 2, 15]"
    "nipv4 nif_v = [10, 0, 2, 2]" "nmac nif_v = [2, 0, 0, 0, 0, 2]" by (simp_all add: nif_w_def nif_v_def)
  obtain frame where f: "wire (snd (ipv4_output_framed [1, 2, 3] [10, 0, 2, 2] 17 net_w)) = [frame]" "length frame = 37"
    "\<And>pad. length frame + length pad \<le> ETH_FRAME_MAX \<Longrightarrow> (\<exists>ip. hdr_src ip = [10, 0, 2, 15] \<and> hdr_dst ip = [10, 0, 2, 2] \<and>
        eth_input (frame @ pad) (net_0 nif_v) = ipv4_deliver 17 ip [1, 2, 3] (net_0 nif_v))"
    using ipv4_send_receive [OF net_w_facts(1) l(1-3) _ _ net_w_facts(2-4) _ net_w_facts(5) l(5,6) surjective_pairing, of "[1, 2, 3]" 17]
      l(4) net_w_facts(6) by auto
  then show ?thesis using f(3) [of "[]"] by auto
qed

section \<open>The address cache\<close>

definition live :: "arp_entry \<Rightarrow> bool" where "live e \<longleftrightarrow> astate e \<noteq> ARP_FREE"

definition arp_inv :: "net \<Rightarrow> bool" where
  "arp_inv s \<longleftrightarrow> cache s \<noteq> [] \<and> pending s \<noteq> []
     \<and> (\<forall>i<length (cache s). \<forall>j<length (cache s). live (cache s ! i) \<longrightarrow> live (cache s ! j) \<longrightarrow>
          ipv4_addr_equal (aip (cache s ! i)) (aip (cache s ! j)) \<longrightarrow> i = j)
     \<and> (\<forall>p\<in>set (pending s). in_use p \<longrightarrow> pentry p < length (cache s) \<and> astate (cache s ! pentry p) = ARP_PENDING)"

lemma arp_invD:
  assumes "arp_inv s"
  shows "cache s \<noteq> []" "pending s \<noteq> []"
    and "i < length (cache s) \<Longrightarrow> j < length (cache s) \<Longrightarrow> live (cache s ! i) \<Longrightarrow> live (cache s ! j) \<Longrightarrow>
      ipv4_addr_equal (aip (cache s ! i)) (aip (cache s ! j)) \<Longrightarrow> i = j"
    and "p \<in> set (pending s) \<Longrightarrow> in_use p \<Longrightarrow> pentry p < length (cache s) \<and> astate (cache s ! pentry p) = ARP_PENDING"
  using assms unfolding arp_inv_def by blast+

lemma addr_equal_sym: "ipv4_addr_equal a b \<Longrightarrow> ipv4_addr_equal b a"
  by (simp add: ipv4_addr_equal_def)

lemma addr_equal_trans: "ipv4_addr_equal a b \<Longrightarrow> ipv4_addr_equal b c \<Longrightarrow> ipv4_addr_equal a c"
  by (simp add: ipv4_addr_equal_def)

lemma addr_equal_take [simp]: "ipv4_addr_equal (take 4 a) b = ipv4_addr_equal a b" "ipv4_addr_equal a (take 4 b) = ipv4_addr_equal a b"
  by (simp_all add: ipv4_addr_equal_def)

text \<open>Rewriting one slot of the cache, with the pool restricted to frames that still fit.\<close>

lemma arp_inv_slot:
  assumes inv: "arp_inv s" and e: "e < length (cache s)" and c: "cache s' = (cache s)[e := x]"
    and uniq: "live x \<Longrightarrow> (\<forall>j<length (cache s). j \<noteq> e \<longrightarrow> live (cache s ! j) \<longrightarrow> \<not> ipv4_addr_equal (aip x) (aip (cache s ! j)))"
    and pool: "pending s' \<noteq> []"
      "\<And>p. p \<in> set (pending s') \<Longrightarrow> in_use p \<Longrightarrow> pentry p = e \<and> astate x = ARP_PENDING \<or> pentry p \<noteq> e \<and> p \<in> set (pending s)"
  shows "arp_inv s'"
proof -
  note D = arp_invD [OF inv]
  have len: "length (cache s') = length (cache s)" by (simp add: c)
  have nth: "cache s' ! i = (if i = e then x else cache s ! i)" if "i < length (cache s)" for i using that e by (simp add: c nth_list_update)
  have "i = j" if h: "i < length (cache s)" "j < length (cache s)" "live (cache s' ! i)" "live (cache s' ! j)"
    "ipv4_addr_equal (aip (cache s' ! i)) (aip (cache s' ! j))" for i j
  proof (cases "i = e")
    case True
    then show ?thesis using h nth uniq by (auto split: if_splits)
  next
    case i: False
    show ?thesis
    proof (cases "j = e")
      case True
      then show ?thesis using h nth uniq i addr_equal_sym [OF h(5)] by (auto split: if_splits)
    next
      case False
      then show ?thesis using h nth i D(3) by auto
    qed
  qed
  moreover have "pentry p < length (cache s) \<and> astate (cache s' ! pentry p) = ARP_PENDING" if "p \<in> set (pending s')" "in_use p" for p
    using pool(2) [OF that] nth D(4) e that(2) by auto
  moreover have "cache s' \<noteq> []" using D(1) c by auto
  ultimately show ?thesis unfolding arp_inv_def len using pool(1) by blast
qed

lemma arp_inv_cong: "arp_inv s \<Longrightarrow> cache s' = cache s \<Longrightarrow> pending s' = pending s \<Longrightarrow> arp_inv s'"
  by (simp add: arp_inv_def)

lemma find_None_live:
  "arp_find_locked c ip = None \<longleftrightarrow> (\<forall>j<length c. live (c ! j) \<longrightarrow> \<not> ipv4_addr_equal (aip (c ! j)) ip)"
  by (auto simp: arp_find_locked_def find_None_iff live_def)

lemma find_Some_live:
  "arp_find_locked c ip = Some e \<Longrightarrow> e < length c \<and> live (c ! e) \<and> ipv4_addr_equal (aip (c ! e)) ip"
  by (auto simp: arp_find_locked_def find_Some_iff live_def)

lemma find_unique:
  assumes "arp_inv s" "e < length (cache s)" "live (cache s ! e)" "ipv4_addr_equal (aip (cache s ! e)) ip"
  shows "arp_find_locked (cache s) ip = Some e"
proof -
  obtain i where i: "arp_find_locked (cache s) ip = Some i"
    using assms(2-4) find_None_live [of "cache s" ip] by (cases "arp_find_locked (cache s) ip") auto
  from find_Some_live [OF i] have "i = e"
    using arp_invD(3) [OF assms(1), of i e] assms(2-4) addr_equal_trans addr_equal_sym by blast
  then show ?thesis using i by simp
qed

lemma arp_scan_range:
  "arp_scan c is v = (f, i) \<Longrightarrow> set is \<subseteq> {..<length c} \<Longrightarrow> v < length c \<Longrightarrow> i < length c \<and> (f \<longrightarrow> astate (c ! i) = ARP_FREE)"
  by (induction "is" arbitrary: v) (auto split: if_splits)

lemma parked_drop: "p \<in> set (arp_drop_pending_locked e ps) \<Longrightarrow> in_use p \<Longrightarrow> p \<in> set ps \<and> pentry p \<noteq> e"
  by (auto simp: arp_drop_pending_locked_def split: if_splits)

lemma arp_alloc_effect:
  assumes inv: "arp_inv s" and a: "arp_alloc_locked s = (e, s1)"
  shows "e < length (cache s)" "arp_inv s1" "astate (cache s1 ! e) = ARP_FREE" "length (cache s1) = length (cache s)"
    "p \<in> set (pending s1) \<Longrightarrow> in_use p \<Longrightarrow> pentry p \<noteq> e"
    "j < length (cache s) \<Longrightarrow> j \<noteq> e \<Longrightarrow> cache s1 ! j = cache s ! j" "interface s1 = interface s" "wire s1 = wire s"
    "pit_ticks s1 = pit_ticks s" "pit_freq s1 = pit_freq s"
proof -
  note D = arp_invD [OF inv]
  obtain f i where sc: "arp_scan (cache s) [0..<length (cache s)] 0 = (f, i)" by fastforce
  have i: "i < length (cache s)" "f \<Longrightarrow> astate (cache s ! i) = ARP_FREE"
    using arp_scan_range [OF sc] D(1) by (auto simp: atLeast0LessThan)
  have e: "e = i" "s1 = (if f then s else s\<lparr>pending := arp_drop_pending_locked i (pending s), cache := (cache s)[i := arp_zero]\<rparr>)"
    using a sc by (auto simp: arp_alloc_locked_def split: if_splits)
  show "e < length (cache s)" "length (cache s1) = length (cache s)" "interface s1 = interface s" "wire s1 = wire s"
    "pit_ticks s1 = pit_ticks s" "pit_freq s1 = pit_freq s" using i e by simp_all
  show "astate (cache s1 ! e) = ARP_FREE" using i e by (simp add: arp_zero_def)
  show "j < length (cache s) \<Longrightarrow> j \<noteq> e \<Longrightarrow> cache s1 ! j = cache s ! j" using e by simp
  show "p \<in> set (pending s1) \<Longrightarrow> in_use p \<Longrightarrow> pentry p \<noteq> e"
    using e i(2) D(4) parked_drop [of p i "pending s"] by (auto split: if_splits)
  show "arp_inv s1"
  proof (cases f)
    case False
    have "arp_inv (s\<lparr>pending := arp_drop_pending_locked i (pending s), cache := (cache s)[i := arp_zero]\<rparr>)"
    proof (rule arp_inv_slot [OF inv i(1)])
      show "pending (s\<lparr>pending := arp_drop_pending_locked i (pending s), cache := (cache s)[i := arp_zero]\<rparr>) \<noteq> []"
        using D(2) by (simp add: arp_drop_pending_locked_def)
    qed (auto simp: arp_zero_def live_def dest: parked_drop)
    then show ?thesis using e False by simp
  qed (use e inv in simp)
qed

lemma pending_scan_range: "set is \<subseteq> {..<n} \<Longrightarrow> v < n \<Longrightarrow> pending_scan ps is v < n"
  by (induction "is" arbitrary: v) auto

lemma arp_park_effect:
  assumes inv: "arp_inv s" and e: "e < length (cache s)" "astate (cache s ! e) = ARP_PENDING"
  shows "arp_inv (arp_park e payload type s)"
proof -
  note D = arp_invD [OF inv]
  have i: "arp_pending_alloc_locked (pending s) < length (pending s)"
    unfolding arp_pending_alloc_locked_def using D(2) by (intro pending_scan_range) auto
  have "pentry q < length (cache s) \<and> astate (cache s ! pentry q) = ARP_PENDING"
    if q: "q \<in> set (pending (arp_park e payload type s))" "in_use q" for q
  proof -
    have "q \<in> insert \<lparr>in_use = True, pentry = e, ptype = type, ppayload = payload, queued_at = pit_ticks s\<rparr> (set (pending s))"
      using q(1) set_update_subset_insert unfolding arp_park_def by fastforce
    then show ?thesis using e D(4) q(2) by auto
  qed
  then show ?thesis
    using D unfolding arp_inv_def by (simp add: arp_park_def)
qed

lemma eth_out:
  "snd (eth_output_framed p d t s) = s\<lparr>wire := wire s @ (case interface s of None \<Rightarrow> [] | Some nif \<Rightarrow>
     if length p > unat (nmtu nif) then [] else [take 6 d @ take 6 (nmac nif) @ le16 (to_be16 t) @ p])\<rparr>"
  by (auto simp: eth_output_framed_def netif_tx_def le16_def split: option.splits)

lemma arp_request_keeps [simp]:
  "cache (arp_request ip s) = cache s" "pending (arp_request ip s) = pending s" "interface (arp_request ip s) = interface s"
  by (simp_all add: arp_request_def eth_output_def split: option.splits)

text \<open>What a flush puts on the wire and what it leaves in the pool.\<close>

definition frames_for :: "netif option \<Rightarrow> bytes \<Rightarrow> arp_pending \<Rightarrow> bytes list" where
  "frames_for nif mac p = (case nif of None \<Rightarrow> [] | Some nif \<Rightarrow>
     if length (ppayload p) > unat (nmtu nif) then [] else [take 6 mac @ take 6 (nmac nif) @ le16 (to_be16 (ptype p)) @ ppayload p])"

definition unpark :: "nat \<Rightarrow> arp_pending \<Rightarrow> arp_pending" where
  "unpark e p = (if parked e p then p\<lparr>in_use := False\<rparr> else p)"

lemma find_first_split:
  assumes "find (\<lambda>i. P (xs ! i)) [0..<length xs] = Some i"
  shows "\<exists>us vs. xs = us @ xs ! i # vs \<and> length us = i \<and> P (xs ! i) \<and> (\<forall>u\<in>set us. \<not> P u)"
proof -
  have i: "i < length xs" "P (xs ! i)" "\<forall>j<i. \<not> P (xs ! j)" using assms by (auto simp: find_Some_iff)
  then have "xs = take i xs @ xs ! i # drop (Suc i) xs" by (simp add: id_take_nth_drop)
  then show ?thesis using i by (intro exI [of _ "take i xs"] exI [of _ "drop (Suc i) xs"]) (auto simp: in_set_conv_nth)
qed

lemma arp_flush_effect:
  "arp_flush_pending e mac s = s\<lparr>pending := map (unpark e) (pending s),
     wire := wire s @ concat (map (frames_for (interface s) mac) (filter (parked e) (pending s)))\<rparr>"
proof (induction e mac s rule: arp_flush_pending.induct)
  case (1 e mac s)
  show ?case
  proof (cases "find (\<lambda>i. parked e (pending s ! i)) [0..<length (pending s)]")
    case None
    then have n: "\<forall>p\<in>set (pending s). \<not> parked e p" by (auto simp: find_None_iff in_set_conv_nth)
    then have "map (unpark e) (pending s) = pending s" "filter (parked e) (pending s) = []"
      by (auto simp: unpark_def map_idI filter_empty_conv)
    then show ?thesis using None by (subst arp_flush_pending.simps) simp
  next
    case (Some i)
    let ?p = "pending s ! i" and ?q = "(pending s ! i)\<lparr>in_use := False\<rparr>"
    obtain us vs where sp: "pending s = us @ ?p # vs" "length us = i" "parked e ?p" "\<forall>u\<in>set us. \<not> parked e u"
      using find_first_split [OF Some] by blast
    let ?s1 = "s\<lparr>pending := (pending s)[i := ?q]\<rparr>" and ?o = "frames_for (interface s) mac ?p"
    have s2: "snd (eth_output_framed (ppayload ?p) mac (ptype ?p) ?s1) = ?s1\<lparr>wire := wire s @ ?o\<rparr>"
      by (simp add: eth_out frames_for_def)
    have upd: "(pending s)[i := ?q] = us @ ?q # vs" by (subst sp(1)) (simp add: sp(2) list_update_append)
    have np: "\<not> parked e ?q" by (simp add: parked_def)
    have f: "arp_flush_pending e mac s = arp_flush_pending e mac (?s1\<lparr>wire := wire s @ ?o\<rparr>)"
      using Some s2 by (subst arp_flush_pending.simps) (simp add: Let_def)
    have "map (unpark e) (us @ ?q # vs) = map (unpark e) (us @ ?p # vs)" using np sp(3) by (simp add: unpark_def)
    moreover have "filter (parked e) (us @ ?p # vs) = ?p # filter (parked e) (us @ ?q # vs)"
      using sp(3,4) np by (simp add: filter_empty_conv)
    ultimately show ?thesis
      unfolding f using 1 [OF Some refl refl] s2 upd sp(1) by simp
  qed
qed

lemma unpark_in_use: "p \<in> set (map (unpark e) ps) \<Longrightarrow> in_use p \<Longrightarrow> p \<in> set ps \<and> pentry p \<noteq> e"
  by (auto simp: unpark_def parked_def split: if_splits)

lemma arp_learn_found:
  assumes inv: "arp_inv s" and f: "arp_find_locked (cache s) ip = Some e"
  shows "arp_learn ip mac c s = arp_flush_pending e mac (s\<lparr>cache := (cache s)[e := \<lparr>aip = take 4 ip, amac = take 6 mac,
      astate = ARP_VALID, aretries = 0, adeadline = arp_deadline s 120000\<rparr>]\<rparr>)"
    and "arp_inv (arp_learn ip mac c s)"
proof -
  let ?x = "\<lparr>aip = take 4 ip, amac = take 6 mac, astate = ARP_VALID, aretries = 0, adeadline = arp_deadline s 120000\<rparr>"
  show l: "arp_learn ip mac c s = arp_flush_pending e mac (s\<lparr>cache := (cache s)[e := ?x]\<rparr>)"
    by (simp add: arp_learn_def f)
  note e = find_Some_live [OF f]
  show "arp_inv (arp_learn ip mac c s)" unfolding l arp_flush_effect
  proof (rule arp_inv_slot [OF inv, of e _ ?x])
    show "\<forall>j<length (cache s). j \<noteq> e \<longrightarrow> live (cache s ! j) \<longrightarrow> \<not> ipv4_addr_equal (aip ?x) (aip (cache s ! j))"
      using arp_invD(3) [OF inv, of e] e addr_equal_trans by auto
  qed (use e arp_invD(2) [OF inv] in \<open>auto dest: unpark_in_use simp: unpark_def parked_def split: if_splits\<close>)
qed

lemma arp_learn_inv:
  assumes inv: "arp_inv s" shows "arp_inv (arp_learn ip mac c s)"
proof (cases "arp_find_locked (cache s) ip")
  case (Some e)
  then show ?thesis by (rule arp_learn_found(2) [OF inv])
next
  case None
  show ?thesis
  proof (cases c)
    case False
    then show ?thesis using inv None by (simp add: arp_learn_def)
  next
    case True
    obtain e s1 where a: "arp_alloc_locked s = (e, s1)" by fastforce
    note E = arp_alloc_effect [OF inv a]
    let ?x = "\<lparr>aip = take 4 ip, amac = take 6 mac, astate = ARP_VALID, aretries = 0, adeadline = arp_deadline s1 120000\<rparr>"
    have l: "arp_learn ip mac c s = arp_flush_pending e mac (s1\<lparr>cache := (cache s1)[e := ?x]\<rparr>)"
      using None True a by (simp add: arp_learn_def)
    show ?thesis unfolding l arp_flush_effect
    proof (rule arp_inv_slot [OF E(2), of e _ ?x])
      show "\<forall>j<length (cache s1). j \<noteq> e \<longrightarrow> live (cache s1 ! j) \<longrightarrow> \<not> ipv4_addr_equal (aip ?x) (aip (cache s1 ! j))"
        using None E(4,6) addr_equal_sym by (auto simp: find_None_live)
    qed (use E(1,4,5) arp_invD(2) [OF E(2)] in \<open>auto simp: unpark_def parked_def split: if_splits\<close>)
  qed
qed

lemma arp_send_or_queue_inv:
  assumes inv: "arp_inv s" and q: "arp_send_or_queue ip payload type s = (r, s')"
  shows "arp_inv s'"
proof (cases "interface s = None \<or> ETH_FRAME_MAX < ETH_HDR_LEN + length payload")
  case True
  then have "arp_send_or_queue ip payload type s = (-1, s)"
    by (elim disjE) (simp_all add: arp_send_or_queue_def)
  then show ?thesis using q inv by simp
next
  case False
  then obtain nif where ok: "interface s = Some nif" "\<not> ETH_FRAME_MAX < ETH_HDR_LEN + length payload" by auto
  show ?thesis
  proof (cases "arp_find_locked (cache s) ip")
    case (Some e)
    note e = find_Some_live [OF Some]
    show ?thesis
    proof (cases "astate (cache s ! e) = ARP_VALID")
      case True
      then have "s' = snd (eth_output_framed payload (amac (cache s ! e)) type s)"
        using q ok Some by (simp add: arp_send_or_queue_def)
      then show ?thesis using inv by (auto intro: arp_inv_cong)
    next
      case False
      then have "s' = arp_park e payload type s" "astate (cache s ! e) = ARP_PENDING"
        using q ok Some e by (auto simp: arp_send_or_queue_def live_def intro: arp_state.exhaust)
      then show ?thesis using arp_park_effect [OF inv] e by simp
    qed
  next
    case None
    obtain e s1 where a: "arp_alloc_locked s = (e, s1)" by fastforce
    note E = arp_alloc_effect [OF inv a]
    let ?x = "(cache s1 ! e)\<lparr>aip := take 4 ip, astate := ARP_PENDING, aretries := 0, adeadline := arp_deadline s 1000\<rparr>"
    let ?s2 = "s1\<lparr>cache := (cache s1)[e := ?x]\<rparr>"
    have s': "s' = arp_request ip (arp_park e payload type ?s2)"
      using q ok None a by (simp add: arp_send_or_queue_def)
    have "arp_inv ?s2"
    proof (rule arp_inv_slot [OF E(2), of e _ ?x])
      show "\<forall>j<length (cache s1). j \<noteq> e \<longrightarrow> live (cache s1 ! j) \<longrightarrow> \<not> ipv4_addr_equal (aip ?x) (aip (cache s1 ! j))"
        using None E(4,6) addr_equal_sym by (auto simp: find_None_live)
    qed (use E(1,4,5) arp_invD(2) [OF E(2)] in auto)
    then have "arp_inv (arp_park e payload type ?s2)" using E(1,4) by (intro arp_park_effect) simp_all
    then show ?thesis unfolding s' by (rule arp_inv_cong) simp_all
  qed
qed

lemma arp_tick_entry_inv:
  assumes inv: "arp_inv s" and i: "i < length (cache s)" and t: "arp_tick_entry i (s, rs) = (s', rs')"
  shows "arp_inv s'" "length (cache s') = length (cache s)"
proof -
  let ?e = "cache s ! i"
  note D = arp_invD [OF inv]
  have uniq: "\<forall>j<length (cache s). j \<noteq> i \<longrightarrow> live (cache s ! j) \<longrightarrow> \<not> ipv4_addr_equal (aip ?e) (aip (cache s ! j))" if "live ?e"
    using D(3) [of i] i that by blast
  consider "s' = s" | "astate ?e = ARP_VALID" "s' = s\<lparr>cache := (cache s)[i := ?e\<lparr>astate := ARP_FREE\<rparr>]\<rparr>"
    | "s' = s\<lparr>pending := arp_drop_pending_locked i (pending s), cache := (cache s)[i := arp_zero]\<rparr>"
    | "astate ?e = ARP_PENDING" "s' = s\<lparr>cache := (cache s)[i := ?e\<lparr>aretries := aretries ?e + 1, adeadline := arp_deadline s 1000\<rparr>]\<rparr>"
    using t by (cases "astate ?e") (auto simp: arp_tick_entry_def Let_def split: if_splits)
  then show "arp_inv s'"
  proof cases
    case 1
    then show ?thesis using inv by simp
  next
    case 2
    show ?thesis unfolding 2(2)
    proof (rule arp_inv_slot [OF inv i, of _ "?e\<lparr>astate := ARP_FREE\<rparr>"])
      fix p assume "p \<in> set (pending (s\<lparr>cache := (cache s)[i := ?e\<lparr>astate := ARP_FREE\<rparr>]\<rparr>))" "in_use p"
      then show "pentry p = i \<and> astate (?e\<lparr>astate := ARP_FREE\<rparr>) = ARP_PENDING \<or> pentry p \<noteq> i \<and> p \<in> set (pending s)"
        using D(4) [of p] 2(1) by auto
    qed (use D(2) in \<open>simp_all add: live_def\<close>)
  next
    case 3
    show ?thesis unfolding 3
      by (rule arp_inv_slot [OF inv i, of _ arp_zero])
        (use D(2) in \<open>auto simp: live_def arp_zero_def arp_drop_pending_locked_def split: if_splits\<close>)
  next
    case 4
    show ?thesis unfolding 4(2)
      by (rule arp_inv_slot [OF inv i, of _ "?e\<lparr>aretries := aretries ?e + 1, adeadline := arp_deadline s 1000\<rparr>"])
        (use D(2) uniq 4(1) in \<open>auto simp: live_def\<close>)
  qed
  show "length (cache s') = length (cache s)"
    using t by (auto simp: arp_tick_entry_def Let_def split: if_splits)
qed

lemma arp_tick_inv:
  assumes inv: "arp_inv s" shows "arp_inv (arp_tick s)"
proof (cases "interface s = None")
  case False
  have step: "arp_inv (fst (fold arp_tick_entry is (s, rs)))" if "arp_inv s" "set is \<subseteq> {..<length (cache s)}" for "is" s rs
    using that
  proof (induction "is" arbitrary: s rs)
    case (Cons i "is")
    obtain s' rs' where t: "arp_tick_entry i (s, rs) = (s', rs')" by fastforce
    then show ?case using Cons.IH [of s' rs'] arp_tick_entry_inv [OF Cons.prems(1) _ t] Cons.prems(2) by simp
  qed simp
  have ask: "cache (fold arp_request rs s) = cache s \<and> pending (fold arp_request rs s) = pending s" for rs s
    by (induction rs arbitrary: s) simp_all
  obtain s1 rs where f: "fold arp_tick_entry [0..<length (cache s)] (s, []) = (s1, rs)" by fastforce
  have "arp_inv s1" using step [OF inv, of "[0..<length (cache s)]" "[]"] f by (simp add: atLeast0LessThan)
  then show ?thesis using ask [of rs s1] f False by (auto simp: arp_tick_def intro: arp_inv_cong)
qed (use inv in \<open>simp add: arp_tick_def\<close>)

lemma arp_flush_inv: "arp_inv s \<Longrightarrow> arp_inv (arp_flush s)"
  by (auto simp: arp_inv_def arp_flush_def live_def arp_zero_def)

lemma arp_input_inv:
  assumes inv: "arp_inv s" shows "arp_inv (arp_input src pkt s)"
proof -
  have "arp_inv (snd (eth_output d t p s'))" if "arp_inv s'" for d t p s'
    using that by (rule arp_inv_cong) (simp_all add: eth_output_def)
  then show ?thesis
    using inv arp_learn_inv [OF inv] by (simp add: arp_input_def Let_def split: option.split)
qed

lemma ipv4_output_framed_inv:
  assumes inv: "arp_inv s" and o: "ipv4_output_framed payload dst proto s = (r, s')"
  shows "arp_inv s'"
proof -
  have i: "arp_inv (s\<lparr>ipv4_next_id := k\<rparr>)" for k using inv by (rule arp_inv_cong) simp_all
  have e: "arp_inv s''" if "eth_output_framed p d t (s\<lparr>ipv4_next_id := k\<rparr>) = (r', s'')" for p d t k r' s''
    using that i [of k] eth_output_framed_keeps(1,2) [of p d t "s\<lparr>ipv4_next_id := k\<rparr>"] by (auto intro: arp_inv_cong)
  show ?thesis
    using o inv i e arp_send_or_queue_inv [OF i]
    by (auto simp: ipv4_output_framed_def Let_def split: option.splits if_splits)
qed

lemma socket_keeps [simp]:
  "cache (socket_handle_incoming a b c d e f s) = cache s" "pending (socket_handle_incoming a b c d e f s) = pending s"
  by (simp_all add: socket_handle_incoming_def kmalloc_ok_def update_socket_def Let_def split: option.split list.split prod.split)

lemma eth_input_inv:
  assumes inv: "arp_inv s" shows "arp_inv (eth_input frame s)"
proof -
  have o: "arp_inv (snd (ipv4_output_framed p d t s))" for p d t
    using ipv4_output_framed_inv [OF inv surjective_pairing] .
  have q: "arp_inv (icmp_echo_reply_input a b s)" for a b
    using inv by (rule arp_inv_cong) (simp_all add: icmp_echo_reply_input_def Let_def split: option.split)
  have h: "arp_inv (socket_handle_incoming a b c d e f s)" for a b c d e f
    using inv by (rule arp_inv_cong) simp_all
  have d: "arp_inv (ipv4_deliver p a b s)" for p a b
    using inv o q h by (simp add: ipv4_deliver_def icmp_input_def icmp_echo_request_input_def udp_input_def tcp_input_def Let_def)
  have "arp_inv (ipv4_input p s)" for p
    using inv d by (simp add: ipv4_input_def Let_def split: option.split)
  then show ?thesis
    using inv arp_input_inv [OF inv] by (simp add: eth_input_def Let_def split: option.split)
qed

text \<open>
  The histories of the stack: frames arriving, time passing, the maintenance tick, address changes
  and everything a task may ask for.
\<close>

inductive net_reach :: "net \<Rightarrow> bool" where
  boot: "net_reach (net_0 nif)"
| register: "net_reach s \<Longrightarrow> net_reach (netif_register nif s)"
| unregister: "net_reach s \<Longrightarrow> net_reach (netif_unregister d s)"
| address: "net_reach s \<Longrightarrow> net_reach (netif_set_ipv4 a b c s)"
| receive: "net_reach s \<Longrightarrow> net_reach (eth_input frame s)"
| clock: "net_reach s \<Longrightarrow> net_reach (s\<lparr>pit_ticks := pit_ticks s + 1\<rparr>)"
| tick: "net_reach s \<Longrightarrow> net_reach (arp_tick s)"
| flush: "net_reach s \<Longrightarrow> net_reach (arp_flush s)"
| announce: "net_reach s \<Longrightarrow> net_reach (arp_announce s)"
| prime: "net_reach s \<Longrightarrow> net_reach (arp_prime_gateway s)"
| udp: "net_reach s \<Longrightarrow> net_reach (snd (udp_output dst sp dp payload s))"
| ping: "net_reach s \<Longrightarrow> net_reach (snd (icmp_ping_send dst ident seq s))"
| poll: "net_reach s \<Longrightarrow> net_reach (snd (icmp_ping_poll slot timeout start s))"
| create: "net_reach s \<Longrightarrow> net_reach (snd (socket_create type proto s))"
| bind: "net_reach s \<Longrightarrow> net_reach (snd (socket_bind p addr s))"
| sendto: "net_reach s \<Longrightarrow> net_reach (snd (socket_sendto p buf dest s))"
| recvfrom: "net_reach s \<Longrightarrow> net_reach (snd (socket_recvfrom p len nonblock s))"
| close: "net_reach s \<Longrightarrow> net_reach (socket_close p s)"
| port: "net_reach s \<Longrightarrow> net_reach (snd (socket_alloc_ephemeral_port s))"
| memory: "net_reach s \<Longrightarrow> net_reach (s\<lparr>mem := bs\<rparr>)"

lemma ipv4_output_inv: "arp_inv s \<Longrightarrow> arp_inv (snd (ipv4_output d t p s))"
  using ipv4_output_framed_inv [OF _ surjective_pairing, of s p d t] by (simp add: ipv4_output_def)

lemma net_reach_arp: "net_reach s \<Longrightarrow> arp_inv s"
proof (induction rule: net_reach.induct)
  case (boot nif)
  then show ?case by (auto simp: arp_inv_def net_0_def live_def arp_zero_def)
next
  case (ping s dst ident seq)
  have "arp_inv (snd (ipv4_output_framed p d t (s\<lparr>pings := q\<rparr>)))" for p d t q
    using ipv4_output_framed_inv [OF _ surjective_pairing] ping.IH arp_inv_cong by fastforce
  moreover have "arp_inv (icmp_session_release k s')" if "arp_inv s'" for k s'
    using that by (rule arp_inv_cong) (simp_all add: icmp_session_release_def)
  ultimately show ?case
    using ping.IH by (auto simp: icmp_ping_send_def Let_def split: option.split prod.split) (metis snd_conv)+
next
  case (sendto s p buf dest)
  have "arp_inv (snd (ipv4_output d t q (snd (kmalloc_ok (update_socket p f s)))))" for d t q f
    by (rule ipv4_output_inv) (rule arp_inv_cong [OF sendto.IH], simp_all add: kmalloc_ok_def update_socket_def split: list.split)
  moreover have "arp_inv (snd (kmalloc_ok (update_socket p f s)))" for f
    by (rule arp_inv_cong [OF sendto.IH]) (simp_all add: kmalloc_ok_def update_socket_def split: list.split)
  ultimately show ?case
    using sendto.IH by (auto simp: socket_sendto_def Let_def split: option.split prod.split) (metis snd_conv)+
qed (auto intro: arp_inv_cong eth_input_inv arp_tick_inv arp_flush_inv ipv4_output_inv
    simp: netif_register_def netif_unregister_def netif_set_ipv4_def arp_announce_def arp_prime_gateway_def eth_output_def
      udp_output_def icmp_ping_poll_def icmp_session_release_def socket_create_def kmalloc_ok_def socket_bind_def
      update_socket_def socket_recvfrom_def socket_close_def socket_alloc_ephemeral_port_def Let_def
    split: option.split list.split prod.split)

text \<open>
  C21. In every reachable state of the stack no two live cache entries are for the same address and
  every parked frame waits on an entry that is still being resolved, so no frame is ever parked
  behind an entry that could not release it.
\<close>

theorem arp_cache_consistent:
  assumes "net_reach s"
  shows "(\<forall>i<length (cache s). \<forall>j<length (cache s). astate (cache s ! i) \<noteq> ARP_FREE \<longrightarrow> astate (cache s ! j) \<noteq> ARP_FREE \<longrightarrow>
           ipv4_addr_equal (aip (cache s ! i)) (aip (cache s ! j)) \<longrightarrow> i = j)
    \<and> (\<forall>p\<in>set (pending s). in_use p \<longrightarrow> pentry p < length (cache s) \<and> astate (cache s ! pentry p) = ARP_PENDING)"
  using net_reach_arp [OF assms] unfolding arp_inv_def live_def by blast

text \<open>
  C22. When the answer for an address under resolution arrives, every frame parked for it leaves the
  pool and goes on the wire addressed to the learned MAC, in pool order, no other parked frame is
  touched, and the address resolves to that MAC from then on.
\<close>

theorem arp_reply_releases:
  assumes "net_reach s" and "interface s = Some nif" and "arp_find_locked (cache s) ip = Some e" and "length mac = 6"
    and "\<forall>p\<in>set (pending s). length (ppayload p) \<le> unat (nmtu nif)" and "s' = arp_learn ip mac may_create s"
  shows "wire s' = wire s @ map (\<lambda>p. mac @ take 6 (nmac nif) @ le16 (to_be16 (ptype p)) @ ppayload p)
                             (filter (\<lambda>p. in_use p \<and> pentry p = e) (pending s))
    \<and> pending s' = map (\<lambda>p. if in_use p \<and> pentry p = e then p\<lparr>in_use := False\<rparr> else p) (pending s)
    \<and> arp_lookup ip s' = Some mac"
proof -
  note inv = net_reach_arp [OF assms(1)]
  have c: "concat (map (frames_for (Some nif) mac) ps) = map (\<lambda>p. mac @ take 6 (nmac nif) @ le16 (to_be16 (ptype p)) @ ppayload p) ps"
    if "set ps \<subseteq> set (pending s)" for ps
    using that by (induction ps) (auto simp: frames_for_def assms(4,5) dest: bspec [OF assms(5)])
  let ?x = "\<lparr>aip = take 4 ip, amac = take 6 mac, astate = ARP_VALID, aretries = 0, adeadline = arp_deadline s 120000\<rparr>"
  have s': "s' = (s\<lparr>cache := (cache s)[e := ?x]\<rparr>)\<lparr>pending := map (unpark e) (pending s),
      wire := wire s @ concat (map (frames_for (interface s) mac) (filter (parked e) (pending s)))\<rparr>"
    unfolding assms(6) arp_learn_found(1) [OF inv assms(3)] arp_flush_effect by simp
  have e: "e < length (cache s)" using find_Some_live [OF assms(3)] by blast
  have "arp_inv s'" unfolding assms(6) by (rule arp_learn_inv [OF inv])
  then have "arp_find_locked (cache s') ip = Some e"
    by (rule find_unique) (use e in \<open>simp_all add: s' live_def ipv4_addr_equal_def\<close>)
  then have "arp_lookup ip s' = Some mac" using e assms(4) by (simp add: arp_lookup_def s')
  moreover have "filter (parked e) (pending s) = filter (\<lambda>p. in_use p \<and> pentry p = e) (pending s)"
    by (rule arg_cong [of _ _ "\<lambda>f. filter f (pending s)"]) (auto simp: parked_def)
  ultimately show ?thesis using c [of "filter (parked e) (pending s)"] assms(2)
    by (simp add: s' unpark_def parked_def)
qed

lemma scan_0: "arp_scan (replicate 16 arp_zero) [0..<16] 0 = (True, 0)"
  by (simp add: upt_conv_Cons arp_zero_def)

lemma first_miss:
  assumes "cache s = replicate 16 arp_zero" "interface s = Some nif" "length payload \<le> 1500"
    and "pending s = replicate 4 p0" "\<not> in_use p0" "pit_ticks s = 0" "pit_freq s = 1000"
  shows "\<exists>w. arp_send_or_queue ip payload type s = (1, s\<lparr>cache := (replicate 16 arp_zero)[0 := arp_zero\<lparr>aip := take 4 ip, astate := ARP_PENDING,
      aretries := 0, adeadline := 1000\<rparr>], pending := \<lparr>in_use = True, pentry = 0, ptype = type, ppayload = payload, queued_at = 0\<rparr> # replicate 3 p0,
      wire := w\<rparr>)"
proof -
  have f: "arp_find_locked (cache s) ip = None" by (simp add: find_None_live assms(1) live_def arp_zero_def)
  have a: "arp_alloc_locked s = (0, s)" using scan_0 by (simp add: arp_alloc_locked_def assms(1))
  have p: "arp_pending_alloc_locked (pending s) = 0" by (simp add: arp_pending_alloc_locked_def assms(4,5) upt_conv_Cons)
  have d: "arp_deadline s 1000 = 1000" by (simp add: arp_deadline_def assms(6,7))
  have q: "(pending s)[0 := x] = x # replicate 3 p0" for x by (simp add: assms(4) numeral_eq_Suc)
  have r: "\<exists>w. arp_request ip s' = s'\<lparr>wire := w\<rparr>" if "interface s' = Some nif" for s'
    using that by (auto simp: arp_request_def eth_output_def eth_out intro: exI [of _ "wire s'"])
  let ?s3 = "s\<lparr>cache := (replicate 16 arp_zero)[0 := arp_zero\<lparr>aip := take 4 ip, astate := ARP_PENDING, aretries := 0, adeadline := 1000\<rparr>],
    pending := \<lparr>in_use = True, pentry = 0, ptype = type, ppayload = payload, queued_at = 0\<rparr> # replicate 3 p0\<rparr>"
  have "arp_send_or_queue ip payload type s = (1, arp_request ip ?s3)"
    using f a assms(2,3) by (simp add: arp_send_or_queue_def arp_park_def d p q assms(1,6))
  then show ?thesis using r [of ?s3] assms(2) by auto
qed

definition net_u :: net where
  "net_u = snd (udp_output [10, 0, 2, 2] 1 2 [7] (net_0 nif_w))"

lemma net_u_facts:
  "net_reach net_u" "interface net_u = Some nif_w" "arp_find_locked (cache net_u) [10, 0, 2, 2] = Some 0"
  "\<exists>p. pending net_u = p # replicate 3 \<lparr>in_use = False, pentry = 0, ptype = 0, ppayload = [], queued_at = 0\<rparr> \<and> in_use p \<and> pentry p = 0
     \<and> ptype p = 0x0800 \<and> length (ppayload p) = 29"
proof -
  show "net_reach net_u" unfolding net_u_def by (rule net_reach.udp [OF net_reach.boot])
  have b: "\<not> ipv4_dst_is_broadcast nif_w [10, 0, 2, 2]" "ipv4_next_hop nif_w [10, 0, 2, 2] = Some [10, 0, 2, 2]"
    using net_w_facts(2,3) by simp_all
  let ?c = "udp_checksum (nipv4 nif_w) [10, 0, 2, 2] (udp_segment 1 2 [7] 0)"
  let ?seg = "udp_segment 1 2 [7] (if ?c = 0 then 0xFFFF else ?c)"
  let ?hdr = "ipv4_header (of_nat (20 + length ?seg)) 0 17 (nipv4 nif_w) [10, 0, 2, 2]"
  let ?packet = "?hdr (inet_checksum (?hdr 0)) @ ?seg" and ?s1 = "(net_0 nif_w)\<lparr>ipv4_next_id := 1\<rparr>"
  have l: "length ?seg = 9" "length (nipv4 nif_w) = 4" by (simp_all add: udp_segment_def nif_w_def)
  have pl: "length ?packet = 29" using l ipv4_header_bytes(1) [of "nipv4 nif_w" "[10, 0, 2, 2]"] by simp
  have u: "udp_output [10, 0, 2, 2] 1 2 [7] (net_0 nif_w) = arp_send_or_queue [10, 0, 2, 2] ?packet ETH_TYPE_IPV4 ?s1"
    using l(1) b by (simp add: udp_output_def ipv4_output_def ipv4_output_framed_def Let_def net_0_def)
  obtain w where w: "net_u = ?s1\<lparr>cache := (replicate 16 arp_zero)[0 := arp_zero\<lparr>aip := [10, 0, 2, 2], astate := ARP_PENDING,
      aretries := 0, adeadline := 1000\<rparr>], pending := \<lparr>in_use = True, pentry = 0, ptype = ETH_TYPE_IPV4, ppayload = ?packet, queued_at = 0\<rparr>
        # replicate 3 \<lparr>in_use = False, pentry = 0, ptype = 0, ppayload = [], queued_at = 0\<rparr>, wire := w\<rparr>"
    using first_miss [of ?s1 nif_w ?packet "\<lparr>in_use = False, pentry = 0, ptype = 0, ppayload = [], queued_at = 0\<rparr>" "[10, 0, 2, 2]" ETH_TYPE_IPV4]
      pl u by (auto simp: net_u_def net_0_def)
  show "interface net_u = Some nif_w" by (simp add: w net_0_def)
  show "arp_find_locked (cache net_u) [10, 0, 2, 2] = Some 0"
    by (simp add: w arp_find_locked_def upt_conv_Cons ipv4_addr_equal_def)
  show "\<exists>p. pending net_u = p # replicate 3 \<lparr>in_use = False, pentry = 0, ptype = 0, ppayload = [], queued_at = 0\<rparr> \<and> in_use p \<and> pentry p = 0
     \<and> ptype p = 0x0800 \<and> length (ppayload p) = 29" using pl by (simp add: w)
qed

theorem arp_cache_consistent_witness:
  "net_reach net_u \<and> astate (cache net_u ! 0) = ARP_PENDING"
  using arp_cache_consistent [OF net_u_facts(1)] net_u_facts(1,4) by force

theorem arp_reply_releases_witness:
  "arp_lookup [10, 0, 2, 2] (arp_learn [10, 0, 2, 2] [2, 0, 0, 0, 0, 2] True net_u) = Some [2, 0, 0, 0, 0, 2]
   \<and> (\<exists>f. wire (arp_learn [10, 0, 2, 2] [2, 0, 0, 0, 0, 2] True net_u) = wire net_u @ [f])"
proof -
  obtain p where p: "pending net_u = p # replicate 3 \<lparr>in_use = False, pentry = 0, ptype = 0, ppayload = [], queued_at = 0\<rparr>" "in_use p" "pentry p = 0"
    "length (ppayload p) = 29" using net_u_facts(4) by blast
  have "\<forall>p\<in>set (pending net_u). length (ppayload p) \<le> unat (nmtu nif_w)" using p(4) by (simp add: p(1) nif_w_def)
  then show ?thesis
    using arp_reply_releases [OF net_u_facts(1-3) _ _ refl, of "[2, 0, 0, 0, 0, 2]" True] p by simp
qed

section \<open>Sockets\<close>

abbreviation ephemeral :: "u16 \<Rightarrow> bool" where
  "ephemeral q \<equiv> 32768 \<le> q \<and> q \<le> 60999"

abbreviation port_step :: "u16 \<Rightarrow> u16" where
  "port_step c \<equiv> (if c \<ge> 60999 then 32768 else c + 1)"

lemma port_step_unat:
  assumes "ephemeral c" shows "ephemeral (port_step c)" "unat (port_step c) = 32768 + (unat c - 32768 + 1) mod 28232"
proof -
  have c: "32768 \<le> unat c" "unat c \<le> 60999" using assms by (simp_all add: word_le_nat_alt)
  have "unat (c + 1) = unat c + 1" using c by (simp add: unat_word_ariths)
  then show "unat (port_step c) = 32768 + (unat c - 32768 + 1) mod 28232"
    using c by (cases "unat c = 60999") (auto simp: word_le_nat_alt)
  then have "unat (port_step c) \<le> 60999" "32768 \<le> unat (port_step c)"
    using mod_less_divisor [of 28232 "unat c - 32768 + 1"] by simp_all
  then show "ephemeral (port_step c)" by (simp add: word_le_nat_alt)
qed

lemma port_iter:
  assumes "ephemeral c"
  shows "ephemeral ((port_step ^^ k) c) \<and> unat ((port_step ^^ k) c) = 32768 + (unat c - 32768 + k) mod 28232"
proof (induction k)
  case 0
  have "32768 \<le> unat c" "unat c \<le> 60999" using assms by (simp_all add: word_le_nat_alt)
  then show ?case using assms by simp
next
  case (Suc k)
  then show ?case
    using port_step_unat [of "(port_step ^^ k) c"] by (simp add: mod_Suc_eq)
qed

lemma port_scan_spec:
  assumes "ephemeral c" "port_scan n c ks = (p, c')"
  shows "ephemeral c' \<and> (if p = 0 then \<forall>k<n. \<exists>x\<in>set ks. from_be16 (port (slocal x)) = (port_step ^^ k) c
     else ephemeral (from_be16 p) \<and> (\<forall>x\<in>set ks. port (slocal x) \<noteq> p))"
  using assms
proof (induction n arbitrary: c)
  case 0
  then show ?case by simp
next
  case (Suc n)
  note st = port_step_unat [OF Suc.prems(1)]
  show ?case
  proof (cases "list_ex (\<lambda>k. from_be16 (port (slocal k)) = c) ks")
    case True
    then have t: "\<exists>x\<in>set ks. from_be16 (port (slocal x)) = c" by (simp add: list_ex_iff)
    have "port_scan n (port_step c) ks = (p, c')" using Suc.prems(2) True by simp
    note i = Suc.IH [OF st(1) this]
    have "\<exists>x\<in>set ks. from_be16 (port (slocal x)) = (port_step ^^ k) c" if "p = 0" "k < Suc n" for k
    proof (cases k)
      case (Suc j)
      then have "(port_step ^^ k) c = (port_step ^^ j) (port_step c)" by (simp only: funpow_Suc_right o_apply)
      moreover have "\<exists>x\<in>set ks. from_be16 (port (slocal x)) = (port_step ^^ j) (port_step c)" using i that Suc by simp
      ultimately show ?thesis by metis
    qed (use t in simp)
    then show ?thesis using i by auto
  next
    case False
    then have p: "p = to_be16 c" "c' = port_step c" using Suc.prems(2) by (auto simp: Let_def)
    have fp: "from_be16 p = c" by (simp add: p be16_inverse)
    have "p \<noteq> 0" using fp Suc.prems(1) by (auto simp: from_be16_def bswap16_def)
    moreover have "\<forall>x\<in>set ks. port (slocal x) \<noteq> p" using False fp by (auto simp: list_ex_iff)
    ultimately show ?thesis using st(1) p(2) fp Suc.prems(1) by auto
  qed
qed

text \<open>
  C25. \<open>socket_alloc_ephemeral_port\<close> always returns: a port of the ephemeral range that no socket is
  bound to, or 0 exactly when every port of the range is taken; the rotating start stays in range.
\<close>

theorem ephemeral_port_correct:
  assumes "ephemeral (next_port s)" and "socket_alloc_ephemeral_port s = (p, s')"
  shows "ephemeral (next_port s') \<and>
    (if p = 0 then \<forall>q. ephemeral q \<longrightarrow> (\<exists>k\<in>set (socket_list s). from_be16 (port (slocal k)) = q)
     else ephemeral (from_be16 p) \<and> (\<forall>k\<in>set (socket_list s). port (slocal k) \<noteq> p))"
proof -
  obtain c where c: "port_scan 28232 (next_port s) (socket_list s) = (p, c)" "s' = s\<lparr>next_port := c\<rparr>"
    using assms(2) by (auto simp: socket_alloc_ephemeral_port_def split: prod.splits)
  note sp = port_scan_spec [OF assms(1) c(1)]
  have "\<exists>k\<in>set (socket_list s). from_be16 (port (slocal k)) = q" if h: "p = 0" "ephemeral q" for q
  proof -
    let ?a = "unat (next_port s) - 32768" and ?b = "unat q - 32768"
    have "32768 \<le> unat q \<and> unat q \<le> 60999" "unat (next_port s) \<le> 60999" using h(2) assms(1) by (simp_all add: word_le_nat_alt)
    then have b: "32768 \<le> unat q" "?b < 28232" "?a < 28232" by linarith+
    define k where "k = (?b + 28232 - ?a) mod 28232"
    have k: "k < 28232" by (simp add: k_def)
    have "(?a + k) mod 28232 = (?a + (?b + 28232 - ?a)) mod 28232" unfolding k_def by (rule mod_add_right_eq)
    also have "?a + (?b + 28232 - ?a) = ?b + 28232" using b(3) by linarith
    also have "(?b + 28232) mod 28232 = ?b" using b(2) by (simp only: mod_add_self2 mod_less)
    finally have m: "(?a + k) mod 28232 = ?b" .
    have "unat ((port_step ^^ k) (next_port s)) = 32768 + (?a + k) mod 28232" using port_iter [OF assms(1), of k] by blast
    also have "\<dots> = unat q" unfolding m using b(1) by linarith
    finally have "unat ((port_step ^^ k) (next_port s)) = unat q" .
    then have "(port_step ^^ k) (next_port s) = q" by (simp only: word_unat_eq_iff)
    then show ?thesis using sp h(1) k by auto
  qed
  then show ?thesis using sp c(2) by simp
qed

theorem ephemeral_port_correct_witness:
  "ephemeral (next_port (net_0 nif_w)) \<and> socket_alloc_ephemeral_port (net_0 nif_w) = (0x80, (net_0 nif_w)\<lparr>next_port := 32769\<rparr>)
   \<and> ephemeral (from_be16 0x80)"
proof -
  have "port_scan 28232 c [] = (to_be16 c, port_step c)" for c
    using port_scan.simps(2) [of 28231 c "[]"] by (simp add: Let_def)
  then have a: "socket_alloc_ephemeral_port (net_0 nif_w) = (0x80, (net_0 nif_w)\<lparr>next_port := 32769\<rparr>)"
    by (simp add: socket_alloc_ephemeral_port_def net_0_def to_be16_def bswap16_def)
  have "ephemeral (next_port (net_0 nif_w))" by (simp add: net_0_def)
  then show ?thesis using ephemeral_port_correct [OF _ a] a by simp
qed

section \<open>TCP options\<close>

text \<open>A no-operation byte, or an option of a kind with a length byte and a body.\<close>

fun opt_bytes :: "(u8 \<times> bytes) option \<Rightarrow> bytes" where
  "opt_bytes None = [1]"
| "opt_bytes (Some (kind, body)) = kind # of_nat (2 + length body) # body"

fun opt_ok :: "(u8 \<times> bytes) option \<Rightarrow> bool" where
  "opt_ok None = True"
| "opt_ok (Some (kind, body)) = (kind \<noteq> 0 \<and> kind \<noteq> 1 \<and> length body \<le> 253)"

fun opt_apply :: "(u8 \<times> bytes) option \<Rightarrow> tcp_options \<Rightarrow> tcp_options" where
  "opt_apply None out = out"
| "opt_apply (Some (kind, body)) out = tcp_option kind (2 + length body) body out"

lemma tcp_option_prefix: "tcp_option kind (2 + length body) (body @ rest) out = tcp_option kind (2 + length body) body out"
proof -
  have "rd16 (body @ rest) 0 = rd16 body 0" if "2 \<le> length body"
    using that by (simp add: rd16_append)
  moreover have "rd32 (body @ rest) i = rd32 body i" if "i + 4 \<le> length body" for i
    using that by (simp add: rd32_def nth_append)
  ultimately show ?thesis by (simp add: tcp_option_def)
qed

lemma tcp_parse_one:
  assumes "opt_ok o1" shows "tcp_parse_from (opt_bytes o1 @ rest) out = tcp_parse_from rest (opt_apply o1 out)"
proof (cases o1)
  case None
  then show ?thesis by (subst tcp_parse_from.simps) simp
next
  case (Some kb)
  obtain kind body where kb: "kb = (kind, body)" by fastforce
  have b: "kind \<noteq> 0" "kind \<noteq> 1" "length body \<le> 253" using assms Some kb by simp_all
  let ?n = "of_nat (2 + length body) :: u8"
  have n: "unat ?n = 2 + length body" using b(3) by (simp only: unat_of_nat) simp
  have "\<not> ?n < 2" using n by (simp add: word_less_nat_alt del: of_nat_add of_nat_numeral)
  then have "tcp_parse_from (kind # ?n # body @ rest) out = tcp_parse_from rest (tcp_option kind (2 + length body) (body @ rest) out)"
    using b(1,2) n by (subst tcp_parse_from.simps) (simp del: of_nat_add of_nat_numeral)
  then show ?thesis using Some kb by (simp only: opt_bytes.simps opt_apply.simps tcp_option_prefix append_Cons)
qed



end
