(* ===== verification/Fat_Name.thy ===== *)
theory Fat_Name
  imports Gaia_Prelude
begin

text \<open>
  The FAT name codec, \<open>kernel/fs/fat/fat_name.c\<close>: long-name slots and their reassembly, exact 8.3
  names with case flags, generated aliases.  A directory entry is its 32 bytes; a C string is the
  list of bytes before its terminator.
\<close>

section \<open>Long names\<close>

abbreviation FAT_ATTR_LFN :: u8 where "FAT_ATTR_LFN \<equiv> 0x0F"
abbreviation FAT_LFN_MAX_SLOTS :: nat where "FAT_LFN_MAX_SLOTS \<equiv> 20"

definition lfn_offsets :: "nat list" where
  "lfn_offsets = [1, 3, 5, 7, 9, 14, 16, 18, 20, 22, 24, 28, 30]"

definition lfn_checksum :: "bytes \<Rightarrow> u8" where
  "lfn_checksum name = fold (\<lambda>c s. push_bit 7 (s AND 1) + drop_bit 1 s + c) (take 11 name) 0"

record lfn_state =
  lname :: bytes
  llength :: nat
  lstart :: nat
  lchecksum :: u8
  lexpect :: u8
  lvalid :: bool

definition lfn_reset :: "lfn_state \<Rightarrow> lfn_state" where
  "lfn_reset st = st\<lparr>llength := 0, lvalid := False, lexpect := 0, lchecksum := 0, lstart := 0\<rparr>"

definition lfn_char :: "bytes \<Rightarrow> nat \<Rightarrow> u8" where
  "lfn_char raw off =
     (let ch = ucast (raw ! off) OR push_bit 8 (ucast (raw ! (off + 1))) :: u16
      in if ch = 0 \<or> ch = 0xFFFF then 0 else if ch < 0x80 then ucast ch else 95)"

definition lfn_feed :: "bytes \<Rightarrow> nat \<Rightarrow> lfn_state \<Rightarrow> lfn_state" where
  "lfn_feed raw index st =
     (let marker = raw ! 0; sq = marker AND 0x1F; final = (marker AND 0x40 \<noteq> 0)
      in if marker = 0xE5 then lfn_reset st
         else if sq = 0 \<or> unat sq > FAT_LFN_MAX_SLOTS then lfn_reset st
         else if \<not> final \<and> (\<not> lvalid st \<or> sq \<noteq> lexpect st \<or> raw ! 13 \<noteq> lchecksum st) then lfn_reset st
         else
           (let st1 = (if final then (lfn_reset st)\<lparr>lvalid := True, lexpect := sq, lchecksum := raw ! 13,
                                       llength := unat sq * 13, lstart := index\<rparr> else st);
                base = (unat sq - 1) * 13
            in st1\<lparr>lname := take base (lname st1) @ map (lfn_char raw) lfn_offsets @ drop (base + 13) (lname st1),
                   lexpect := sq - 1\<rparr>))"

definition lfn_take :: "bytes \<Rightarrow> lfn_state \<Rightarrow> bytes option" where
  "lfn_take entry st =
     (if \<not> lvalid st \<or> lexpect st \<noteq> 0 then None
      else if lfn_checksum entry \<noteq> lchecksum st then None
      else
        (let name = takeWhile (\<lambda>c. c \<noteq> 0) (take (llength st) (lname st))
         in if name = [] \<or> length name > 255 then None else Some name))"

text \<open>The 16-bit characters of a slot: the name, one terminator, then filler.\<close>

definition lfn_unit :: "bytes \<Rightarrow> nat \<Rightarrow> u16" where
  "lfn_unit name idx = (if idx < length name then ucast (name ! idx) else if idx = length name then 0 else 0xFFFF)"

definition write_lfn_slot :: "bytes \<Rightarrow> nat \<Rightarrow> bool \<Rightarrow> u8 \<Rightarrow> bytes" where
  "write_lfn_slot name sq final checksum =
     (let raw = (replicate 32 0)[0 := of_nat sq OR (if final then 0x40 else 0), 11 := FAT_ATTR_LFN, 13 := checksum];
          base = (sq - 1) * 13
      in fold (\<lambda>i r. let ch = lfn_unit name (base + i); o1 = lfn_offsets ! i
                     in r[o1 := ucast (ch AND 0xFF), o1 + 1 := ucast (drop_bit 8 ch)]) [0..<13] raw)"

section \<open>Short names\<close>

definition valid_short_char :: "u8 \<Rightarrow> bool" where
  "valid_short_char c \<longleftrightarrow>
     65 \<le> c \<and> c \<le> 90 \<or> 97 \<le> c \<and> c \<le> 122 \<or> 48 \<le> c \<and> c \<le> 57 \<or>
     c \<in> set [36, 37, 39, 45, 95, 64, 126, 96, 33, 40, 41, 123, 125, 94, 35, 38]"

definition to_upper :: "u8 \<Rightarrow> u8" where
  "to_upper c = (if 97 \<le> c \<and> c \<le> 122 then c - 32 else c)"

definition is_lower :: "u8 \<Rightarrow> bool" where "is_lower c \<longleftrightarrow> 97 \<le> c \<and> c \<le> 122"
definition is_upper :: "u8 \<Rightarrow> bool" where "is_upper c \<longleftrightarrow> 65 \<le> c \<and> c \<le> 90"

text \<open>Base length, start and length of the extension; a leading dot does not start one.\<close>

definition split_extension :: "bytes \<Rightarrow> nat \<times> nat \<times> nat" where
  "split_extension name =
     (let n = length name;
          dot = (case find (\<lambda>j. name ! j = 46) (rev [1..<n]) of None \<Rightarrow> n | Some j \<Rightarrow> j);
          ext_at = (if dot < n then dot + 1 else n)
      in (dot, ext_at, n - ext_at))"

definition pad :: "nat \<Rightarrow> bytes \<Rightarrow> bytes" where
  "pad k xs = xs @ replicate (k - length xs) 32"

definition short_name_exact :: "bytes \<Rightarrow> (bytes \<times> u8) option" where
  "short_name_exact name =
     (if name = [] \<or> length name > 12 \<or> last name = 46 then None
      else
        (let (base_len, ext_at, ext_len) = split_extension name
         in if base_len = 0 \<or> base_len > 8 \<or> ext_len > 3 then None
            else
              (let base = take base_len name; ext = take ext_len (drop ext_at name)
               in if \<not> list_all valid_short_char base \<or> \<not> list_all valid_short_char ext then None
                  else if list_ex is_lower base \<and> list_ex is_upper base \<or> list_ex is_lower ext \<and> list_ex is_upper ext then None
                  else
                    (let out = pad 8 (map to_upper base) @ pad 3 (map to_upper ext)
                     in Some (if out ! 0 = 0xE5 then out[0 := 0x05] else out,
                              (if list_ex is_lower base then 0x08 else 0) OR (if list_ex is_lower ext then 0x10 else 0))))))"

function dec_digits :: "nat \<Rightarrow> bytes" where
  "dec_digits n = (if n = 0 then [] else dec_digits (n div 10) @ [of_nat (48 + n mod 10)])"
  by auto
termination by (relation "measure id") auto

declare dec_digits.simps [simp del]

definition alias_chars :: "nat \<Rightarrow> bytes \<Rightarrow> bytes" where
  "alias_chars k name = take k (map (\<lambda>c. if valid_short_char c then to_upper c else 95) (filter (\<lambda>c. c \<noteq> 32 \<and> c \<noteq> 46) name))"

definition alias_name :: "bytes \<Rightarrow> bytes \<Rightarrow> nat \<Rightarrow> bytes" where
  "alias_name base ext n =
     (let suffix = dec_digits n; stem = min (8 - (length suffix + 1)) (length base)
      in pad 8 (take stem base @ [126] @ suffix) @ pad 3 ext)"

text \<open>\<open>taken\<close> is \<open>short_name_taken\<close> on the directory the alias is for.\<close>

definition short_name_alias :: "(bytes \<Rightarrow> bool) \<Rightarrow> bytes \<Rightarrow> bytes option" where
  "short_name_alias taken name =
     (let (base_len, ext_at, ext_len) = split_extension name;
          base0 = alias_chars 8 (take base_len name);
          base = (if base0 = [] then [95] else base0);
          ext = alias_chars 3 (take ext_len (drop ext_at name))
      in case find (\<lambda>n. \<not> taken (alias_name base ext n)) [1..<1000000] of
           None \<Rightarrow> None
         | Some n \<Rightarrow> Some (alias_name base ext n))"

definition lower_if :: "bool \<Rightarrow> u8 \<Rightarrow> u8" where
  "lower_if b c = (if b \<and> is_upper c then c + 32 else c)"

definition entry_short_name :: "bytes \<Rightarrow> bytes" where
  "entry_short_name entry =
     (let base_lower = (entry ! 12 AND 0x08 \<noteq> 0); ext_lower = (entry ! 12 AND 0x10 \<noteq> 0);
          nm = takeWhile (\<lambda>c. c \<noteq> 32) (take 8 entry);
          base = (case nm of [] \<Rightarrow> [] | c # cs \<Rightarrow> (if c = 0x05 then 0xE5 else c) # cs);
          ext = take 3 (drop 8 entry)
      in map (lower_if base_lower) base @
         (if list_ex (\<lambda>c. c \<noteq> 32) ext then 46 # map (lower_if ext_lower) (takeWhile (\<lambda>c. c \<noteq> 32) ext) else []))"

section \<open>Comparing names\<close>

definition to_lower_byte :: "u8 \<Rightarrow> u8" where
  "to_lower_byte c = (if 65 \<le> c \<and> c \<le> 90 then c + 32 else c)"

fun strcasecmp :: "bytes \<Rightarrow> bytes \<Rightarrow> int" where
  "strcasecmp (a # as) (b # bs) =
     (if to_lower_byte a \<noteq> to_lower_byte b then sint (to_lower_byte a) - sint (to_lower_byte b) else strcasecmp as bs)"
| "strcasecmp [] [] = 0"
| "strcasecmp [] (b # bs) = - uint b"
| "strcasecmp (a # as) [] = uint a"

section \<open>Round trips\<close>

lemma ucast_8_16: "(ucast (ucast (c :: u8) :: u16) :: u8) = c"
  by (rule bit_word_eqI) (auto simp: bit_simps)

lemma lfn_unit_char:
  assumes "\<forall>c\<in>set name. c \<noteq> 0 \<and> c < 0x80" "u = lfn_unit name idx"
    "raw ! off = ucast (u AND 0xFF)" "raw ! (off + 1) = ucast (drop_bit 8 u)"
  shows "lfn_char raw off = (if idx < length name then name ! idx else 0)"
proof -
  have "(ucast (ucast (u AND 0xFF) :: u8) OR push_bit 8 (ucast (ucast (drop_bit 8 u) :: u8)) :: u16) = u"
  proof (rule bit_word_eqI)
    have m: "(0xFF :: u16) = mask 8" by (simp add: mask_eq_exp_minus_1)
    fix n assume "n < LENGTH(16)"
    then show "bit (ucast (ucast (u AND 0xFF) :: u8) OR push_bit 8 (ucast (ucast (drop_bit 8 u) :: u8)) :: u16) n = bit u n"
      by (auto simp: bit_simps m)
  qed
  then have ch: "lfn_char raw off = (if u = 0 \<or> u = 0xFFFF then 0 else if u < 0x80 then ucast u else 95)"
    using assms(3,4) by (simp add: lfn_char_def)
  show ?thesis
  proof (cases "idx < length name")
    case True
    then have c: "name ! idx \<noteq> 0" "name ! idx < 0x80" using assms(1) by auto
    have "unat (ucast (name ! idx) :: u16) = unat (name ! idx)"
      using unsigned_less [of "name ! idx", where 'a = nat] by (simp add: unsigned_ucast_eq take_bit_eq_mod)
    then have u: "unat u = unat (name ! idx)" using True assms(2) by (simp add: lfn_unit_def)
    have "unat (name ! idx) \<noteq> 0" "unat (name ! idx) < 0x80" using c by (simp_all add: unat_eq_zero word_less_nat_alt)
    then have "u \<noteq> 0" "u \<noteq> 0xFFFF" "u < 0x80" using u by (auto simp: word_less_nat_alt)
    moreover have "(ucast u :: u8) = name ! idx" using True assms(2) by (simp add: lfn_unit_def ucast_8_16)
    ultimately show ?thesis using ch True by simp
  next
    case False
    then show ?thesis using ch assms(2) by (simp add: lfn_unit_def)
  qed
qed

lemma write_slot_bytes:
  assumes "sq \<le> 20"
  shows "length (write_lfn_slot name sq final k) = 32" "write_lfn_slot name sq final k ! 0 = of_nat sq OR (if final then 0x40 else 0)"
    "write_lfn_slot name sq final k ! 13 = k"
    "i < 13 \<Longrightarrow> write_lfn_slot name sq final k ! (lfn_offsets ! i) = ucast (lfn_unit name ((sq - 1) * 13 + i) AND 0xFF)"
    "i < 13 \<Longrightarrow> write_lfn_slot name sq final k ! (lfn_offsets ! i + 1) = ucast (drop_bit 8 (lfn_unit name ((sq - 1) * 13 + i)))"
proof -
  have l: "[0..<13] = [0, 1, 2, 3, 4, 5, 6, 7, 8, 9, 10, 11, 12::nat]" by (simp add: upt_conv_Cons)
  show "length (write_lfn_slot name sq final k) = 32" "write_lfn_slot name sq final k ! 0 = of_nat sq OR (if final then 0x40 else 0)"
    "write_lfn_slot name sq final k ! 13 = k"
    by (simp_all add: write_lfn_slot_def Let_def l lfn_offsets_def)
  assume "i < 13"
  then have "i \<in> set [0..<13]" by simp
  then have "i \<in> set [0, 1, 2, 3, 4, 5, 6, 7, 8, 9, 10, 11, 12]" unfolding l .
  then show "write_lfn_slot name sq final k ! (lfn_offsets ! i) = ucast (lfn_unit name ((sq - 1) * 13 + i) AND 0xFF)"
    "write_lfn_slot name sq final k ! (lfn_offsets ! i + 1) = ucast (drop_bit 8 (lfn_unit name ((sq - 1) * 13 + i)))"
    by (auto simp: write_lfn_slot_def Let_def l lfn_offsets_def)
qed

lemma slot_chars:
  assumes "\<forall>c\<in>set name. c \<noteq> 0 \<and> c < 0x80" "sq \<le> 20"
  shows "map (lfn_char (write_lfn_slot name sq final k)) lfn_offsets
     = map (\<lambda>i. if (sq - 1) * 13 + i < length name then name ! ((sq - 1) * 13 + i) else 0) [0..<13]"
proof (rule nth_equalityI)
  show "length (map (lfn_char (write_lfn_slot name sq final k)) lfn_offsets)
      = length (map (\<lambda>i. if (sq - 1) * 13 + i < length name then name ! ((sq - 1) * 13 + i) else 0) [0..<13])"
    by (simp add: lfn_offsets_def)
  fix i assume "i < length (map (lfn_char (write_lfn_slot name sq final k)) lfn_offsets)"
  then have i: "i < 13" by (simp add: lfn_offsets_def)
  then have "i < length lfn_offsets" by (simp add: lfn_offsets_def)
  then show "map (lfn_char (write_lfn_slot name sq final k)) lfn_offsets ! i
      = map (\<lambda>i. if (sq - 1) * 13 + i < length name then name ! ((sq - 1) * 13 + i) else 0) [0..<13] ! i"
    using i lfn_unit_char [OF assms(1) refl write_slot_bytes(4,5) [OF assms(2) i]] by simp
qed

text \<open>The name as the slots spell it, padded with terminators.\<close>

abbreviation padded :: "bytes \<Rightarrow> nat \<Rightarrow> bytes" where
  "padded name n \<equiv> map (\<lambda>i. if i < length name then name ! i else 0) [0..<n]"

lemma marker_bits:
  assumes "1 \<le> sq" "sq \<le> 20"
  shows "(of_nat sq OR (if final then 0x40 else 0) :: u8) \<noteq> 0xE5"
    "(of_nat sq OR (if final then 0x40 else 0) :: u8) AND 0x1F = of_nat sq"
    "(of_nat sq OR (if final then 0x40 else 0) :: u8) AND 0x40 \<noteq> 0 \<longleftrightarrow> final"
    "unat (of_nat sq :: u8) = sq" "(of_nat sq :: u8) \<noteq> 0" "(of_nat sq :: u8) - 1 = of_nat (sq - 1)"
proof -
  have "sq \<in> set [1..<21]" using assms by simp
  moreover have "[1..<21] = [1, 2, 3, 4, 5, 6, 7, 8, 9, 10, 11, 12, 13, 14, 15, 16, 17, 18, 19, 20::nat]" by (simp add: upt_conv_Cons)
  ultimately have "sq \<in> set [1, 2, 3, 4, 5, 6, 7, 8, 9, 10, 11, 12, 13, 14, 15, 16, 17, 18, 19, 20]" by (simp only:)
  then show "(of_nat sq OR (if final then 0x40 else 0) :: u8) \<noteq> 0xE5"
    "(of_nat sq OR (if final then 0x40 else 0) :: u8) AND 0x1F = of_nat sq"
    "(of_nat sq OR (if final then 0x40 else 0) :: u8) AND 0x40 \<noteq> 0 \<longleftrightarrow> final"
    "unat (of_nat sq :: u8) = sq" "(of_nat sq :: u8) \<noteq> 0" "(of_nat sq :: u8) - 1 = of_nat (sq - 1)"
    by auto
qed

lemma feed_slot:
  assumes name: "\<forall>c\<in>set name. c \<noteq> 0 \<and> c < 0x80" and sq: "1 \<le> sq" "sq \<le> 20"
    and st: "final \<or> lvalid st \<and> lexpect st = of_nat sq \<and> lchecksum st = k"
    and len: "length (lname st) = 261" and d: "st' = lfn_feed (write_lfn_slot name sq final k) ix st"
  shows "lvalid st'" "lexpect st' = of_nat (sq - 1)" "lchecksum st' = k" "length (lname st') = 261"
    "llength st' = (if final then sq * 13 else llength st)" "lstart st' = (if final then ix else lstart st)"
    "lname st' = take ((sq - 1) * 13) (lname st) @ map (\<lambda>i. if (sq - 1) * 13 + i < length name then name ! ((sq - 1) * 13 + i) else 0) [0..<13]
       @ drop (sq * 13) (lname st)"
proof -
  note m = marker_bits(1-3) [OF sq, of final] and q = marker_bits(4-6) [OF sq] and w = write_slot_bytes [OF sq(2)]
  have b: "(sq - 1) * 13 + 13 = sq * 13" using sq(1) by (cases sq) auto
  have nr: "\<not> (\<not> final \<and> (\<not> lvalid st \<or> of_nat sq \<noteq> lexpect st \<or> k \<noteq> lchecksum st))" using st by auto
  have st': "st' = (let st1 = (if final then (lfn_reset st)\<lparr>lvalid := True, lexpect := of_nat sq, lchecksum := k,
        llength := sq * 13, lstart := ix\<rparr> else st)
      in st1\<lparr>lname := take ((sq - 1) * 13) (lname st1) @ map (\<lambda>i. if (sq - 1) * 13 + i < length name then name ! ((sq - 1) * 13 + i) else 0) [0..<13]
        @ drop (sq * 13) (lname st1), lexpect := of_nat (sq - 1)\<rparr>)"
    unfolding d lfn_feed_def Let_def w(2,3) m(2,3) q(1,3) slot_chars [OF name sq(2)] b
    using m(1) q(2) sq(2) nr by (simp only: if_False not_less simp_thms) auto
  have "length (take ((sq - 1) * 13) (lname st)) = (sq - 1) * 13" using len sq(2) by simp
  then show "length (lname st') = 261" using len sq b by (simp add: st' Let_def lfn_reset_def)
  show "lvalid st'" "lexpect st' = of_nat (sq - 1)" "lchecksum st' = k"
    "llength st' = (if final then sq * 13 else llength st)" "lstart st' = (if final then ix else lstart st)"
    "lname st' = take ((sq - 1) * 13) (lname st) @ map (\<lambda>i. if (sq - 1) * 13 + i < length name then name ! ((sq - 1) * 13 + i) else 0) [0..<13]
       @ drop (sq * 13) (lname st)"
    using st by (auto simp: st' Let_def lfn_reset_def)
qed

text \<open>The slots of a name in the order they are written, and what reading them accumulates.\<close>

definition lfn_slots :: "bytes \<Rightarrow> u8 \<Rightarrow> bytes list" where
  "lfn_slots name k = (let n = (length name + 12) div 13 in map (\<lambda>i. write_lfn_slot name (n - i) (i = 0) k) [0..<n])"

lemma padded_slice:
  assumes "b + 13 \<le> n"
  shows "drop b (padded name n) = map (\<lambda>i. if b + i < length name then name ! (b + i) else 0) [0..<13] @ drop (b + 13) (padded name n)"
proof (rule nth_equalityI)
  fix i assume "i < length (drop b (padded name n))"
  then show "drop b (padded name n) ! i
      = (map (\<lambda>i. if b + i < length name then name ! (b + i) else 0) [0..<13] @ drop (b + 13) (padded name n)) ! i"
    using assms by (auto simp: nth_append)
qed (use assms in simp)

lemma feed_slots:
  assumes name: "\<forall>c\<in>set name. c \<noteq> 0 \<and> c < 0x80" and n: "n \<le> 20" and j: "1 \<le> j" "j \<le> n"
    and len: "length (lname st) = 261"
    and st': "st' = fold (\<lambda>i. lfn_feed (write_lfn_slot name (n - i) (i = 0) k) (ix + i)) [0..<j] st"
  shows "lvalid st' \<and> lexpect st' = of_nat (n - j) \<and> lchecksum st' = k \<and> length (lname st') = 261 \<and> llength st' = n * 13
     \<and> lstart st' = ix \<and> drop ((n - j) * 13) (take (n * 13) (lname st')) = drop ((n - j) * 13) (padded name (n * 13))"
  using j st'
proof (induction j arbitrary: st' rule: nat_induct_at_least)
  case base
  then have s: "st' = lfn_feed (write_lfn_slot name n True k) ix st" by simp
  note f = feed_slot [OF name _ n, of True st k st' ix, OF _ _ len s]
  have "1 \<le> n" using base by simp
  moreover have "(n - 1) * 13 + 13 = n * 13" using \<open>1 \<le> n\<close> by (cases n) auto
  moreover have "length (take ((n - 1) * 13) (lname st)) = (n - 1) * 13" using len n by simp
  ultimately show ?case using f padded_slice [of "(n - 1) * 13" "n * 13" name] by simp
next
  case (Suc j)
  let ?st = "fold (\<lambda>i. lfn_feed (write_lfn_slot name (n - i) (i = 0) k) (ix + i)) [0..<j] st" and ?b = "(n - Suc j) * 13"
  have IH: "lvalid ?st" "lexpect ?st = of_nat (n - j)" "lchecksum ?st = k" "length (lname ?st) = 261" "llength ?st = n * 13"
    "lstart ?st = ix" "drop ((n - j) * 13) (take (n * 13) (lname ?st)) = drop ((n - j) * 13) (padded name (n * 13))"
    using Suc.IH [OF _ refl] Suc.prems by simp_all
  have s: "st' = lfn_feed (write_lfn_slot name (n - j) False k) (ix + j) ?st" using Suc.prems(2) Suc.hyps by simp
  note f = feed_slot [OF name _ _ _ IH(4) s]
  have q: "1 \<le> n - j" "n - j \<le> 20" "n - j - 1 = n - Suc j" "(n - j) * 13 = ?b + 13" using Suc.prems n by (auto simp: algebra_simps)
  have p: "?b + 13 \<le> n * 13" using q(4) by (metis diff_le_self mult_le_mono1)
  have "lname st' = take ?b (lname ?st) @ map (\<lambda>i. if ?b + i < length name then name ! (?b + i) else 0) [0..<13] @ drop (?b + 13) (lname ?st)"
    using f(7) q IH(1-3) by simp
  moreover have "length (take ?b (lname ?st)) = ?b" using IH(4) p n by simp
  ultimately have "drop ?b (take (n * 13) (lname st'))
      = map (\<lambda>i. if ?b + i < length name then name ! (?b + i) else 0) [0..<13] @ drop (?b + 13) (take (n * 13) (lname ?st))"
    using p by (simp add: drop_take)
  also have "\<dots> = drop ?b (padded name (n * 13))" using IH(7) padded_slice [OF p, of name] q(4) by simp
  finally show ?case using f(1-6) q IH by simp
qed

lemma padded_takeWhile:
  assumes "\<forall>c\<in>set name. c \<noteq> 0" "length name \<le> n"
  shows "takeWhile (\<lambda>c. c \<noteq> 0) (padded name n) = name"
proof -
  have "padded name n = name @ replicate (n - length name) 0"
    by (rule nth_equalityI) (use assms(2) in \<open>auto simp: nth_append\<close>)
  then show ?thesis using assms(1) by (cases "n - length name") (auto simp: takeWhile_append)
qed

text \<open>
  C27. A long name of up to 255 ASCII characters, written as directory slots in front of an entry,
  is read back exactly: feeding the slots in order and asking for the name of the entry whose
  8.3 bytes carry the checksum returns the name, whatever the reader had accumulated before.
\<close>

theorem lfn_roundtrip:
  assumes "name \<noteq> []" and "length name \<le> 255" and "\<forall>c\<in>set name. c \<noteq> 0 \<and> c < 0x80" and "length (lname st) = 261"
  shows "lfn_take entry (fold (\<lambda>(i, raw). lfn_feed raw (ix + i)) (enumerate 0 (lfn_slots name (lfn_checksum entry))) st) = Some name"
proof -
  let ?n = "(length name + 12) div 13" and ?k = "lfn_checksum entry"
  let ?st = "fold (\<lambda>i. lfn_feed (write_lfn_slot name (?n - i) (i = 0) ?k) (ix + i)) [0..<?n] st"
  have n: "1 \<le> ?n" "?n \<le> 20" "length name \<le> ?n * 13" using assms(1,2) by (cases name; simp)+
  have e: "fold (\<lambda>(i, raw). lfn_feed raw (ix + i)) (enumerate 0 (lfn_slots name ?k)) st = ?st"
    by (simp add: lfn_slots_def Let_def enumerate_eq_zip zip_map2 fold_map o_def case_prod_beta zip_same_conv_map)
  note f = feed_slots [OF assms(3) n(2,1) order_refl assms(4) refl, of ?k ix]
  have "takeWhile (\<lambda>c. c \<noteq> 0) (take (llength ?st) (lname ?st)) = name"
    using f padded_takeWhile [OF _ n(3)] assms(3) by simp
  then show ?thesis unfolding e lfn_take_def Let_def using f assms(1,2) by simp
qed

theorem lfn_roundtrip_witness:
  "lfn_take (replicate 32 65) (fold (\<lambda>(i, raw). lfn_feed raw (3 + i)) (enumerate 0 (lfn_slots [110, 111, 116, 101, 115, 46, 109, 100, 120, 120, 120, 120, 120, 120] (lfn_checksum (replicate 32 65))))
     \<lparr>lname = replicate 261 0, llength = 0, lstart = 0, lchecksum = 0, lexpect = 0, lvalid = False\<rparr>)
   = Some [110, 111, 116, 101, 115, 46, 109, 100, 120, 120, 120, 120, 120, 120]"
  by (rule lfn_roundtrip) (auto simp: word_less_nat_alt)

lemma upper_of_lower: "is_lower c \<Longrightarrow> is_upper (to_upper c) \<and> to_upper c + 32 = c"
proof -
  assume "is_lower c"
  then have c: "97 \<le> unat c" "unat c \<le> 122" "to_upper c = c - 32" by (auto simp: is_lower_def to_upper_def word_le_nat_alt)
  have "unat (c - 32) = unat c - 32" using c(1) by (subst unat_sub) (simp_all add: word_le_nat_alt)
  then have "65 \<le> unat (c - 32)" "unat (c - 32) \<le> 90" using c by linarith+
  then show ?thesis using c(3) by (simp add: is_upper_def word_le_nat_alt)
qed

lemma upper_id: "\<not> is_lower c \<Longrightarrow> to_upper c = c"
  by (auto simp: is_lower_def to_upper_def)

lemma valid_range: "valid_short_char c \<Longrightarrow> 33 \<le> unat c \<and> unat c \<le> 126 \<and> unat c \<noteq> 46"
  by (auto simp: valid_short_char_def word_le_nat_alt)

lemma upper_range: "valid_short_char c \<Longrightarrow> to_upper c \<noteq> 32 \<and> to_upper c \<noteq> 5 \<and> to_upper c \<noteq> 0xE5"
proof (cases "is_lower c")
  case True
  then have "65 \<le> unat (to_upper c)" "unat (to_upper c) \<le> 90" using upper_of_lower [OF True] by (auto simp: is_upper_def word_le_nat_alt)
  then show ?thesis by auto
next
  case False
  assume "valid_short_char c"
  then show ?thesis using valid_range [of c] upper_id [OF False] by auto
qed

lemma pad_takeWhile:
  assumes "list_all valid_short_char xs" "length xs \<le> k"
  shows "takeWhile (\<lambda>c. c \<noteq> 32) (pad k (map to_upper xs)) = map to_upper xs" "length (pad k (map to_upper xs)) = k"
proof -
  have "\<forall>c\<in>set (map to_upper xs). c \<noteq> 32" using assms(1) upper_range by (auto simp: list_all_iff)
  then show "takeWhile (\<lambda>c. c \<noteq> 32) (pad k (map to_upper xs)) = map to_upper xs"
    by (cases "k - length (map to_upper xs)") (auto simp: pad_def takeWhile_append)
  show "length (pad k (map to_upper xs)) = k" using assms(2) by (simp add: pad_def)
qed

lemma case_restored:
  assumes "\<not> (list_ex is_lower xs \<and> list_ex is_upper xs)"
  shows "map (lower_if (list_ex is_lower xs)) (map to_upper xs) = xs"
proof -
  have "lower_if (list_ex is_lower xs) (to_upper c) = c" if c: "c \<in> set xs" for c
  proof (cases "is_lower c")
    case True
    then have "list_ex is_lower xs" using c by (auto simp: list_ex_iff)
    then show ?thesis using upper_of_lower [OF True] by (simp add: lower_if_def)
  next
    case False
    then have "\<not> (list_ex is_lower xs \<and> is_upper c)" using assms c by (auto simp: list_ex_iff)
    then show ?thesis using upper_id [OF False] by (auto simp: lower_if_def)
  qed
  then show ?thesis by (simp add: map_idI)
qed

lemma split_extension_parts:
  assumes "split_extension name = (b, e, l)" "name \<noteq> []" "last name \<noteq> 46"
  shows "(take l (drop e name) = [] \<and> name = take b name) \<or>
    (take l (drop e name) \<noteq> [] \<and> name = take b name @ 46 # take l (drop e name))"
proof (cases "find (\<lambda>j. name ! j = 46) (rev [1..<length name])")
  case None
  then show ?thesis using assms(1) by (simp add: split_extension_def Let_def)
next
  case (Some j)
  then have j: "j < length name" "name ! j = 46" by (auto simp: find_Some_iff rev_nth)
  then have r: "b = j" "e = j + 1" "l = length name - (j + 1)" using assms(1) Some by (auto simp: split_extension_def Let_def)
  have "j \<noteq> length name - 1" using j assms(2,3) by (auto simp: last_conv_nth)
  then have "drop (j + 1) name \<noteq> []" using j by simp
  moreover have "name = take j name @ 46 # drop (j + 1) name" using j by (metis id_take_nth_drop Suc_eq_plus1)
  ultimately show ?thesis using r by simp
qed

text \<open>
  C28. A name that is stored as an exact 8.3 entry is read back as it was given, letter case
  included: the case flags recover lower-case base names and extensions.
\<close>

theorem short_name_roundtrip:
  assumes "short_name_exact name = Some (out, nt)"
  shows "length out = 11 \<and> entry_short_name (out @ [attr, nt] @ rest) = name"
proof -
  obtain b e l where sp: "split_extension name = (b, e, l)" by (metis prod_cases3)
  let ?base = "take b name" and ?ext = "take l (drop e name)"
  have c: "name \<noteq> []" "last name \<noteq> 46" "b \<noteq> 0" "b \<le> 8" "l \<le> 3" "list_all valid_short_char ?base" "list_all valid_short_char ?ext"
    "\<not> (list_ex is_lower ?base \<and> list_ex is_upper ?base)" "\<not> (list_ex is_lower ?ext \<and> list_ex is_upper ?ext)"
    using assms sp by (auto simp: short_name_exact_def Let_def split: if_splits)
  let ?out = "pad 8 (map to_upper ?base) @ pad 3 (map to_upper ?ext)"
  have nb: "?base \<noteq> []" using c(1,3) by simp
  then have h: "?out ! 0 = to_upper (hd ?base)" by (cases ?base) (simp_all add: pad_def)
  have "valid_short_char (hd ?base)" using nb c(6) by (cases ?base) auto
  then have h1: "?out ! 0 \<noteq> 0xE5" "to_upper (hd ?base) \<noteq> 5" unfolding h using upper_range by auto
  have o: "out = ?out" "nt = (if list_ex is_lower ?base then 0x08 else 0) OR (if list_ex is_lower ?ext then 0x10 else 0)"
    using assms sp c h1 by (auto simp: short_name_exact_def Let_def split: if_splits)
  have pb: "takeWhile (\<lambda>c. c \<noteq> 32) (pad 8 (map to_upper ?base)) = map to_upper ?base" "length (pad 8 (map to_upper ?base)) = 8"
    using pad_takeWhile [OF c(6), of 8] c(4) by simp_all
  have pe: "takeWhile (\<lambda>c. c \<noteq> 32) (pad 3 (map to_upper ?ext)) = map to_upper ?ext" "length (pad 3 (map to_upper ?ext)) = 3"
    using pad_takeWhile [OF c(7), of 3] c(5) by simp_all
  have n8: "take 8 (out @ q) = pad 8 (map to_upper ?base)" "take 3 (drop 8 (out @ q)) = pad 3 (map to_upper ?ext)" "length out = 11" for q
    using o pb(2) pe(2) by simp_all
  have n12: "(out @ [attr, nt] @ rest) ! 12 = nt" using n8(3) by (simp add: nth_append)
  have fl: "nt AND 0x08 \<noteq> 0 \<longleftrightarrow> list_ex is_lower ?base" "nt AND 0x10 \<noteq> 0 \<longleftrightarrow> list_ex is_lower ?ext"
    unfolding o(2) by auto
  have ex: "list_ex (\<lambda>c. c \<noteq> 32) (pad 3 (map to_upper ?ext)) \<longleftrightarrow> ?ext \<noteq> []"
  proof (cases ?ext)
    case Nil
    then show ?thesis unfolding Nil by (auto simp: pad_def list_ex_iff)
  next
    case (Cons x xs)
    then have "valid_short_char x" using c(7) by simp
    then show ?thesis using Cons upper_range by (simp add: pad_def)
  qed
  have first: "(case map to_upper ?base of [] \<Rightarrow> [] | c # cs \<Rightarrow> (if c = 5 then 0xE5 else c) # cs) = map to_upper ?base"
    using h1(2) by (cases ?base) auto
  have "entry_short_name (out @ [attr, nt] @ rest) = ?base @ (if ?ext \<noteq> [] then 46 # ?ext else [])"
    unfolding entry_short_name_def Let_def n12 n8(1,2) pb(1) pe(1) first ex fl case_restored [OF c(8)] case_restored [OF c(9)] ..
  also have "\<dots> = name"
  proof (cases "?ext = []")
    case True
    then have "?base = name" using split_extension_parts [OF sp c(1,2)] by metis
    then show ?thesis by (simp only: True simp_thms if_False append_Nil2)
  next
    case False
    then have "?base @ 46 # ?ext = name" using split_extension_parts [OF sp c(1,2)] by metis
    then show ?thesis by (simp only: False simp_thms if_True)
  qed
  finally show ?thesis using n8(3) by simp
qed

theorem short_name_roundtrip_witness:
  "short_name_exact [114, 101, 97, 100, 109, 101, 46, 84, 88, 84] = Some ([82, 69, 65, 68, 77, 69, 32, 32, 84, 88, 84], 8)
   \<and> entry_short_name ([82, 69, 65, 68, 77, 69, 32, 32, 84, 88, 84] @ [0x20, 8] @ replicate 19 0) = [114, 101, 97, 100, 109, 101, 46, 84, 88, 84]"
proof -
  have two: "replicate 2 x = [x, x]" for x :: u8 by (simp add: numeral_2_eq_2)
  have "short_name_exact [114, 101, 97, 100, 109, 101, 46, 84, 88, 84] = Some ([82, 69, 65, 68, 77, 69, 32, 32, 84, 88, 84], 8)"
    by (simp add: short_name_exact_def split_extension_def upt_conv_Cons valid_short_char_def is_lower_def is_upper_def to_upper_def pad_def two)
  then show ?thesis using short_name_roundtrip by blast
qed

text \<open>
  A name with a byte outside ASCII is written into its slots but read back with that character
  replaced, so the entry cannot be found under the name it was created with.
\<close>

lemma lfn_non_ascii:
  "lfn_take (replicate 32 65) (fold (\<lambda>(i, raw). lfn_feed raw i) (enumerate 0 (lfn_slots [99, 0xE9] (lfn_checksum (replicate 32 65))))
     \<lparr>lname = replicate 261 0, llength = 0, lstart = 0, lchecksum = 0, lexpect = 0, lvalid = False\<rparr>) = Some [99, 95]"
  by (simp add: lfn_slots_def write_lfn_slot_def lfn_unit_def lfn_offsets_def lfn_feed_def lfn_char_def lfn_take_def lfn_reset_def
      upt_conv_Cons Let_def)

end
