(* ===== verification/Fat.thy ===== *)
theory Fat
  imports Fat_Name
begin

text \<open>
  The FAT volume, its directories and files: \<open>kernel/fs/fat/fat_mount.c\<close>, \<open>fat_directory.c\<close>,
  \<open>fat_file.c\<close> and \<open>fat.c\<close>.  The image is a function from byte offsets; a pointer into the image is an
  offset.  \<open>write_sector\<close> is the registered writer, given by the sectors its device accepts, and
  \<open>disk\<close> is what that device holds; a write the device refuses is logged and lost, as in
  \<open>device_sector_writer\<close>.  The real-time clock is the field \<open>now\<close>.  The operations are those of a
  mounted volume, so the tests for a null image are not repeated.  Entry indices and counts of
  visited clusters are natural numbers: they stay below the number of entries of the image.  Out-parameters are results, and the result codes
  are those of the source; where a pointer would be null there is an \<open>option\<close>.
\<close>

section \<open>State\<close>

datatype fat_type = FAT_TYPE_NONE | FAT_TYPE_16 | FAT_TYPE_32

record rtc_time =
  year :: u16
  month :: u8
  day :: u8
  hour :: u8
  minute :: u8
  second :: u8
  valid :: bool

record fat_volume =
  img :: "nat \<Rightarrow> u8"
  image_size :: nat
  bytes_per_sector :: u16
  sectors_per_cluster :: u8
  fat_count :: u8
  sectors_per_fat :: u32
  fat_start_sector :: u32
  root_start_sector :: u32
  data_start_sector :: u32
  root_entries :: u16
  root_cluster :: u32
  cluster_limit :: u32
  vtype :: fat_type
  write_sector :: "(nat \<Rightarrow> bool) option"
  disk :: "nat \<Rightarrow> u8"
  now :: rtc_time

record fat_dir =
  dfirst :: u32
  is_root :: bool

record fat_file =
  first_cluster :: u32
  cur_cluster :: u32
  fsize :: u32
  pos :: u32
  dir_ent :: "nat option"

record found_entry =
  e_cluster :: u32
  e_size :: u64
  e_attr :: u8
  e_index :: nat
  e_index_end :: nat
  e_raw :: nat

abbreviation FAT_ATTR_DIRECTORY :: u8 where "FAT_ATTR_DIRECTORY \<equiv> 0x10"
abbreviation FAT_ATTR_ARCHIVE :: u8 where "FAT_ATTR_ARCHIVE \<equiv> 0x20"
abbreviation FAT_PATH_MAX :: nat where "FAT_PATH_MAX \<equiv> 260"

section \<open>Bytes of the image\<close>

definition get16 :: "(nat \<Rightarrow> u8) \<Rightarrow> nat \<Rightarrow> u16" where
  "get16 f a = ucast (f a) OR push_bit 8 (ucast (f (a + 1)))"

definition get32 :: "(nat \<Rightarrow> u8) \<Rightarrow> nat \<Rightarrow> u32" where
  "get32 f a = ucast (f a) OR push_bit 8 (ucast (f (a + 1))) OR push_bit 16 (ucast (f (a + 2))) OR push_bit 24 (ucast (f (a + 3)))"

definition w16 :: "u16 \<Rightarrow> bytes" where "w16 v = [ucast v, ucast (drop_bit 8 v)]"
definition w32 :: "u32 \<Rightarrow> bytes" where
  "w32 v = [ucast v, ucast (drop_bit 8 v), ucast (drop_bit 16 v), ucast (drop_bit 24 v)]"

definition put :: "nat \<Rightarrow> bytes \<Rightarrow> fat_volume \<Rightarrow> fat_volume" where
  "put a bs v = v\<lparr>img := (\<lambda>x. if a \<le> x \<and> x < a + length bs then bs ! (x - a) else img v x)\<rparr>"

definition entry_bytes :: "fat_volume \<Rightarrow> nat \<Rightarrow> bytes" where
  "entry_bytes v a = map (\<lambda>i. img v (a + i)) [0..<32]"

section \<open>Geometry and the allocation table\<close>

definition cluster_bytes :: "fat_volume \<Rightarrow> u32" where
  "cluster_bytes v = ucast (sectors_per_cluster v) * ucast (bytes_per_sector v)"

definition sector :: "fat_volume \<Rightarrow> u32 \<Rightarrow> nat" where
  "sector v lba = unat lba * unat (bytes_per_sector v)"

definition cluster_is_valid :: "fat_volume \<Rightarrow> u32 \<Rightarrow> bool" where
  "cluster_is_valid v c \<longleftrightarrow> 2 \<le> c \<and> c < cluster_limit v"

definition cluster_eoc :: "fat_volume \<Rightarrow> u32" where
  "cluster_eoc v = (if vtype v = FAT_TYPE_32 then 0x0FFFFFFF else 0xFFFF)"

definition cluster_is_eoc :: "fat_volume \<Rightarrow> u32 \<Rightarrow> bool" where
  "cluster_is_eoc v x \<longleftrightarrow> (if vtype v = FAT_TYPE_32 then 0x0FFFFFF8 \<le> x else 0xFFF8 \<le> x)"

definition fat_get :: "fat_volume \<Rightarrow> u32 \<Rightarrow> u32" where
  "fat_get v c =
     (let table = sector v (fat_start_sector v)
      in if vtype v = FAT_TYPE_32 then get32 (img v) (table + 4 * unat c) AND 0x0FFFFFFF
         else ucast (get16 (img v) (table + 2 * unat c)))"

definition fat_put :: "nat \<Rightarrow> u32 \<Rightarrow> u32 \<Rightarrow> fat_volume \<Rightarrow> fat_volume" where
  "fat_put table c x v =
     (if vtype v = FAT_TYPE_32
      then put (table + 4 * unat c) (w32 ((get32 (img v) (table + 4 * unat c) AND 0xF0000000) OR (x AND 0x0FFFFFFF))) v
      else put (table + 2 * unat c) (w16 (ucast x)) v)"

definition fat_flush_sector :: "nat \<Rightarrow> fat_volume \<Rightarrow> fat_volume" where
  "fat_flush_sector lba v =
     (case write_sector v of
        None \<Rightarrow> v
      | Some accepts \<Rightarrow>
          if accepts lba
          then v\<lparr>disk := (\<lambda>x. if lba * unat (bytes_per_sector v) \<le> x \<and> x < (lba + 1) * unat (bytes_per_sector v) then img v x else disk v x)\<rparr>
          else v)"

definition fat_flush_bytes :: "nat \<Rightarrow> nat \<Rightarrow> fat_volume \<Rightarrow> fat_volume" where
  "fat_flush_bytes start len v =
     (if write_sector v = None \<or> len = 0 \<or> bytes_per_sector v = 0 then v
      else if image_size v \<le> start then v
      else
        (let len1 = (if image_size v - start < len then image_size v - start else len);
             first = (start div unat (bytes_per_sector v)) mod 2 ^ 32;
             final = ((start + len1 - 1) div unat (bytes_per_sector v)) mod 2 ^ 32
         in fold fat_flush_sector [first..<Suc final] v))"

definition fat_set :: "u32 \<Rightarrow> u32 \<Rightarrow> fat_volume \<Rightarrow> fat_volume" where
  "fat_set c x v =
     (let width = (if vtype v = FAT_TYPE_16 then 2 else 4)
      in fold (\<lambda>f v. let table = sector v (fat_start_sector v + of_nat f * sectors_per_fat v)
                     in fat_flush_bytes (table + unat c * width) width (fat_put table c x v))
           [0..<unat (fat_count v)] v)"

definition fat_type_bits :: "fat_volume \<Rightarrow> int" where
  "fat_type_bits v = (case vtype v of FAT_TYPE_NONE \<Rightarrow> 0 | FAT_TYPE_16 \<Rightarrow> 16 | FAT_TYPE_32 \<Rightarrow> 32)"

definition fat_image_base :: "fat_volume \<Rightarrow> nat \<times> u16" where
  "fat_image_base v = (image_size v, bytes_per_sector v)"

definition fat_set_sector_writer :: "(nat \<Rightarrow> bool) option \<Rightarrow> fat_volume \<Rightarrow> fat_volume" where
  "fat_set_sector_writer writer v = v\<lparr>write_sector := writer\<rparr>"

definition fat_write_through_enabled :: "fat_volume \<Rightarrow> bool" where
  "fat_write_through_enabled v \<longleftrightarrow> write_sector v \<noteq> None"

definition next_cluster :: "fat_volume \<Rightarrow> u32 \<Rightarrow> int \<times> u32" where
  "next_cluster v c =
     (if \<not> cluster_is_valid v c then (-1, 0)
      else
        (let x = fat_get v c
         in if cluster_is_eoc v x then (1, 0) else if \<not> cluster_is_valid v x then (-1, 0) else (0, x)))"

definition cluster_data :: "fat_volume \<Rightarrow> u32 \<Rightarrow> nat option" where
  "cluster_data v c =
     (if \<not> cluster_is_valid v c then None
      else Some (sector v (data_start_sector v + (c - 2) * ucast (sectors_per_cluster v))))"

definition root_directory :: "fat_volume \<Rightarrow> fat_dir" where
  "root_directory v = \<lparr>dfirst = (if vtype v \<noteq> FAT_TYPE_16 then root_cluster v else 0), is_root = True\<rparr>"

definition dir_is_fixed_root :: "fat_volume \<Rightarrow> fat_dir \<Rightarrow> bool" where
  "dir_is_fixed_root v d \<longleftrightarrow> is_root d \<and> vtype v = FAT_TYPE_16"

text \<open>The cluster after the scan has found it: marked as the end of a chain, cleared, persisted.\<close>

definition fat_claim :: "u32 \<Rightarrow> fat_volume \<Rightarrow> fat_volume" where
  "fat_claim c v =
     (let v1 = fat_set c (cluster_eoc v) v; n = unat (cluster_bytes v1)
      in case cluster_data v1 c of
           None \<Rightarrow> v1
         | Some d \<Rightarrow> fat_flush_bytes d n (put d (replicate n 0) v1))"

definition fat_impl_alloc_cluster :: "fat_volume \<Rightarrow> u32 \<times> fat_volume" where
  "fat_impl_alloc_cluster v =
     (case find (\<lambda>c. fat_get v (of_nat c) = 0) [2..<unat (cluster_limit v)] of
        None \<Rightarrow> (0, v)
      | Some c \<Rightarrow> (of_nat c, fat_claim (of_nat c) v))"

text \<open>\<open>n\<close> bounds the clusters still to visit.\<close>

fun free_loop :: "nat \<Rightarrow> u32 \<Rightarrow> fat_volume \<Rightarrow> fat_volume" where
  "free_loop 0 current v = v"
| "free_loop (Suc n) current v =
     (if \<not> cluster_is_valid v current then v
      else
        (let nxt = fat_get v current; v1 = fat_set current 0 v
         in if cluster_is_eoc v1 nxt \<or> \<not> cluster_is_valid v1 nxt then v1 else free_loop n nxt v1))"

definition fat_impl_free_chain :: "u32 \<Rightarrow> fat_volume \<Rightarrow> fat_volume" where
  "fat_impl_free_chain first v = free_loop (unat (cluster_limit v)) first v"

section \<open>Mounting\<close>

definition fs_probe_bytes_equal :: "(nat \<Rightarrow> u8) \<Rightarrow> nat \<Rightarrow> nat \<Rightarrow> bytes \<Rightarrow> bool" where
  "fs_probe_bytes_equal im sz offset signature \<longleftrightarrow>
     \<not> (offset > sz \<or> length signature > sz - offset) \<and>
     list_all (\<lambda>i. im (offset + i) = signature ! i) [0..<length signature]"

definition fs_probe_is_exfat :: "(nat \<Rightarrow> u8) \<Rightarrow> nat \<Rightarrow> bool" where
  "fs_probe_is_exfat im sz = fs_probe_bytes_equal im sz 3 [69, 88, 70, 65, 84, 32, 32, 32]"

definition fat_volume_size :: "(nat \<Rightarrow> u8) \<Rightarrow> nat \<times> u32" where
  "fat_volume_size boot =
     (if fs_probe_is_exfat boot 512 then (0, 0)
      else
        (let bps = ucast (get16 boot 11) :: u32;
             total16 = ucast (get16 boot 19) :: u32;
             tot = (if total16 = 0 then get32 boot 32 else total16)
         in if bps < 512 \<or> bps > 4096 \<or> bps AND (bps - 1) \<noteq> 0 \<or> tot = 0 then (0, 0)
            else (unat tot * unat bps, bps)))"

definition fat_mount_format :: "(nat \<Rightarrow> u8) \<Rightarrow> nat \<Rightarrow> fat_volume \<Rightarrow> int \<times> fat_volume" where
  "fat_mount_format im sz v =
     (if sz < 512 then (-1, v)
      else
        (let bps = get16 im 11; spc = im 13; reserved = get16 im 14; num_fats = im 16;
             entries = get16 im 17;
             total_sectors = (if get16 im 19 \<noteq> 0 then ucast (get16 im 19) else get32 im 32) :: u32;
             fat_sectors = (if get16 im 22 \<noteq> 0 then ucast (get16 im 22) else get32 im 36) :: u32;
             rootc = get32 im 44
         in if bps < 512 \<or> bps > 4096 \<or> bps AND (bps - 1) \<noteq> 0 \<or> spc = 0 \<or> reserved = 0 \<or> num_fats = 0 \<or> fat_sectors = 0 \<or>
               total_sectors = 0 \<or> unat total_sectors * unat bps > sz then (-1, v)
            else
              (let root_sectors = (ucast entries * 32 + ucast bps - 1) div ucast bps :: u32;
                   fat_start = ucast reserved :: u32;
                   root_start = fat_start + ucast num_fats * fat_sectors;
                   data_start = root_start + root_sectors
               in if root_start < fat_start \<or> data_start < root_start \<or> total_sectors \<le> data_start then (-1, v)
                  else
                    (let data_clusters = (total_sectors - data_start) div ucast spc
                     in if data_clusters < 4085 then (-1, v)
                        else
                          (let t = (if data_clusters < 65525 then FAT_TYPE_16 else FAT_TYPE_32);
                               entry_size = (if t = FAT_TYPE_32 then 4 else 2);
                               fat_entries = of_nat (unat fat_sectors * unat bps div entry_size) :: u32;
                               limit0 = data_clusters + 2;
                               limit = (if limit0 > fat_entries then fat_entries else limit0)
                           in if limit \<le> 2 then (-1, v)
                              else if t = FAT_TYPE_16 \<and> 0xFFF0 \<le> limit then (-1, v)
                              else if t = FAT_TYPE_16 \<and> (entries = 0 \<or> root_sectors = 0) then (-1, v)
                              else if t = FAT_TYPE_32 \<and> (entries \<noteq> 0 \<or> root_sectors \<noteq> 0) then (-1, v)
                              else if t = FAT_TYPE_32 \<and> (rootc < 2 \<or> limit \<le> rootc) then (-1, v)
                              else (0, v\<lparr>img := im, image_size := sz, bytes_per_sector := bps, sectors_per_cluster := spc,
                                         fat_count := num_fats, sectors_per_fat := fat_sectors, fat_start_sector := fat_start,
                                         root_start_sector := root_start, data_start_sector := data_start,
                                         root_entries := entries, vtype := t, cluster_limit := limit,
                                         root_cluster := (if t = FAT_TYPE_32 then rootc else 0)\<rparr>))))))"

definition fat_init :: "(nat \<Rightarrow> u8) \<Rightarrow> nat \<Rightarrow> fat_volume \<Rightarrow> int \<times> fat_volume" where
  "fat_init im sz v =
     (if sz < 512 then (-1, v) else if fs_probe_is_exfat im sz then (-1, v) else fat_mount_format im sz v)"

section \<open>Directory entries\<close>

definition fat_encode_date :: "rtc_time \<Rightarrow> u16" where
  "fat_encode_date t = push_bit 9 (year t - 1980) OR push_bit 5 (ucast (month t)) OR ucast (day t)"

definition fat_encode_time :: "rtc_time \<Rightarrow> u16" where
  "fat_encode_time t = push_bit 11 (ucast (hour t)) OR push_bit 5 (ucast (minute t)) OR ucast (second t div 2)"

definition entry_is_lfn :: "bytes \<Rightarrow> bool" where
  "entry_is_lfn e \<longleftrightarrow> e ! 11 AND FAT_ATTR_LFN = FAT_ATTR_LFN"

definition entry_is_free :: "bytes \<Rightarrow> bool" where
  "entry_is_free e \<longleftrightarrow> e ! 0 = 0 \<or> e ! 0 = 0xE5"

definition entry_is_usable :: "bytes \<Rightarrow> bool" where
  "entry_is_usable e \<longleftrightarrow> \<not> entry_is_free e \<and> \<not> entry_is_lfn e \<and> e ! 11 AND 0x08 = 0"

definition is_dot_entry :: "bytes \<Rightarrow> bool" where
  "is_dot_entry e \<longleftrightarrow> e ! 0 = 46 \<and> (e ! 1 = 32 \<or> e ! 1 = 46)"

definition fat_impl_entry_get_cluster :: "fat_volume \<Rightarrow> nat \<Rightarrow> u32" where
  "fat_impl_entry_get_cluster v a =
     (let low = ucast (get16 (img v) (a + 26))
      in if vtype v \<noteq> FAT_TYPE_32 then low else low OR push_bit 16 (ucast (get16 (img v) (a + 20))))"

definition fat_impl_entry_set_cluster :: "nat \<Rightarrow> u32 \<Rightarrow> fat_volume \<Rightarrow> fat_volume" where
  "fat_impl_entry_set_cluster a c v =
     put (a + 20) (w16 (if vtype v = FAT_TYPE_32 then ucast (drop_bit 16 c) else 0)) (put (a + 26) (w16 (ucast (c AND 0xFFFF))) v)"

definition fat_impl_entry_get_size :: "fat_volume \<Rightarrow> nat \<Rightarrow> u64" where
  "fat_impl_entry_get_size v a = ucast (get32 (img v) (a + 28))"

definition fat_impl_entry_set_size :: "nat \<Rightarrow> u64 \<Rightarrow> fat_volume \<Rightarrow> fat_volume" where
  "fat_impl_entry_set_size a x v = put (a + 28) (w32 (ucast x)) v"

definition fat_impl_set_timestamp :: "nat \<Rightarrow> fat_volume \<Rightarrow> fat_volume" where
  "fat_impl_set_timestamp a v =
     (if \<not> valid (now v) then v
      else
        (let d = fat_encode_date (now v); t = fat_encode_time (now v);
             v1 = put (a + 18) (w16 d) (put (a + 22) (w16 t) (put (a + 24) (w16 d) v))
         in if get16 (img v1) (a + 16) = 0 \<and> get16 (img v1) (a + 14) = 0
            then put (a + 13) [0] (put (a + 14) (w16 t) (put (a + 16) (w16 d) v1))
            else v1))"

section \<open>The directory cursor\<close>

record dir_cursor =
  c_dir :: fat_dir
  c_cluster :: u32
  c_slot :: nat
  c_index :: nat
  c_seen :: nat
  c_ended :: bool

fun cursor_skip :: "nat \<Rightarrow> fat_volume \<Rightarrow> dir_cursor \<Rightarrow> dir_cursor option" where
  "cursor_skip 0 v c = Some c"
| "cursor_skip (Suc n) v c =
     (let (status, nxt) = next_cluster v (c_cluster c)
      in if status \<noteq> 0 then None
         else if unat (cluster_limit v) \<le> c_seen c + 1 then None
         else cursor_skip n v (c\<lparr>c_cluster := nxt, c_seen := c_seen c + 1\<rparr>))"

definition entries_per_cluster :: "fat_volume \<Rightarrow> nat" where
  "entries_per_cluster v = unat (cluster_bytes v div 32)"

definition cursor_init :: "fat_volume \<Rightarrow> fat_dir \<Rightarrow> nat \<Rightarrow> dir_cursor option" where
  "cursor_init v d start =
     (let c = \<lparr>c_dir = d, c_cluster = 0, c_slot = 0, c_index = start, c_seen = 0, c_ended = False\<rparr>
      in if dir_is_fixed_root v d then (if start \<le> unat (root_entries v) then Some (c\<lparr>c_slot := start\<rparr>) else None)
         else if \<not> cluster_is_valid v (dfirst d) then None
         else cursor_skip (start div entries_per_cluster v) v
                (c\<lparr>c_slot := start mod entries_per_cluster v, c_cluster := dfirst d, c_seen := 1\<rparr>))"

definition cursor_next :: "fat_volume \<Rightarrow> dir_cursor \<Rightarrow> nat option \<times> dir_cursor" where
  "cursor_next v c =
     (if c_ended c then (None, c)
      else if dir_is_fixed_root v (c_dir c) then
        (if unat (root_entries v) \<le> c_slot c then (None, c\<lparr>c_ended := True\<rparr>)
         else (Some (sector v (root_start_sector v) + 32 * c_slot c), c\<lparr>c_index := c_index c + 1, c_slot := c_slot c + 1\<rparr>))
      else
        (let epc = entries_per_cluster v;
             c1 = (if epc \<le> c_slot c
                   then (let (status, nxt) = next_cluster v (c_cluster c)
                         in if status \<noteq> 0 then c\<lparr>c_ended := True\<rparr>
                            else if unat (cluster_limit v) \<le> c_seen c + 1 then c\<lparr>c_seen := c_seen c + 1, c_ended := True\<rparr>
                            else c\<lparr>c_seen := c_seen c + 1, c_cluster := nxt, c_slot := 0\<rparr>)
                   else c)
         in if c_ended c1 then (None, c1)
            else case cluster_data v (c_cluster c1) of
                   None \<Rightarrow> (None, c1\<lparr>c_ended := True\<rparr>)
                 | Some d \<Rightarrow> (Some (d + 32 * c_slot c1), c1\<lparr>c_index := c_index c1 + 1, c_slot := c_slot c1 + 1\<rparr>)))"

text \<open>
  The loops \<open>while ((entry = cursor_next(&cursor)) != 0)\<close> visit these entries, each with the cursor's
  index after the step.
\<close>

function cursor_entries :: "fat_volume \<Rightarrow> dir_cursor \<Rightarrow> (nat \<times> nat) list" where
  "cursor_entries v c =
     (case cursor_next v c of (None, _) \<Rightarrow> [] | (Some a, c') \<Rightarrow> (a, c_index c') # cursor_entries v c')"
  by auto

lemma cursor_next_progress:
  assumes "cursor_next v c = (Some a, c')"
  shows "c_dir c' = c_dir c \<and>
    (if dir_is_fixed_root v (c_dir c) then unat (root_entries v) - c_slot c' < unat (root_entries v) - c_slot c
     else unat (cluster_limit v) - c_seen c' < unat (cluster_limit v) - c_seen c
       \<or> c_seen c' = c_seen c \<and> entries_per_cluster v - c_slot c' < entries_per_cluster v - c_slot c)"
  using assms by (auto simp: cursor_next_def Let_def split: if_splits option.splits prod.splits)

termination cursor_entries
proof (relation "inv_image (less_than <*lex*> less_than)
    (\<lambda>(v, c). if dir_is_fixed_root v (c_dir c) then (0, unat (root_entries v) - c_slot c)
              else (unat (cluster_limit v) - c_seen c, entries_per_cluster v - c_slot c))", goal_cases)
  case (2 v c r c' a)
  then show ?case using cursor_next_progress [of v c a c'] by (auto split: if_splits)
qed auto

declare cursor_entries.simps [simp del]

section \<open>Searching and changing directories\<close>

fun taken_loop :: "fat_volume \<Rightarrow> bytes \<Rightarrow> (nat \<times> nat) list \<Rightarrow> bool" where
  "taken_loop v name [] = False"
| "taken_loop v name ((a, i) # es) =
     (let e = entry_bytes v a
      in if e ! 0 = 0 then False
         else if \<not> entry_is_usable e then taken_loop v name es
         else if take 11 e = name then True
         else taken_loop v name es)"

definition short_name_taken :: "fat_volume \<Rightarrow> fat_dir \<Rightarrow> bytes \<Rightarrow> bool" where
  "short_name_taken v d name =
     (case cursor_init v d 0 of None \<Rightarrow> False | Some c \<Rightarrow> taken_loop v name (cursor_entries v c))"

text \<open>A buffer read as a C string ends at its first zero byte.\<close>

definition cstr :: "bytes \<Rightarrow> bytes" where "cstr bs = takeWhile (\<lambda>c. c \<noteq> 0) bs"

definition lfn_start :: lfn_state where
  "lfn_start = lfn_reset \<lparr>lname = replicate 261 0, llength = 0, lstart = 0, lchecksum = 0, lexpect = 0, lvalid = False\<rparr>"

fun find_loop :: "fat_volume \<Rightarrow> bytes \<Rightarrow> lfn_state \<Rightarrow> (nat \<times> nat) list \<Rightarrow> found_entry option" where
  "find_loop v name lfn [] = None"
| "find_loop v name lfn ((a, i) # es) =
     (let e = entry_bytes v a
      in if e ! 0 = 0 then None
         else if entry_is_lfn e then find_loop v name (lfn_feed e (i - 1) lfn) es
         else if \<not> entry_is_usable e then find_loop v name (lfn_reset lfn) es
         else
           (let long_name = lfn_take e lfn
            in if (case long_name of None \<Rightarrow> False | Some n \<Rightarrow> strcasecmp n name = 0) \<or> strcasecmp (cstr (entry_short_name e)) name = 0
               then Some \<lparr>e_cluster = fat_impl_entry_get_cluster v a, e_size = fat_impl_entry_get_size v a, e_attr = e ! 11,
                          e_index = (case long_name of None \<Rightarrow> i - 1 | Some _ \<Rightarrow> lstart lfn), e_index_end = i - 1, e_raw = a\<rparr>
               else find_loop v name (lfn_reset lfn) es))"

definition fat_impl_find_entry :: "fat_volume \<Rightarrow> fat_dir \<Rightarrow> bytes \<Rightarrow> found_entry option" where
  "fat_impl_find_entry v d name =
     (case cursor_init v d 0 of None \<Rightarrow> None | Some c \<Rightarrow> find_loop v name lfn_start (cursor_entries v c))"

text \<open>
  The search for a run of \<open>count\<close> free entries: \<open>run\<close> holds the run so far and \<open>start\<close> its first index.
  The result is the finished run, or the run that is still open at the end of the entries.
\<close>

fun run_scan :: "fat_volume \<Rightarrow> nat \<Rightarrow> (nat \<times> nat) list \<Rightarrow> nat list \<Rightarrow> nat \<Rightarrow> bool \<times> nat list \<times> nat" where
  "run_scan v count [] run start = (False, run, start)"
| "run_scan v count ((i, a) # es) run start =
     (if entry_is_free (entry_bytes v a) then
        (let start1 = (if run = [] then i else start); run1 = run @ [a]
         in if length run1 = count then (True, run1, start1) else run_scan v count es run1 start1)
      else run_scan v count es [] start)"

fun chain_slots :: "nat \<Rightarrow> nat \<Rightarrow> u32 \<Rightarrow> nat \<Rightarrow> nat list \<Rightarrow> nat \<Rightarrow> fat_volume \<Rightarrow> (nat list \<times> nat) option \<times> fat_volume" where
  "chain_slots 0 count current visited run start v = (None, v)"
| "chain_slots (Suc n) count current visited run start v =
     (case cluster_data v current of
        None \<Rightarrow> (None, v)
      | Some d \<Rightarrow>
          (let epc = entries_per_cluster v;
               (found, run1, start1) = run_scan v count (map (\<lambda>i. (visited * epc + i, d + 32 * i)) [0..<epc]) run start
           in if found then (Some (run1, start1), v)
              else if unat (cluster_limit v) \<le> visited + 1 then (None, v)
              else
                (let (status, nxt) = next_cluster v current
                 in if status < 0 then (None, v)
                    else if status = 1 then
                      (let (c, v1) = fat_impl_alloc_cluster v
                       in if c = 0 then (None, v1) else chain_slots n count c (visited + 1) run1 start1 (fat_set current c v1))
                    else chain_slots n count nxt (visited + 1) run1 start1 v)))"

definition alloc_dir_slots :: "fat_dir \<Rightarrow> nat \<Rightarrow> fat_volume \<Rightarrow> (nat list \<times> nat) option \<times> fat_volume" where
  "alloc_dir_slots d count v =
     (if dir_is_fixed_root v d then
        (let root = sector v (root_start_sector v);
             (found, run, start) = run_scan v count (map (\<lambda>i. (i, root + 32 * i)) [0..<unat (root_entries v)]) [] 0
         in (if found then Some (run, start) else None, v))
      else if \<not> cluster_is_valid v (dfirst d) then (None, v)
      else chain_slots (unat (cluster_limit v)) count (dfirst d) 0 [] 0 v)"

text \<open>The short name, its case flags and the number of long-name slots.\<close>

definition choose_name :: "(bytes \<Rightarrow> bool) \<Rightarrow> bytes \<Rightarrow> (bytes \<times> u8 \<times> nat) option" where
  "choose_name taken name =
     (case short_name_exact name of
        Some (s, nt) \<Rightarrow> Some (s, nt, 0)
      | None \<Rightarrow> (case short_name_alias taken name of
                   None \<Rightarrow> None
                 | Some s \<Rightarrow> Some (s, 0, (length name + 12) div 13)))"

text \<open>The entries of a new name, before they are written through.\<close>

definition new_entries :: "bytes \<Rightarrow> bytes \<Rightarrow> u8 \<Rightarrow> u8 \<Rightarrow> u32 \<Rightarrow> nat list \<Rightarrow> nat \<Rightarrow> fat_volume \<Rightarrow> fat_volume" where
  "new_entries name short_name nt_case attr cluster slots count v =
     (let v2 = (if count = 0 then v else fold (\<lambda>(a, raw). put a raw) (zip slots (lfn_slots name (lfn_checksum short_name))) v);
          a = slots ! count;
          v3 = put a (short_name @ [attr, nt_case] @ replicate 19 0) v2
      in fat_impl_set_timestamp a (fat_impl_entry_set_cluster a cluster v3))"

definition fat_impl_create_entry :: "fat_dir \<Rightarrow> bytes \<Rightarrow> u8 \<Rightarrow> u32 \<Rightarrow> fat_volume \<Rightarrow> found_entry option \<times> fat_volume" where
  "fat_impl_create_entry parent name attr cluster v =
     (if name = [] \<or> length name > 255 then (None, v)
      else
        (case choose_name (short_name_taken v parent) name of
           None \<Rightarrow> (None, v)
         | Some (short_name, nt_case, count) \<Rightarrow>
             (case alloc_dir_slots parent (count + 1) v of
                (None, v1) \<Rightarrow> (None, v1)
              | (Some (slots, start), v1) \<Rightarrow>
                  (Some \<lparr>e_cluster = cluster, e_size = 0, e_attr = attr, e_index = start, e_index_end = start + count, e_raw = slots ! count\<rparr>,
                   fold (\<lambda>a. fat_flush_bytes a 32) slots (new_entries name short_name nt_case attr cluster slots count v1)))))"

definition erase_one :: "nat \<Rightarrow> fat_volume \<Rightarrow> fat_volume" where
  "erase_one a v = fat_flush_bytes a 32 (put a [0xE5] v)"

fun erase_loop :: "nat \<Rightarrow> dir_cursor \<Rightarrow> fat_volume \<Rightarrow> fat_volume" where
  "erase_loop 0 c v = v"
| "erase_loop (Suc n) c v =
     (case cursor_next v c of (None, _) \<Rightarrow> v | (Some a, c') \<Rightarrow> erase_loop n c' (erase_one a v))"

definition fat_impl_erase_entry :: "fat_dir \<Rightarrow> found_entry \<Rightarrow> fat_volume \<Rightarrow> fat_volume" where
  "fat_impl_erase_entry d e v =
     (case cursor_init v d (e_index e) of
        None \<Rightarrow> v
      | Some c \<Rightarrow> erase_loop (e_index_end e + 1 - c_index c) c v)"

definition dot_entry :: "nat \<Rightarrow> bytes \<Rightarrow> u32 \<Rightarrow> fat_volume \<Rightarrow> fat_volume" where
  "dot_entry a dots c v =
     fat_impl_set_timestamp a (fat_impl_entry_set_cluster a c (put a (pad 11 dots @ [FAT_ATTR_DIRECTORY] @ replicate 20 0) v))"

definition fat_impl_init_dir_cluster :: "u32 \<Rightarrow> fat_dir \<Rightarrow> fat_volume \<Rightarrow> int \<times> fat_volume" where
  "fat_impl_init_dir_cluster c parent v =
     (case cluster_data v c of
        None \<Rightarrow> (-1, v)
      | Some d \<Rightarrow>
          (let n = unat (cluster_bytes v);
               v1 = dot_entry d [46] c (put d (replicate n 0) v);
               v2 = dot_entry (d + 32) [46, 46] (if is_root parent then 0 else dfirst parent) v1
           in (0, fat_flush_bytes d n v2)))"

fun empty_loop :: "fat_volume \<Rightarrow> (nat \<times> nat) list \<Rightarrow> int" where
  "empty_loop v [] = 0"
| "empty_loop v ((a, i) # es) =
     (let e = entry_bytes v a
      in if e ! 0 = 0 then 0
         else if \<not> entry_is_usable e then empty_loop v es
         else if is_dot_entry e then empty_loop v es
         else -1)"

definition fat_impl_dir_is_empty :: "fat_volume \<Rightarrow> u32 \<Rightarrow> int" where
  "fat_impl_dir_is_empty v c =
     (if \<not> cluster_is_valid v c then -1
      else case cursor_init v \<lparr>dfirst = c, is_root = False\<rparr> 0 of
             None \<Rightarrow> -1
           | Some cu \<Rightarrow> empty_loop v (cursor_entries v cu))"

text \<open>The result code with name and kind of the entry, and the new index.\<close>

fun read_one_loop :: "fat_volume \<Rightarrow> nat \<Rightarrow> lfn_state \<Rightarrow> nat \<Rightarrow> (nat \<times> nat) list \<Rightarrow> (int + (bytes \<times> bool)) \<times> nat" where
  "read_one_loop v len lfn at [] = (Inl 0, at)"
| "read_one_loop v len lfn at ((a, i) # es) =
     (let e = entry_bytes v a
      in if e ! 0 = 0 then (Inl 0, i)
         else if entry_is_lfn e then read_one_loop v len (lfn_feed e (i - 1) lfn) i es
         else if \<not> entry_is_usable e \<or> is_dot_entry e then read_one_loop v len (lfn_reset lfn) i es
         else
           (let name = (case lfn_take e lfn of None \<Rightarrow> cstr (entry_short_name e) | Some n \<Rightarrow> n)
            in if length name + 1 > len then (Inl (-1), 0) else (Inr (name, e ! 11 AND FAT_ATTR_DIRECTORY \<noteq> 0), i)))"

definition fat_impl_read_dir_one :: "fat_volume \<Rightarrow> fat_dir \<Rightarrow> nat \<Rightarrow> nat \<Rightarrow> (int + (bytes \<times> bool)) \<times> nat" where
  "fat_impl_read_dir_one v d index len =
     (if len = 0 then (Inl (-1), index)
      else case cursor_init v d index of
             None \<Rightarrow> (Inl (-1), index)
           | Some c \<Rightarrow>
               (case read_one_loop v len lfn_start index (cursor_entries v c) of
                  (Inl e, i) \<Rightarrow> (Inl e, if e < 0 then index else i)
                | (Inr x, i) \<Rightarrow> (Inr x, i)))"

function read_dir_loop :: "fat_volume \<Rightarrow> fat_dir \<Rightarrow> nat \<Rightarrow> nat \<Rightarrow> bytes \<Rightarrow> int \<times> bytes \<times> nat" where
  "read_dir_loop v d index len out =
     (case fat_impl_read_dir_one v d index 256 of
        (Inl e, i) \<Rightarrow> (if e < 0 \<and> out = [] then -1 else int (length out), out, i)
      | (Inr (name, isd), i) \<Rightarrow>
          (let required = length name + 1 + (if isd then 1 else 0)
           in if required > len - length out then (if out \<noteq> [] then int (length out) else -1, out, index)
              else read_dir_loop v d i len (out @ name @ (if isd then [47] else []) @ [0])))"
  by auto
termination by (relation "measure (\<lambda>(_, _, _, len, out). len - length out)") auto

declare read_dir_loop.simps [simp del]

definition fat_impl_read_dir :: "fat_volume \<Rightarrow> fat_dir \<Rightarrow> nat \<Rightarrow> nat \<Rightarrow> int \<times> bytes \<times> nat" where
  "fat_impl_read_dir v d index len = (if len = 0 then (-1, [], index) else read_dir_loop v d index len [])"

section \<open>Files\<close>

definition fat_truncate :: "fat_file \<Rightarrow> fat_volume \<Rightarrow> int \<times> fat_file \<times> fat_volume" where
  "fat_truncate f v =
     (case dir_ent f of
        None \<Rightarrow> (-1, f, v)
      | Some a \<Rightarrow>
          (let v1 = (if first_cluster f \<noteq> 0 then fat_impl_free_chain (first_cluster f) v else v);
               v2 = fat_impl_entry_set_size a 0 (fat_impl_entry_set_cluster a 0 v1)
           in (0, f\<lparr>first_cluster := 0, cur_cluster := 0, fsize := 0, pos := 0\<rparr>,
               fat_flush_bytes a 32 (fat_impl_set_timestamp a v2))))"

text \<open>
  The transfer loops take a bound on their turns; every turn moves at least one byte, so the
  length of the request is enough.
\<close>

definition read_turn :: "fat_volume \<Rightarrow> fat_file \<Rightarrow> nat \<Rightarrow> (bytes \<times> fat_file \<times> bool) option" where
  "read_turn v f len =
     (case cluster_data v (cur_cluster f) of
        None \<Rightarrow> None
      | Some d \<Rightarrow>
          (let bytes = cluster_bytes v; offset = pos f mod bytes; in_cluster = unat (bytes - offset);
               in_file = unat (fsize f - pos f);
               chunk = min (min len in_cluster) in_file;
               data = map (\<lambda>i. img v (d + unat offset + i)) [0..<chunk];
               f1 = f\<lparr>pos := pos f + of_nat chunk\<rparr>
           in if pos f1 mod bytes = 0 \<and> pos f1 < fsize f1 then
                (let (status, nxt) = next_cluster v (cur_cluster f1)
                 in if status \<noteq> 0 then Some (data, f1, False) else Some (data, f1\<lparr>cur_cluster := nxt\<rparr>, True))
              else Some (data, f1, True)))"

fun read_loop :: "nat \<Rightarrow> fat_volume \<Rightarrow> fat_file \<Rightarrow> nat \<Rightarrow> bytes \<Rightarrow> fat_file \<times> bytes" where
  "read_loop 0 v f len out = (f, out)"
| "read_loop (Suc n) v f len out =
     (if len = 0 \<or> \<not> pos f < fsize f then (f, out)
      else case read_turn v f len of
             None \<Rightarrow> (f, out)
           | Some (data, f1, continues) \<Rightarrow>
               if continues then read_loop n v f1 (len - length data) (out @ data) else (f1, out @ data))"

definition fat_read :: "fat_volume \<Rightarrow> fat_file \<Rightarrow> nat \<Rightarrow> fat_file \<times> bytes" where
  "fat_read v f len = read_loop len v f len []"

text \<open>On failure the walk stops in the last cluster it reached, and the position stays.\<close>

fun seek_walk :: "nat \<Rightarrow> fat_volume \<Rightarrow> u32 \<Rightarrow> bool \<times> u32" where
  "seek_walk 0 v c = (True, c)"
| "seek_walk (Suc n) v c = (let (status, nxt) = next_cluster v c in if status \<noteq> 0 then (False, c) else seek_walk n v nxt)"

definition fat_seek :: "fat_volume \<Rightarrow> fat_file \<Rightarrow> u32 \<Rightarrow> int \<times> fat_file" where
  "fat_seek v f position0 =
     (let position = (if position0 > fsize f then fsize f else position0)
      in if position = 0 \<or> fsize f = 0 then (0, f\<lparr>cur_cluster := first_cluster f, pos := position\<rparr>)
         else
           (let bytes = cluster_bytes v; skip0 = unat (position div bytes);
                skip = (if position = fsize f \<and> position mod bytes = 0 then skip0 - 1 else skip0)
            in case seek_walk skip v (first_cluster f) of
                 (False, c) \<Rightarrow> (-1, f\<lparr>cur_cluster := c\<rparr>)
               | (True, c) \<Rightarrow> (0, f\<lparr>cur_cluster := c, pos := position\<rparr>)))"

text \<open>The next cluster of a full one, allocated at the end of the chain; \<open>None\<close> on error.\<close>

definition extend_chain :: "u32 \<Rightarrow> fat_volume \<Rightarrow> u32 option \<times> fat_volume" where
  "extend_chain c v =
     (let (status, nxt) = next_cluster v c
      in if status = 1 then
           (let (a, v1) = fat_impl_alloc_cluster v in if a = 0 then (None, v1) else (Some a, fat_set c a v1))
         else if status < 0 then (None, v)
         else (Some nxt, v))"

definition write_turn :: "fat_volume \<Rightarrow> fat_file \<Rightarrow> bytes \<Rightarrow> (nat \<times> fat_file \<times> fat_volume \<times> bool) option" where
  "write_turn v f buf =
     (case cluster_data v (cur_cluster f) of
        None \<Rightarrow> None
      | Some d \<Rightarrow>
          (let bytes = cluster_bytes v; offset = pos f mod bytes; available = unat (bytes - offset);
               chunk = (if length buf < available then length buf else available);
               v1 = fat_flush_bytes (d + unat offset) chunk (put (d + unat offset) (take chunk buf) v);
               f1 = f\<lparr>pos := pos f + of_nat chunk\<rparr>
           in if pos f1 mod bytes = 0 \<and> length buf - chunk > 0 then
                (case extend_chain (cur_cluster f1) v1 of
                   (None, v2) \<Rightarrow> Some (chunk, f1, v2, False)
                 | (Some c, v2) \<Rightarrow> Some (chunk, f1\<lparr>cur_cluster := c\<rparr>, v2, True))
              else Some (chunk, f1, v1, True)))"

fun write_loop :: "nat \<Rightarrow> fat_volume \<Rightarrow> fat_file \<Rightarrow> bytes \<Rightarrow> nat \<Rightarrow> fat_file \<times> nat \<times> fat_volume" where
  "write_loop 0 v f buf tot = (f, tot, v)"
| "write_loop (Suc n) v f buf tot =
     (if buf = [] then (f, tot, v)
      else case write_turn v f buf of
             None \<Rightarrow> (f, tot, v)
           | Some (chunk, f1, v1, continues) \<Rightarrow>
               if continues then write_loop n v1 f1 (drop chunk buf) (tot + chunk) else (f1, tot + chunk, v1))"

definition fat_write_finish :: "nat \<Rightarrow> fat_file \<Rightarrow> fat_volume \<Rightarrow> fat_file \<times> fat_volume" where
  "fat_write_finish a f v =
     (let (f1, v1) = (if pos f > fsize f then (f\<lparr>fsize := pos f\<rparr>, fat_impl_entry_set_size a (ucast (pos f)) v) else (f, v));
          v2 = fat_flush_bytes a 32 (fat_impl_set_timestamp a v1);
          f2 = (if pos f1 > 0 \<and> pos f1 < fsize f1 \<and> pos f1 mod cluster_bytes v2 = 0
                then (let (status, nxt) = next_cluster v2 (cur_cluster f1) in if status = 0 then f1\<lparr>cur_cluster := nxt\<rparr> else f1)
                else f1)
      in (f2, v2))"

text \<open>The parts of a write before its loop: a first cluster for an empty file, the next cluster for an append at a cluster boundary.\<close>

definition write_first :: "nat \<Rightarrow> fat_file \<Rightarrow> fat_volume \<Rightarrow> bool \<times> fat_file \<times> fat_volume" where
  "write_first a f v =
     (if first_cluster f = 0 then
        (let (c, v1) = fat_impl_alloc_cluster v
         in if c = 0 then (False, f, v1)
            else (True, f\<lparr>first_cluster := c, cur_cluster := c\<rparr>, fat_impl_entry_set_cluster a c v1))
      else (True, f, v))"

definition write_boundary :: "fat_file \<Rightarrow> bytes \<Rightarrow> fat_volume \<Rightarrow> bool \<times> fat_file \<times> fat_volume" where
  "write_boundary f buf v =
     (if buf \<noteq> [] \<and> pos f > 0 \<and> pos f = fsize f \<and> pos f mod cluster_bytes v = 0 then
        (case extend_chain (cur_cluster f) v of
           (None, v2) \<Rightarrow> (False, f, v2)
         | (Some c, v2) \<Rightarrow> (True, f\<lparr>cur_cluster := c\<rparr>, v2))
      else (True, f, v))"

definition write_rest :: "nat \<Rightarrow> fat_file \<Rightarrow> bytes \<Rightarrow> fat_volume \<Rightarrow> nat \<times> fat_file \<times> fat_volume" where
  "write_rest a f buf v =
     (let (f1, tot, v1) = write_loop (length buf) v f buf 0; (f2, v2) = fat_write_finish a f1 v1 in (tot, f2, v2))"

definition fat_write :: "fat_file \<Rightarrow> bytes \<Rightarrow> fat_volume \<Rightarrow> nat \<times> fat_file \<times> fat_volume" where
  "fat_write f buf v =
     (case dir_ent f of
        None \<Rightarrow> (0, f, v)
      | Some a \<Rightarrow>
          (let (ok, f1, v1) = write_first a f v
           in if \<not> ok then (0, f1, v1)
              else (let (ok2, f2, v2) = write_boundary f1 buf v1 in if \<not> ok2 then (0, f2, v2) else write_rest a f2 buf v2)))"

section \<open>Paths\<close>

definition is_separator :: "u8 \<Rightarrow> bool" where "is_separator c \<longleftrightarrow> c = 47 \<or> c = 92"

text \<open>\<open>rest\<close> is the path from position \<open>at\<close> on; the result is the list of components.\<close>

function split_from :: "bytes \<Rightarrow> nat \<Rightarrow> bytes list \<Rightarrow> bytes list option" where
  "split_from rest at parts =
     (let seps = takeWhile is_separator rest; rest1 = drop (length seps) rest; at1 = at + length seps
      in if FAT_PATH_MAX \<le> at1 then None
         else if rest1 = [] then Some parts
         else
           (let comp = takeWhile (\<lambda>c. \<not> is_separator c) rest1; rest2 = drop (length comp) rest1; at2 = at1 + length comp
            in if FAT_PATH_MAX \<le> at2 then None
               else if comp = [46] then split_from rest2 at2 parts
               else if comp = [46, 46] then split_from rest2 at2 (butlast parts)
               else if comp = [] \<or> length comp > 255 \<or> 16 \<le> length parts then None
               else split_from rest2 at2 (parts @ [comp])))"
  by auto

lemma split_progress:
  assumes "drop (length (takeWhile is_separator rest)) rest \<noteq> []"
  shows "length (drop (length (takeWhile (\<lambda>c. \<not> is_separator c) (drop (length (takeWhile is_separator rest)) rest)))
           (drop (length (takeWhile is_separator rest)) rest)) < length rest"
proof -
  let ?r = "dropWhile is_separator rest"
  have d: "drop (length (takeWhile is_separator rest)) rest = ?r" by (simp add: dropWhile_eq_drop)
  then obtain x xs where r: "?r = x # xs" "\<not> is_separator x" using assms hd_dropWhile [of is_separator rest] by (cases ?r) auto
  have "length ?r \<le> length rest" by (rule length_dropWhile_le)
  then show ?thesis unfolding d using r by simp
qed

termination split_from
  by (relation "measure (\<lambda>(rest, _, _). length rest)") (use split_progress in \<open>auto simp: not_le\<close>)

declare split_from.simps [simp del]

definition split_path :: "bytes \<Rightarrow> bytes list option" where
  "split_path path = split_from path 0 []"

fun walk_directories :: "fat_volume \<Rightarrow> fat_dir \<Rightarrow> bytes list \<Rightarrow> fat_dir option" where
  "walk_directories v current [] = Some current"
| "walk_directories v current (c # cs) =
     (case fat_impl_find_entry v current c of
        None \<Rightarrow> None
      | Some found \<Rightarrow>
          if e_attr found AND FAT_ATTR_DIRECTORY = 0 then None
          else if e_cluster found = 0 then walk_directories v (root_directory v) cs
          else if cluster_is_valid v (e_cluster found) then walk_directories v \<lparr>dfirst = e_cluster found, is_root = False\<rparr> cs
          else None)"

definition resolve_parent :: "fat_volume \<Rightarrow> bytes \<Rightarrow> (fat_dir \<times> bytes) option" where
  "resolve_parent v path =
     (case split_path path of
        None \<Rightarrow> None
      | Some parts \<Rightarrow>
          if parts = [] then None
          else (case walk_directories v (root_directory v) (butlast parts) of
                  None \<Rightarrow> None
                | Some d \<Rightarrow> Some (d, last parts)))"

definition path_ends_with_dot_component :: "bytes \<Rightarrow> bool" where
  "path_ends_with_dot_component path =
     (if FAT_PATH_MAX \<le> length path then True
      else
        (let comp = takeWhile (\<lambda>c. \<not> is_separator c) (dropWhile is_separator (rev path)) in comp = [46] \<or> comp = [46, 46]))"

record fat_stat =
  st_cluster :: u32
  st_size :: u64
  st_attr :: u8
  st_is_dir :: bool

definition fat_stat :: "fat_volume \<Rightarrow> bytes \<Rightarrow> fat_stat option" where
  "fat_stat v path =
     (if split_path path = Some []
      then Some \<lparr>st_cluster = root_cluster v, st_size = 0, st_attr = FAT_ATTR_DIRECTORY, st_is_dir = True\<rparr>
      else case resolve_parent v path of
             None \<Rightarrow> None
           | Some (parent, leaf) \<Rightarrow>
               (case fat_impl_find_entry v parent leaf of
                  None \<Rightarrow> None
                | Some found \<Rightarrow> Some \<lparr>st_cluster = e_cluster found, st_size = e_size found, st_attr = e_attr found,
                                     st_is_dir = (e_attr found AND FAT_ATTR_DIRECTORY \<noteq> 0)\<rparr>))"

definition fat_file_from_entry :: "fat_volume \<Rightarrow> nat \<Rightarrow> fat_file" where
  "fat_file_from_entry v a =
     \<lparr>first_cluster = fat_impl_entry_get_cluster v a, cur_cluster = fat_impl_entry_get_cluster v a,
      fsize = ucast (fat_impl_entry_get_size v a), pos = 0, dir_ent = Some a\<rparr>"

definition fat_open :: "fat_volume \<Rightarrow> bytes \<Rightarrow> fat_file option" where
  "fat_open v path =
     (case resolve_parent v path of
        None \<Rightarrow> None
      | Some (parent, leaf) \<Rightarrow>
          (case fat_impl_find_entry v parent leaf of
             None \<Rightarrow> None
           | Some found \<Rightarrow>
               if e_attr found AND FAT_ATTR_DIRECTORY \<noteq> 0 then None
               else if e_size found \<noteq> 0 \<and> \<not> cluster_is_valid v (e_cluster found) then None
               else Some (fat_file_from_entry v (e_raw found))))"

definition fat_create_at :: "fat_dir \<Rightarrow> bytes \<Rightarrow> fat_volume \<Rightarrow> found_entry option \<times> fat_volume" where
  "fat_create_at parent name v =
     (case fat_impl_find_entry v parent name of
        Some _ \<Rightarrow> (None, v)
      | None \<Rightarrow> fat_impl_create_entry parent name FAT_ATTR_ARCHIVE 0 v)"

definition fat_create :: "bytes \<Rightarrow> fat_volume \<Rightarrow> fat_file option \<times> fat_volume" where
  "fat_create path v =
     (case resolve_parent v path of
        None \<Rightarrow> (None, v)
      | Some (parent, name) \<Rightarrow>
          (case fat_create_at parent name v of
             (None, v1) \<Rightarrow> (None, v1)
           | (Some e, v1) \<Rightarrow> (Some (fat_file_from_entry v1 (e_raw e)), v1)))"

definition fat_remove_at :: "fat_dir \<Rightarrow> bytes \<Rightarrow> bool \<Rightarrow> fat_volume \<Rightarrow> int \<times> fat_volume" where
  "fat_remove_at parent name is_directory v =
     (case fat_impl_find_entry v parent name of
        None \<Rightarrow> (-1, v)
      | Some e \<Rightarrow>
          if (e_attr e AND FAT_ATTR_DIRECTORY \<noteq> 0) \<noteq> is_directory then (-1, v)
          else if is_directory \<and> fat_impl_dir_is_empty v (e_cluster e) \<noteq> 0 then (-1, v)
          else (0, fat_impl_erase_entry parent e (if e_cluster e \<noteq> 0 then fat_impl_free_chain (e_cluster e) v else v)))"

definition fat_unlink :: "bytes \<Rightarrow> fat_volume \<Rightarrow> int \<times> fat_volume" where
  "fat_unlink path v =
     (case resolve_parent v path of None \<Rightarrow> (-1, v) | Some (parent, name) \<Rightarrow> fat_remove_at parent name False v)"

definition fat_rmdir :: "bytes \<Rightarrow> fat_volume \<Rightarrow> int \<times> fat_volume" where
  "fat_rmdir path v =
     (if path_ends_with_dot_component path then (-1, v)
      else case resolve_parent v path of None \<Rightarrow> (-1, v) | Some (parent, name) \<Rightarrow> fat_remove_at parent name True v)"

definition fat_mkdir_at :: "fat_dir \<Rightarrow> bytes \<Rightarrow> fat_volume \<Rightarrow> int \<times> fat_volume" where
  "fat_mkdir_at parent name v =
     (case fat_impl_find_entry v parent name of
        Some _ \<Rightarrow> (-1, v)
      | None \<Rightarrow>
          (let (c, v1) = fat_impl_alloc_cluster v
           in if c = 0 then (-1, v1)
              else
                (let (r, v2) = fat_impl_init_dir_cluster c parent v1
                 in if r \<noteq> 0 then (-1, fat_impl_free_chain c v2)
                    else case fat_impl_create_entry parent name FAT_ATTR_DIRECTORY c v2 of
                           (None, v3) \<Rightarrow> (-1, fat_impl_free_chain c v3)
                         | (Some _, v3) \<Rightarrow> (0, v3))))"

definition fat_mkdir :: "bytes \<Rightarrow> fat_volume \<Rightarrow> int \<times> fat_volume" where
  "fat_mkdir path v =
     (case resolve_parent v path of None \<Rightarrow> (-1, v) | Some (parent, name) \<Rightarrow> fat_mkdir_at parent name v)"

definition fat_read_dir :: "fat_volume \<Rightarrow> bytes \<Rightarrow> nat \<Rightarrow> nat \<Rightarrow> int \<times> bytes \<times> nat" where
  "fat_read_dir v path index len =
     (case split_path path of
        None \<Rightarrow> (-1, [], index)
      | Some parts \<Rightarrow>
          (case walk_directories v (root_directory v) parts of
             None \<Rightarrow> (-1, [], index)
           | Some d \<Rightarrow> fat_impl_read_dir v d index len))"

definition fat_read_root_dir :: "fat_volume \<Rightarrow> nat \<Rightarrow> nat \<Rightarrow> int \<times> bytes \<times> nat" where
  "fat_read_root_dir v index len = fat_read_dir v [47] index len"

definition fat_read_dir_one :: "fat_volume \<Rightarrow> bytes \<Rightarrow> nat \<Rightarrow> nat \<Rightarrow> (int + (bytes \<times> bool)) \<times> nat" where
  "fat_read_dir_one v path index len =
     (case split_path path of
        None \<Rightarrow> (Inl (-1), index)
      | Some parts \<Rightarrow>
          (case walk_directories v (root_directory v) parts of
             None \<Rightarrow> (Inl (-1), index)
           | Some d \<Rightarrow> fat_impl_read_dir_one v d index len))"

end
