(* ===== verification/Fat_Volume.thy ===== *)
theory Fat_Volume
  imports Fat
begin

text \<open>
  The volume layer of the FAT model: what mounting guarantees about the layout, the allocation table
  as a function on clusters, and the allocation and release of clusters in terms of it.
\<close>

section \<open>Bytes and fields\<close>

text \<open>Everything but the image and the device contents; no operation after mounting changes it.\<close>

definition geo :: "fat_volume \<Rightarrow> fat_volume" where
  "geo v = v\<lparr>img := (\<lambda>_. 0), disk := (\<lambda>_. 0)\<rparr>"

lemma geo_fields:
  assumes "geo v = geo w"
  shows "image_size v = image_size w" "bytes_per_sector v = bytes_per_sector w" "sectors_per_cluster v = sectors_per_cluster w"
    "fat_count v = fat_count w" "sectors_per_fat v = sectors_per_fat w" "fat_start_sector v = fat_start_sector w"
    "root_start_sector v = root_start_sector w" "data_start_sector v = data_start_sector w" "root_entries v = root_entries w"
    "root_cluster v = root_cluster w" "cluster_limit v = cluster_limit w" "vtype v = vtype w" "write_sector v = write_sector w"
    "now v = now w"
proof -
  note e = arg_cong [OF assms]
  show "image_size v = image_size w" "bytes_per_sector v = bytes_per_sector w" "sectors_per_cluster v = sectors_per_cluster w"
    "fat_count v = fat_count w" "sectors_per_fat v = sectors_per_fat w" "fat_start_sector v = fat_start_sector w"
    "root_start_sector v = root_start_sector w" "data_start_sector v = data_start_sector w" "root_entries v = root_entries w"
    "root_cluster v = root_cluster w" "cluster_limit v = cluster_limit w" "vtype v = vtype w" "write_sector v = write_sector w"
    "now v = now w"
    using e [of image_size] e [of bytes_per_sector] e [of sectors_per_cluster] e [of fat_count] e [of sectors_per_fat]
      e [of fat_start_sector] e [of root_start_sector] e [of data_start_sector] e [of root_entries] e [of root_cluster]
      e [of cluster_limit] e [of vtype] e [of write_sector] e [of now]
    by (simp_all add: geo_def)
qed

lemma put_simps [simp]:
  "geo (put a bs v) = geo v" "disk (put a bs v) = disk v"
  "img (put a bs v) x = (if a \<le> x \<and> x < a + length bs then bs ! (x - a) else img v x)"
  by (simp_all add: put_def geo_def)

lemma flush_sector_simps [simp]: "geo (fat_flush_sector l v) = geo v" "img (fat_flush_sector l v) = img v"
  by (simp_all add: fat_flush_sector_def geo_def split: option.split)

lemma flush_fold_simps [simp]: "geo (fold fat_flush_sector ls v) = geo v" "img (fold fat_flush_sector ls v) = img v"
  by (induction ls arbitrary: v) simp_all

lemma flush_simps [simp]: "geo (fat_flush_bytes a n v) = geo v" "img (fat_flush_bytes a n v) = img v"
  by (simp_all add: fat_flush_bytes_def Let_def)

lemma len_w [simp]: "length (w16 x) = 2" "length (w32 y) = 4"
  by (simp_all add: w16_def w32_def)

lemma get_cong:
  "(\<And>i. i < 2 \<Longrightarrow> f (a + i) = g (a + i)) \<Longrightarrow> get16 f a = get16 g a"
  "(\<And>i. i < 4 \<Longrightarrow> f (a + i) = g (a + i)) \<Longrightarrow> get32 f a = get32 g a"
proof -
  assume h: "\<And>i. i < 2 \<Longrightarrow> f (a + i) = g (a + i)"
  show "get16 f a = get16 g a" using h [of 0] h [of 1] by (simp add: get16_def)
next
  assume h: "\<And>i. i < 4 \<Longrightarrow> f (a + i) = g (a + i)"
  show "get32 f a = get32 g a" using h [of 0] h [of 1] h [of 2] h [of 3] by (simp add: get32_def)
qed

lemma get16_put [simp]: "get16 (img (put a (w16 x) v)) a = x"
  by (simp add: get16_def w16_def, rule bit_word_eqI) (auto simp: bit_simps)

lemma get32_put [simp]: "get32 (img (put a (w32 x) v)) a = x"
proof -
  have "get32 (img (put a (w32 x) v)) a = ucast (ucast x :: u8) OR push_bit 8 (ucast (ucast (drop_bit 8 x) :: u8))
      OR push_bit 16 (ucast (ucast (drop_bit 16 x) :: u8)) OR push_bit 24 (ucast (ucast (drop_bit 24 x) :: u8))"
    by (simp add: get32_def w32_def numeral_3_eq_3)
  also have "\<dots> = x"
  proof (rule bit_word_eqI)
    fix n assume "n < LENGTH(32)"
    then show "bit (ucast (ucast x :: u8) OR push_bit 8 (ucast (ucast (drop_bit 8 x) :: u8))
      OR push_bit 16 (ucast (ucast (drop_bit 16 x) :: u8)) OR push_bit 24 (ucast (ucast (drop_bit 24 x) :: u8)) :: u32) n = bit x n"
      by (cases "n < 16"; cases "n < 24") (auto simp: bit_simps)
  qed
  finally show ?thesis .
qed

section \<open>Layout\<close>

abbreviation width :: "fat_volume \<Rightarrow> nat" where "width v \<equiv> if vtype v = FAT_TYPE_32 then 4 else 2"
abbreviation bps :: "fat_volume \<Rightarrow> nat" where "bps v \<equiv> unat (bytes_per_sector v)"
abbreviation limit :: "fat_volume \<Rightarrow> nat" where "limit v \<equiv> unat (cluster_limit v)"

text \<open>
  The regions of a mounted volume: reserved sectors, the copies of the table, the fixed root, the
  clusters.  Nothing wraps, each table has an entry for every cluster, and everything is inside the
  image.
\<close>

definition vol_wf :: "fat_volume \<Rightarrow> bool" where
  "vol_wf v \<longleftrightarrow>
     512 \<le> bps v \<and> bps v \<le> 4096 \<and> 32 dvd bps v \<and> sectors_per_cluster v \<noteq> 0 \<and> fat_count v \<noteq> 0 \<and> vtype v \<noteq> FAT_TYPE_NONE \<and>
     unat (root_start_sector v) = unat (fat_start_sector v) + unat (fat_count v) * unat (sectors_per_fat v) \<and>
     unat (root_start_sector v) * bps v + 32 * unat (root_entries v) \<le> unat (data_start_sector v) * bps v \<and>
     width v * limit v \<le> unat (sectors_per_fat v) * bps v \<and>
     2 < limit v \<and> limit v < (if vtype v = FAT_TYPE_32 then 0x0FFFFFF0 else 0xFFF0) \<and>
     (unat (data_start_sector v) + (limit v - 2) * unat (sectors_per_cluster v)) * bps v \<le> image_size v \<and>
     unat (data_start_sector v) + (limit v - 2) * unat (sectors_per_cluster v) < 2 ^ 32 \<and>
     (vtype v = FAT_TYPE_32 \<longrightarrow> 2 \<le> root_cluster v \<and> root_cluster v < cluster_limit v)"

lemma vol_wfD:
  assumes "vol_wf v"
  shows "512 \<le> bps v" "bps v \<le> 4096" "32 dvd bps v" "unat (sectors_per_cluster v) \<noteq> 0" "0 < unat (fat_count v)" "vtype v \<noteq> FAT_TYPE_NONE"
    "unat (root_start_sector v) = unat (fat_start_sector v) + unat (fat_count v) * unat (sectors_per_fat v)"
    "unat (root_start_sector v) * bps v + 32 * unat (root_entries v) \<le> unat (data_start_sector v) * bps v"
    "width v * limit v \<le> unat (sectors_per_fat v) * bps v"
    "2 < limit v" "limit v < (if vtype v = FAT_TYPE_32 then 0x0FFFFFF0 else 0xFFF0)"
    "(unat (data_start_sector v) + (limit v - 2) * unat (sectors_per_cluster v)) * bps v \<le> image_size v"
    "unat (data_start_sector v) + (limit v - 2) * unat (sectors_per_cluster v) < 2 ^ 32"
  using assms unfolding vol_wf_def unat_gt_0 unat_eq_zero by blast+

lemma vol_wf_geo: "geo v = geo w \<Longrightarrow> vol_wf v = vol_wf w"
  unfolding vol_wf_def by (simp only: geo_fields [of v w])

definition cl :: "fat_volume \<Rightarrow> u32 \<Rightarrow> nat" where
  "cl v c = (unat (data_start_sector v) + (unat c - 2) * unat (sectors_per_cluster v)) * bps v"

definition cb :: "fat_volume \<Rightarrow> nat" where
  "cb v = unat (sectors_per_cluster v) * bps v"

definition tab :: "fat_volume \<Rightarrow> nat \<Rightarrow> u32 \<Rightarrow> nat" where
  "tab v f c = (unat (fat_start_sector v) + f * unat (sectors_per_fat v)) * bps v + width v * unat c"

lemma addr_geo: "geo v = geo w \<Longrightarrow> cl v = cl w \<and> cb v = cb w \<and> tab v = tab w"
  by (simp add: fun_eq_iff cl_def cb_def tab_def geo_fields [of v w])

lemma valid_iff: "cluster_is_valid v c \<longleftrightarrow> 2 \<le> unat c \<and> unat c < limit v"
  by (simp add: cluster_is_valid_def word_le_nat_alt word_less_nat_alt)

lemma valid_geo: "geo v = geo w \<Longrightarrow> cluster_is_valid v c = cluster_is_valid w c"
  by (simp add: cluster_is_valid_def geo_fields [of v w])

lemma unat_cluster_bytes: "unat (cluster_bytes v) = cb v"
proof -
  have a: "unat (sectors_per_cluster v) < 2 ^ 8" "bps v < 2 ^ 16" 
    using unsigned_less [of "sectors_per_cluster v", where 'a = nat] unsigned_less [of "bytes_per_sector v", where 'a = nat] by simp_all
  have u: "unat (ucast (sectors_per_cluster v) :: u32) = unat (sectors_per_cluster v)" "unat (ucast (bytes_per_sector v) :: u32) = bps v"
    using a by (simp_all add: unsigned_ucast_eq take_bit_eq_mod)
  have "unat (sectors_per_cluster v) * bps v < 2 ^ 8 * 2 ^ 16" using a by (intro mult_strict_mono) simp_all
  then show ?thesis by (simp add: cluster_bytes_def cb_def unat_word_ariths u)
qed

lemma cb_bounds:
  assumes "vol_wf v"
  shows "512 \<le> cb v" "cb v < 2 ^ 20" "32 dvd cb v" "bps v dvd cb v" "cluster_bytes v \<noteq> 0"
proof -
  have w: "512 \<le> bps v" "bps v \<le> 4096" "32 dvd bps v" "unat (sectors_per_cluster v) \<noteq> 0"
    by (rule vol_wfD [OF assms])+
  have s: "unat (sectors_per_cluster v) < 256" using unsigned_less [of "sectors_per_cluster v", where 'a = nat] by simp
  show "32 dvd cb v" "bps v dvd cb v" using w(3) by (simp_all add: cb_def)
  have "1 * 512 \<le> unat (sectors_per_cluster v) * bps v" using w by (intro mult_le_mono) simp_all
  then show *: "512 \<le> cb v" by (simp add: cb_def)
  have "unat (sectors_per_cluster v) * bps v \<le> 255 * 4096" using w s by (intro mult_le_mono) simp_all
  then show "cb v < 2 ^ 20" by (simp add: cb_def)
  show "cluster_bytes v \<noteq> 0" using * unat_cluster_bytes [of v] by (auto simp flip: unat_eq_zero)
qed

lemma cluster_data_valid:
  assumes "vol_wf v" "cluster_is_valid v c"
  shows "cluster_data v c = Some (cl v c)"
proof -
  have w: "unat (data_start_sector v) + (limit v - 2) * unat (sectors_per_cluster v) < 2 ^ 32" by (rule vol_wfD [OF assms(1)])
  have c: "2 \<le> unat c" "unat c < limit v" using assms(2) by (simp_all add: valid_iff)
  have s: "unat (ucast (sectors_per_cluster v) :: u32) = unat (sectors_per_cluster v)"
    using unsigned_less [of "sectors_per_cluster v", where 'a = nat] by (simp add: unsigned_ucast_eq take_bit_eq_mod)
  have u: "unat (c - 2) = unat c - 2" using c(1) by (simp add: unat_sub word_le_nat_alt)
  have "(unat c - 2) * unat (sectors_per_cluster v) \<le> (limit v - 2) * unat (sectors_per_cluster v)" using c by (intro mult_le_mono1) simp
  then have b: "unat (data_start_sector v) + (unat c - 2) * unat (sectors_per_cluster v) < 2 ^ 32" using w by linarith
  have p: "unat ((c - 2) * ucast (sectors_per_cluster v) :: u32) = (unat c - 2) * unat (sectors_per_cluster v)"
    using b by (simp add: unat_word_ariths u s)
  have "unat (data_start_sector v + (c - 2) * ucast (sectors_per_cluster v)) = unat (data_start_sector v) + (unat c - 2) * unat (sectors_per_cluster v)"
    using b by (simp add: unat_word_ariths(1) p)
  then show ?thesis using assms(2) by (simp add: cluster_data_def sector_def cl_def)
qed

lemma cluster_region:
  assumes "vol_wf v" "cluster_is_valid v c"
  shows "unat (data_start_sector v) * bps v \<le> cl v c" "cl v c + cb v \<le> image_size v"
    "cl v c = unat (data_start_sector v) * bps v + (unat c - 2) * cb v"
proof -
  have c: "2 \<le> unat c" "unat c < limit v" using assms(2) by (simp_all add: valid_iff)
  show e: "cl v c = unat (data_start_sector v) * bps v + (unat c - 2) * cb v"
    by (simp add: cl_def cb_def algebra_simps)
  then show "unat (data_start_sector v) * bps v \<le> cl v c" by simp
  have "(unat c - 2 + 1) * cb v \<le> (limit v - 2) * cb v" using c by (intro mult_le_mono1) simp
  moreover have "unat (data_start_sector v) * bps v + (limit v - 2) * cb v \<le> image_size v"
    using vol_wfD(12) [OF assms(1)] by (simp add: cb_def add_mult_distrib mult.assoc)
  ultimately show "cl v c + cb v \<le> image_size v" unfolding e by (simp add: algebra_simps)
qed

lemma clusters_disjoint:
  assumes "vol_wf v" "cluster_is_valid v c" "cluster_is_valid v d" "c \<noteq> d"
  shows "cl v c + cb v \<le> cl v d \<or> cl v d + cb v \<le> cl v c"
proof -
  have n: "unat c \<noteq> unat d" using assms(4) by (simp add: word_unat_eq_iff)
  have v: "2 \<le> unat c" "2 \<le> unat d" using assms(2,3) by (simp_all add: valid_iff)
  note e = cluster_region(3) [OF assms(1,2)] cluster_region(3) [OF assms(1,3)]
  show ?thesis
  proof (cases "unat c < unat d")
    case True
    then have "(unat c - 2 + 1) * cb v \<le> (unat d - 2) * cb v" using v by (intro mult_le_mono1) simp
    then show ?thesis unfolding e by (simp add: algebra_simps)
  next
    case False
    then have "(unat d - 2 + 1) * cb v \<le> (unat c - 2) * cb v" using v n by (intro mult_le_mono1) simp
    then show ?thesis unfolding e by (simp add: algebra_simps)
  qed
qed

lemma table_sector:
  assumes "vol_wf v" "f < unat (fat_count v)"
  shows "sector v (fat_start_sector v + of_nat f * sectors_per_fat v) = (unat (fat_start_sector v) + f * unat (sectors_per_fat v)) * bps v"
proof -
  have r: "unat (fat_start_sector v) + unat (fat_count v) * unat (sectors_per_fat v) < 2 ^ 32"
    using vol_wfD(7) [OF assms(1)] unsigned_less [of "root_start_sector v", where 'a = nat] by simp
  have "f * unat (sectors_per_fat v) \<le> unat (fat_count v) * unat (sectors_per_fat v)" using assms(2) by (intro mult_le_mono1) simp
  then have b: "unat (fat_start_sector v) + f * unat (sectors_per_fat v) < 2 ^ 32" using r by linarith
  have f: "unat (of_nat f :: u32) = f"
    using assms(2) unsigned_less [of "fat_count v", where 'a = nat] by (simp add: unat_of_nat take_bit_eq_mod)
  have p: "unat (of_nat f * sectors_per_fat v) = f * unat (sectors_per_fat v)" using b by (simp add: unat_word_ariths f)
  have "unat (fat_start_sector v + of_nat f * sectors_per_fat v) = unat (fat_start_sector v) + f * unat (sectors_per_fat v)"
    using b by (simp add: unat_word_ariths(1) p)
  then show ?thesis by (simp add: sector_def)
qed

lemma table_region:
  assumes "vol_wf v" "f < unat (fat_count v)" "unat c < limit v"
  shows "unat (fat_start_sector v) * bps v \<le> tab v f c" "tab v f c + width v \<le> unat (root_start_sector v) * bps v"
    "tab v f c + width v \<le> (unat (fat_start_sector v) + (f + 1) * unat (sectors_per_fat v)) * bps v"
proof -
  show "unat (fat_start_sector v) * bps v \<le> tab v f c" by (simp add: tab_def algebra_simps)
  have "width v * (unat c + 1) \<le> width v * limit v" using assms(3) by (intro mult_le_mono2) simp
  then have "width v * unat c + width v \<le> unat (sectors_per_fat v) * bps v" 
    using vol_wfD(9) [OF assms(1)] by (simp only: distrib_left mult_1_right)
  then show a: "tab v f c + width v \<le> (unat (fat_start_sector v) + (f + 1) * unat (sectors_per_fat v)) * bps v"
    by (simp add: tab_def algebra_simps)
  have "(f + 1) * unat (sectors_per_fat v) \<le> unat (fat_count v) * unat (sectors_per_fat v)" using assms(2) by (intro mult_le_mono1) simp
  then have "(unat (fat_start_sector v) + (f + 1) * unat (sectors_per_fat v)) * bps v \<le> unat (root_start_sector v) * bps v"
    using vol_wfD(7) [OF assms(1)] by (intro mult_le_mono1) simp
  then show "tab v f c + width v \<le> unat (root_start_sector v) * bps v" using a by linarith
qed

lemma table_before_data:
  assumes "vol_wf v" "f < unat (fat_count v)" "unat c < limit v" "cluster_is_valid v d"
  shows "tab v f c + width v \<le> cl v d"
proof -
  have "unat (root_start_sector v) * bps v \<le> unat (data_start_sector v) * bps v" using vol_wfD(8) [OF assms(1)] by linarith
  then show ?thesis using table_region(2) [OF assms(1-3)] cluster_region(1) [OF assms(1,4)] by linarith
qed

lemma table_entries_disjoint:
  assumes "vol_wf v" "f < unat (fat_count v)" "g < unat (fat_count v)" "unat c < limit v" "unat d < limit v" "(f, c) \<noteq> (g, d)"
  shows "tab v f c + width v \<le> tab v g d \<or> tab v g d + width v \<le> tab v f c"
proof (cases "f = g")
  case True
  then have n: "unat c \<noteq> unat d" using assms(6) by (auto simp: word_unat_eq_iff)
  show ?thesis
  proof (cases "unat c < unat d")
    case True
    then have "width v * (unat c + 1) \<le> width v * unat d" by (intro mult_le_mono2) simp
    then show ?thesis using \<open>f = g\<close> by (simp add: tab_def split: if_splits)
  next
    case False
    then have "width v * (unat d + 1) \<le> width v * unat c" using n by (intro mult_le_mono2) simp
    then show ?thesis using \<open>f = g\<close> by (simp add: tab_def split: if_splits)
  qed
next
  case False
  have base: "(unat (fat_start_sector v) + (i + 1) * unat (sectors_per_fat v)) * bps v \<le> tab v j e" if "i < j" for i j e
  proof -
    have "(i + 1) * unat (sectors_per_fat v) \<le> j * unat (sectors_per_fat v)" using that by (intro mult_le_mono1) simp
    then have "(unat (fat_start_sector v) + (i + 1) * unat (sectors_per_fat v)) * bps v \<le> (unat (fat_start_sector v) + j * unat (sectors_per_fat v)) * bps v"
      by (intro mult_le_mono1) simp
    then show ?thesis unfolding tab_def by (rule trans_le_add1)
  qed
  show ?thesis
  proof (cases "f < g")
    case True
    then show ?thesis using base [of f g d] table_region(3) [OF assms(1,2,4)] by linarith
  next
    case n: False
    then have "g < f" using False by simp
    then show ?thesis using base [of g f c] table_region(3) [OF assms(1,3,5)] by linarith
  qed
qed

section \<open>The table\<close>

text \<open>The entry of cluster \<open>c\<close> in copy \<open>f\<close>, and what storing a value leaves of it.\<close>

definition ent :: "fat_volume \<Rightarrow> nat \<Rightarrow> u32 \<Rightarrow> u32" where
  "ent v f c =
     (if vtype v = FAT_TYPE_32 then get32 (img v) (tab v f c) AND 0x0FFFFFFF else ucast (get16 (img v) (tab v f c)))"

definition msk :: "fat_volume \<Rightarrow> u32 \<Rightarrow> u32" where
  "msk v y = (if vtype v = FAT_TYPE_32 then y AND 0x0FFFFFFF else ucast (ucast y :: u16))"

definition set_copy :: "u32 \<Rightarrow> u32 \<Rightarrow> nat \<Rightarrow> fat_volume \<Rightarrow> fat_volume" where
  "set_copy c y f v =
     (let table = sector v (fat_start_sector v + of_nat f * sectors_per_fat v);
          n = (if vtype v = FAT_TYPE_16 then 2 else 4)
      in fat_flush_bytes (table + unat c * n) n (fat_put table c y v))"

lemma geo_fat_put [simp]: "geo (fat_put t c y v) = geo v"
  by (simp add: fat_put_def)

lemma geo_set_copy [simp]: "geo (set_copy c y f v) = geo v"
  by (simp add: set_copy_def Let_def)

lemma ent_cong:
  assumes "geo w = geo v" "\<And>x. tab v f c \<le> x \<Longrightarrow> x < tab v f c + width v \<Longrightarrow> img w x = img v x"
  shows "ent w f c = ent v f c"
proof -
  have "tab w f c = tab v f c" "vtype w = vtype v" using assms(1) addr_geo [of w v] geo_fields(12) [of w v] by simp_all
  then show ?thesis using assms(2) by (auto simp: ent_def intro!: arg_cong [where f = "\<lambda>x. x AND 268435455"] arg_cong [where f = ucast] get_cong)
qed

lemma set_copy_effect:
  assumes "vol_wf v" "f < unat (fat_count v)"
  shows "ent (set_copy c y f v) f c = msk v y"
    "\<not> (tab v f c \<le> x \<and> x < tab v f c + width v) \<Longrightarrow> img (set_copy c y f v) x = img v x"
proof -
  let ?t = "(unat (fat_start_sector v) + f * unat (sectors_per_fat v)) * bps v"
  have i: "img (set_copy c y f v) = img (fat_put ?t c y v)"
    by (simp add: set_copy_def Let_def table_sector [OF assms])
  have t: "tab (set_copy c y f v) f c = tab v f c" "vtype (set_copy c y f v) = vtype v"
    using addr_geo [of "set_copy c y f v" v] geo_fields(12) [of "set_copy c y f v" v] by simp_all
  show "ent (set_copy c y f v) f c = msk v y"
  proof (cases "vtype v = FAT_TYPE_32")
    case True
    have "((x AND 0xF0000000) OR (y AND 0x0FFFFFFF)) AND 0x0FFFFFFF = y AND (0x0FFFFFFF :: u32)" for x
    proof -
      have "x AND 0xF0000000 AND 0x0FFFFFFF = (0 :: u32)" by (simp add: and.assoc)
      then show ?thesis by (simp add: bit.conj_disj_distrib2 and.assoc)
    qed
    then show ?thesis unfolding ent_def t i using True by (simp add: fat_put_def msk_def tab_def del: put_simps)
  next
    case False
    then show ?thesis unfolding ent_def t i by (simp add: fat_put_def msk_def tab_def del: put_simps)
  qed
  assume "\<not> (tab v f c \<le> x \<and> x < tab v f c + width v)"
  then show "img (set_copy c y f v) x = img v x" by (auto simp: i fat_put_def tab_def)
qed

lemma fat_set_fold: "fat_set c y v = fold (set_copy c y) [0..<unat (fat_count v)] v"
proof -
  have "fold (\<lambda>f v. let table = sector v (fat_start_sector v + of_nat f * sectors_per_fat v)
                 in fat_flush_bytes (table + unat c * (if t = FAT_TYPE_16 then 2 else 4)) (if t = FAT_TYPE_16 then 2 else 4) (fat_put table c y v)) fs w
     = fold (set_copy c y) fs w" if "vtype w = t" for t fs w
    using that
  proof (induction fs arbitrary: w)
    case (Cons f fs)
    have "vtype (set_copy c y f w) = t" using Cons.prems geo_fields(12) [of "set_copy c y f w" w] by simp
    then show ?case using Cons by (simp add: set_copy_def Let_def)
  qed simp
  then show ?thesis by (simp add: fat_set_def Let_def)
qed

lemma fat_set_effect:
  assumes wf: "vol_wf v" and c: "unat c < limit v"
  shows "geo (fat_set c y v) = geo v"
    "\<lbrakk>\<And>f. f < unat (fat_count v) \<Longrightarrow> \<not> (tab v f c \<le> x \<and> x < tab v f c + width v)\<rbrakk> \<Longrightarrow> img (fat_set c y v) x = img v x"
    "f < unat (fat_count v) \<Longrightarrow> unat d < limit v \<Longrightarrow> ent (fat_set c y v) f d = (if d = c then msk v y else ent v f d)"
proof -
  have *: "geo (fold (set_copy c y) [0..<n] v) = geo v
     \<and> (\<forall>x. (\<forall>f<n. \<not> (tab v f c \<le> x \<and> x < tab v f c + width v)) \<longrightarrow> img (fold (set_copy c y) [0..<n] v) x = img v x)
     \<and> (\<forall>f<n. ent (fold (set_copy c y) [0..<n] v) f c = msk v y)" if "n \<le> unat (fat_count v)" for n
    using that
  proof (induction n)
    case (Suc n)
    let ?w = "fold (set_copy c y) [0..<n] v"
    have ih: "geo ?w = geo v" "\<forall>x. (\<forall>f<n. \<not> (tab v f c \<le> x \<and> x < tab v f c + width v)) \<longrightarrow> img ?w x = img v x"
      "\<forall>f<n. ent ?w f c = msk v y"
      using Suc by auto
    have g: "vol_wf ?w" "fat_count ?w = fat_count v" "tab ?w = tab v" "vtype ?w = vtype v"
      using ih(1) wf vol_wf_geo [of ?w v] geo_fields(4,12) [of ?w v] addr_geo [of ?w v] by simp_all
    have n: "n < unat (fat_count ?w)" using Suc.prems g(2) by simp
    note e = set_copy_effect(1) [OF g(1) n, of c y] set_copy_effect(2) [OF g(1) n, of c _ y]
    have m: "msk ?w y = msk v y" by (simp add: msk_def g)
    have o: "ent (set_copy c y n ?w) f c = ent ?w f c" if "f < n" for f
    proof (rule ent_cong)
      fix x assume x: "tab ?w f c \<le> x" "x < tab ?w f c + width ?w"
      have "tab v f c + width v \<le> tab v n c \<or> tab v n c + width v \<le> tab v f c"
        using that Suc.prems by (intro table_entries_disjoint [OF wf _ _ c c]) auto
      then show "img (set_copy c y n ?w) x = img ?w x" using x by (intro e(2)) (auto simp: g simp del: if_split)
    qed simp
    show ?case using ih e(1) o m e(2) by (auto simp: g less_Suc_eq)
  qed simp
  note all = * [OF order_refl, folded fat_set_fold]
  show g: "geo (fat_set c y v) = geo v" using all by blast
  show "img (fat_set c y v) x = img v x" if "\<And>f. f < unat (fat_count v) \<Longrightarrow> \<not> (tab v f c \<le> x \<and> x < tab v f c + width v)"
    using all that by blast
  assume f: "f < unat (fat_count v)" and d: "unat d < limit v"
  show "ent (fat_set c y v) f d = (if d = c then msk v y else ent v f d)"
  proof (cases "d = c")
    case True
    then show ?thesis using all f by simp
  next
    case False
    have "ent (fat_set c y v) f d = ent v f d"
    proof (rule ent_cong [OF g])
      fix x assume x: "tab v f d \<le> x" "x < tab v f d + width v"
      have "\<not> (tab v k c \<le> x \<and> x < tab v k c + width v)" if "k < unat (fat_count v)" for k
        using table_entries_disjoint [OF wf f that d c] False x by auto
      then show "img (fat_set c y v) x = img v x" using all by blast
    qed
    then show ?thesis using False by simp
  qed
qed

lemma fat_get_ent: "vol_wf v \<Longrightarrow> fat_get v c = ent v 0 c"
  by (simp add: fat_get_def ent_def tab_def sector_def Let_def)

lemma fat_set_tail:
  assumes "vol_wf v" "unat c < limit v" "unat (root_start_sector v) * bps v \<le> x"
  shows "img (fat_set c y v) x = img v x"
  using table_region(2) [OF assms(1) _ assms(2)] assms(3) by (intro fat_set_effect(2) [OF assms(1,2)]) fastforce

section \<open>Clusters\<close>

definition cdata :: "fat_volume \<Rightarrow> u32 \<Rightarrow> bytes" where
  "cdata v c = map (\<lambda>i. img v (cl v c + i)) [0..<cb v]"

lemma cdata_cong:
  assumes "geo w = geo v" "\<And>x. cl v c \<le> x \<Longrightarrow> x < cl v c + cb v \<Longrightarrow> img w x = img v x"
  shows "cdata w c = cdata v c"
  using assms addr_geo [of w v] by (simp add: cdata_def)

lemma data_after_root: "vol_wf v \<Longrightarrow> cluster_is_valid v c \<Longrightarrow> unat (root_start_sector v) * bps v + 32 * unat (root_entries v) \<le> cl v c"
  using vol_wfD(8) [of v] cluster_region(1) [of v c] by linarith

lemma cdata_fat_set:
  assumes "vol_wf v" "unat c < limit v" "cluster_is_valid v d"
  shows "cdata (fat_set c y v) d = cdata v d"
  using fat_set_effect(1) [OF assms(1,2)] data_after_root [OF assms(1,3)]
  by (intro cdata_cong) (auto intro!: fat_set_tail [OF assms(1,2)])

lemma eoc_facts:
  assumes "vol_wf v"
  shows "cluster_is_eoc v (cluster_eoc v)" "msk v (cluster_eoc v) = cluster_eoc v" "cluster_eoc v \<noteq> 0"
    "cluster_is_valid v c \<Longrightarrow> \<not> cluster_is_eoc v c" "cluster_is_valid v c \<Longrightarrow> msk v c = c" "\<not> cluster_is_valid v 0" "\<not> cluster_is_eoc v 0"
proof -
  show "cluster_is_eoc v (cluster_eoc v)" "msk v (cluster_eoc v) = cluster_eoc v" "cluster_eoc v \<noteq> 0" "\<not> cluster_is_eoc v 0"
    by (simp_all add: cluster_is_eoc_def cluster_eoc_def msk_def)
  show "\<not> cluster_is_valid v 0" by (simp add: cluster_is_valid_def)
  assume c: "cluster_is_valid v c"
  then have b: "unat c < (if vtype v = FAT_TYPE_32 then 0x0FFFFFF0 else 0xFFF0)" using vol_wfD(11) [OF assms] by (simp add: valid_iff split: if_splits)
  then show "\<not> cluster_is_eoc v c" by (simp add: cluster_is_eoc_def word_le_nat_alt split: if_splits)
  show "msk v c = c"
  proof (cases "vtype v = FAT_TYPE_32")
    case True
    have m: "(0x0FFFFFFF :: u32) = mask 28" by (simp add: mask_eq_exp_minus_1)
    have "unat (take_bit 28 c) = unat c" using b True by (simp only: unsigned_take_bit_eq) (simp add: take_bit_eq_mod)
    then show ?thesis using True by (simp add: msk_def m take_bit_eq_mask [symmetric] word_unat_eq_iff)
  next
    case False
    then have "unat (ucast (ucast c :: u16) :: u32) = unat c" using b by (simp add: unsigned_ucast_eq take_bit_eq_mod unat_mod_distrib)
    then show ?thesis using False by (simp add: msk_def word_unat_eq_iff)
  qed
qed

lemma fat_claim_effect:
  assumes wf: "vol_wf v" and c: "cluster_is_valid v c"
  shows "geo (fat_claim c v) = geo v"
    "f < unat (fat_count v) \<Longrightarrow> unat d < limit v \<Longrightarrow> ent (fat_claim c v) f d = (if d = c then cluster_eoc v else ent v f d)"
    "cdata (fat_claim c v) c = replicate (cb v) 0"
    "unat (root_start_sector v) * bps v \<le> x \<Longrightarrow> \<not> (cl v c \<le> x \<and> x < cl v c + cb v) \<Longrightarrow> img (fat_claim c v) x = img v x"
proof -
  let ?v = "fat_set c (cluster_eoc v) v"
  have lc: "unat c < limit v" using c by (simp add: valid_iff)
  note s = fat_set_effect [OF wf lc, where y = "cluster_eoc v"]
  have g: "vol_wf ?v" "cluster_is_valid ?v c" "cl ?v = cl v" "cb ?v = cb v"
    using wf c s(1) vol_wf_geo [of ?v v] valid_geo [of ?v v] addr_geo [of ?v v] by simp_all
  have e: "fat_claim c v = fat_flush_bytes (cl v c) (cb v) (put (cl v c) (replicate (cb v) 0) ?v)"
    by (simp add: fat_claim_def Let_def cluster_data_valid [OF g(1,2)] unat_cluster_bytes g(3,4))
  show ge: "geo (fat_claim c v) = geo v" by (simp add: e s(1))
  show "img (fat_claim c v) x = img v x" if "unat (root_start_sector v) * bps v \<le> x" "\<not> (cl v c \<le> x \<and> x < cl v c + cb v)"
    using that by (auto simp: e fat_set_tail [OF wf lc])
  show "cdata (fat_claim c v) c = replicate (cb v) 0"
    using addr_geo [OF ge] by (auto simp: cdata_def e intro: nth_equalityI)
  assume f: "f < unat (fat_count v)" and d: "unat d < limit v"
  have "ent (fat_claim c v) f d = ent ?v f d"
  proof (rule ent_cong)
    show "geo (fat_claim c v) = geo ?v" using ge s(1) by simp
    fix x assume "tab ?v f d \<le> x" "x < tab ?v f d + width ?v"
    then have "x < cl v c" using table_before_data [OF wf f d c] addr_geo [OF s(1)] geo_fields(12) [OF s(1)] by simp
    then show "img (fat_claim c v) x = img ?v x" by (simp add: e)
  qed
  then show "ent (fat_claim c v) f d = (if d = c then cluster_eoc v else ent v f d)"
    using s(3) [OF f d] eoc_facts(2) [OF wf] by simp
qed

lemma alloc_cases:
  assumes "fat_impl_alloc_cluster v = (c, v')"
  shows "c = 0 \<and> v' = v \<and> (\<forall>d. cluster_is_valid v d \<longrightarrow> fat_get v d \<noteq> 0)
    \<or> cluster_is_valid v c \<and> fat_get v c = 0 \<and> (\<forall>d<c. cluster_is_valid v d \<longrightarrow> fat_get v d \<noteq> 0) \<and> v' = fat_claim c v"
proof (cases "find (\<lambda>c. fat_get v (of_nat c) = 0) [2..<limit v]")
  case None
  then have n: "\<forall>i. 2 \<le> i \<and> i < limit v \<longrightarrow> fat_get v (of_nat i) \<noteq> 0" by (simp add: find_upt_None_iff)
  have "fat_get v d \<noteq> 0" if "cluster_is_valid v d" for d
    using n [rule_format, of "unat d"] that by (simp add: valid_iff)
  then show ?thesis using None assms by (auto simp: fat_impl_alloc_cluster_def)
next
  case (Some i)
  then have i: "2 \<le> i" "i < limit v" "fat_get v (of_nat i) = 0" "\<forall>j. 2 \<le> j \<and> j < i \<longrightarrow> fat_get v (of_nat j) \<noteq> 0"
    by (simp_all add: find_upt_Some_iff)
  have c: "c = of_nat i" "v' = fat_claim c v" using Some assms by (auto simp: fat_impl_alloc_cluster_def)
  have u: "unat c = i" using i(2) unsigned_less [of "cluster_limit v", where 'a = nat] c(1) by (simp add: unat_of_nat take_bit_eq_mod)
  have "fat_get v d \<noteq> 0" if "cluster_is_valid v d" "d < c" for d
    using i(4) [rule_format, of "unat d"] that u by (simp add: valid_iff word_less_nat_alt)
  then show ?thesis using i c u by (auto simp: valid_iff)
qed

text \<open>A cluster chain: each entry names the next cluster, the last one ends the chain.\<close>

fun chain :: "fat_volume \<Rightarrow> u32 list \<Rightarrow> bool" where
  "chain v [] = False"
| "chain v [c] \<longleftrightarrow> cluster_is_valid v c \<and> cluster_is_eoc v (fat_get v c)"
| "chain v (c # d # cs) \<longleftrightarrow> cluster_is_valid v c \<and> fat_get v c = d \<and> chain v (d # cs)"

lemma chain_valid: "chain v cs \<Longrightarrow> c \<in> set cs \<Longrightarrow> cluster_is_valid v c"
  by (induction v cs rule: chain.induct) auto

lemma chain_append_drop: "chain v (xs @ y # ys) \<Longrightarrow> chain v (y # ys)"
proof (induction xs)
  case (Cons x xs)
  then show ?case by (cases xs) simp_all
qed simp

lemma chain_unique:
  assumes wf: "vol_wf v"
  shows "chain v xs \<Longrightarrow> chain v ys \<Longrightarrow> hd xs = hd ys \<Longrightarrow> xs = ys"
proof (induction xs arbitrary: ys)
  case (Cons c xs)
  obtain zs where ys: "ys = c # zs" using Cons.prems by (cases ys) auto
  show ?case
  proof (cases xs)
    case Nil
    then have "cluster_is_eoc v (fat_get v c)" using Cons.prems(1) by simp
    then have "zs = []" using Cons.prems(2) chain_valid [of v zs] eoc_facts(4) [OF wf] by (cases zs) (auto simp: ys)
    then show ?thesis using Nil ys by simp
  next
    case (Cons d ds)
    then have d: "fat_get v c = d" "chain v xs" using Cons.prems(1) by simp_all
    then have "\<not> cluster_is_eoc v d" using chain_valid [of v xs d] eoc_facts(4) [OF wf] Cons by simp
    then have "zs \<noteq> []" using Cons.prems(2) d(1) ys by auto
    then have "chain v zs" "hd zs = d" using Cons.prems(2) d(1) ys by (cases zs; simp)+
    then show ?thesis using Cons.IH [OF d(2), of zs] Cons ys by simp
  qed
qed simp

lemma chain_distinct:
  assumes wf: "vol_wf v" and "chain v cs"
  shows "distinct cs"
proof (rule ccontr)
  assume "\<not> distinct cs"
  then obtain xs ys zs y where cs: "cs = xs @ [y] @ ys @ [y] @ zs" using not_distinct_decomp by blast
  have "chain v (y # ys @ [y] @ zs)" using assms(2) chain_append_drop [of v xs y] by (simp add: cs)
  moreover have "chain v (y # zs)" using assms(2) chain_append_drop [of v "xs @ [y] @ ys" y zs] by (simp add: cs)
  ultimately show False using chain_unique [OF wf, of "y # ys @ [y] @ zs" "y # zs"] by simp
qed

lemma chain_length:
  assumes "vol_wf v" "chain v cs"
  shows "length cs \<le> limit v - 2"
proof -
  have "unat ` set cs \<subseteq> {2..<limit v}" using chain_valid [OF assms(2)] by (auto simp: valid_iff)
  then have "card (unat ` set cs) \<le> card {2..<limit v}" by (rule card_mono [rotated]) simp
  moreover have "card (unat ` set cs) = length cs"
    using distinct_card [OF chain_distinct [OF assms]] by (subst card_image) (simp_all add: inj_on_def word_unat_eq_iff)
  ultimately show ?thesis by simp
qed

lemma eoc_geo: "geo v = geo w \<Longrightarrow> cluster_is_eoc v x = cluster_is_eoc w x \<and> cluster_eoc v = cluster_eoc w \<and> msk v y = msk w y"
  by (simp add: cluster_is_eoc_def cluster_eoc_def msk_def geo_fields [of v w])

lemma chain_cong:
  assumes "geo w = geo v"
  shows "(\<And>c. c \<in> set cs \<Longrightarrow> fat_get w c = fat_get v c) \<Longrightarrow> chain w cs = chain v cs"
proof (induction cs)
  case (Cons c cs)
  then show ?case using valid_geo [OF assms] eoc_geo [OF assms] by (cases cs) auto
qed simp

lemma fat_get_set:
  assumes "vol_wf v" "cluster_is_valid v c" "cluster_is_valid v d"
  shows "fat_get (fat_set c y v) d = (if d = c then msk v y else fat_get v d)"
proof -
  have l: "unat c < limit v" "unat d < limit v" using assms(2,3) by (simp_all add: valid_iff)
  have "vol_wf (fat_set c y v)" using vol_wf_geo [OF fat_set_effect(1) [OF assms(1) l(1)]] assms(1) by simp
  then show ?thesis using fat_set_effect(3) [OF assms(1) l(1) vol_wfD(5) [OF assms(1)] l(2)] assms(1) by (simp add: fat_get_ent)
qed

section \<open>Abstract view\<close>

text \<open>
  What the volume layer provides: clusters with a link and contents, and any number of copies of the
  table that agree.
\<close>

datatype cell = Free | Next u32 | Final | Bad

type_synonym store = "u32 \<rightharpoonup> cell \<times> bytes"

definition cell_of :: "fat_volume \<Rightarrow> u32 \<Rightarrow> cell" where
  "cell_of v x = (if x = 0 then Free else if cluster_is_eoc v x then Final else if cluster_is_valid v x then Next x else Bad)"

definition store_of :: "fat_volume \<Rightarrow> store" where
  "store_of v = (\<lambda>c. if cluster_is_valid v c then Some (cell_of v (fat_get v c), cdata v c) else None)"

definition mirrored :: "fat_volume \<Rightarrow> bool" where
  "mirrored v \<longleftrightarrow> (\<forall>f c. f < unat (fat_count v) \<longrightarrow> cluster_is_valid v c \<longrightarrow> ent v f c = fat_get v c)"

definition unused :: "store \<Rightarrow> u32 \<Rightarrow> bool" where
  "unused m c \<longleftrightarrow> (\<exists>b. m c = Some (Free, b))"

definition store_release :: "u32 list \<Rightarrow> store \<Rightarrow> store" where
  "store_release cs m = (\<lambda>c. if c \<in> set cs then map_option (\<lambda>(_, b). (Free, b)) (m c) else m c)"

lemma cell_geo: "geo v = geo w \<Longrightarrow> cell_of v = cell_of w"
  by (simp add: fun_eq_iff cell_of_def eoc_geo [of v w] valid_geo [of v w])

lemma unused_iff: "unused (store_of v) c \<longleftrightarrow> cluster_is_valid v c \<and> fat_get v c = 0"
  by (auto simp: unused_def store_of_def cell_of_def)

lemma mirrored_fat_set:
  assumes "vol_wf v" "cluster_is_valid v c" "mirrored v"
  shows "mirrored (fat_set c y v)"
proof -
  have l: "unat c < limit v" using assms(2) by (simp add: valid_iff)
  note s = fat_set_effect [OF assms(1) l, where y = y]
  show ?thesis
    using assms(3) s(3) geo_fields(4) [OF s(1)] valid_geo [OF s(1)] fat_get_set [OF assms(1,2), of _ y]
    by (auto simp: mirrored_def valid_iff)
qed

lemma store_fat_set:
  assumes "vol_wf v" "cluster_is_valid v c"
  shows "store_of (fat_set c y v) = (store_of v)(c \<mapsto> (cell_of v (msk v y), cdata v c))"
proof
  fix d
  have l: "unat c < limit v" using assms(2) by (simp add: valid_iff)
  note s = fat_set_effect(1) [OF assms(1) l, where y = y]
  show "store_of (fat_set c y v) d = ((store_of v)(c \<mapsto> (cell_of v (msk v y), cdata v c))) d"
    using assms fat_get_set [OF assms, of d y] cdata_fat_set [OF assms(1) l, of d y] valid_geo [OF s] cell_geo [OF s]
    by (auto simp: store_of_def)
qed

lemma fat_claim_get:
  assumes "vol_wf v" "cluster_is_valid v c" "cluster_is_valid v d"
  shows "fat_get (fat_claim c v) d = (if d = c then cluster_eoc v else fat_get v d)"
    "cdata (fat_claim c v) d = (if d = c then replicate (cb v) 0 else cdata v d)"
proof -
  note e = fat_claim_effect [OF assms(1,2)]
  have "vol_wf (fat_claim c v)" using vol_wf_geo [OF e(1)] assms(1) by simp
  moreover have "unat d < limit v" using assms(3) by (simp add: valid_iff)
  ultimately show "fat_get (fat_claim c v) d = (if d = c then cluster_eoc v else fat_get v d)"
    using e(2) [OF vol_wfD(5) [OF assms(1)], of d] assms(1) by (simp add: fat_get_ent)
  show "cdata (fat_claim c v) d = (if d = c then replicate (cb v) 0 else cdata v d)"
  proof (cases "d = c")
    case False
    then have "cdata (fat_claim c v) d = cdata v d"
      using clusters_disjoint [OF assms(1,3,2)] data_after_root [OF assms(1,3)] by (intro cdata_cong [OF e(1)] e(4)) auto
    then show ?thesis using False by simp
  qed (simp add: e(3))
qed

lemma alloc_keeps:
  assumes "vol_wf v" "fat_impl_alloc_cluster v = (c, v')"
  shows "geo v' = geo v" "vol_wf v'" "mirrored v \<Longrightarrow> mirrored v'"
proof -
  note k = alloc_cases [OF assms(2)]
  show g: "geo v' = geo v" using k fat_claim_effect(1) [OF assms(1), of c] by auto
  show "vol_wf v'" using vol_wf_geo [OF g] assms(1) by simp
  assume m: "mirrored v"
  show "mirrored v'"
  proof (cases "v' = v")
    case False
    then have c: "cluster_is_valid v c" "v' = fat_claim c v" using k by auto
    show ?thesis
      using m fat_claim_effect(2) [OF assms(1) c(1)] fat_claim_get(1) [OF assms(1) c(1)] geo_fields(4) [OF g] valid_geo [OF g]
      by (auto simp: mirrored_def c(2) valid_iff)
  qed (use m in simp)
qed

text \<open>
  C29. Cluster allocation implements its abstract specification on every mounted volume: it fails, and
  changes nothing, exactly when no cluster is unused; otherwise it returns the lowest unused cluster,
  which becomes a one-cluster chain of zero bytes, while the link and the contents of every other
  cluster stay.  The copies of the table keep agreeing.
\<close>

theorem alloc_cluster_refines:
  assumes "vol_wf v" "mirrored v" "fat_impl_alloc_cluster v = (c, v')"
  shows "mirrored v' \<and> geo v' = geo v \<and>
    (if \<exists>d. unused (store_of v) d
     then unused (store_of v) c \<and> (\<forall>d. d < c \<longrightarrow> \<not> unused (store_of v) d) \<and> store_of v' = (store_of v)(c \<mapsto> (Final, replicate (cb v) 0))
     else c = 0 \<and> v' = v)"
proof -
  note k = alloc_cases [OF assms(3)] and a = alloc_keeps [OF assms(1,3)]
  have "store_of v' = (store_of v)(c \<mapsto> (Final, replicate (cb v) 0))" if c: "cluster_is_valid v c" "v' = fat_claim c v"
  proof
    fix d
    show "store_of v' d = ((store_of v)(c \<mapsto> (Final, replicate (cb v) 0))) d"
      using fat_claim_get [OF assms(1) c(1), of d] valid_geo [OF a(1)] cell_geo [OF a(1)] eoc_facts(1,3) [OF assms(1)] c
      by (auto simp: store_of_def cell_of_def)
  qed
  then show ?thesis using k a(1) a(3) [OF assms(2)] eoc_facts(6) [OF assms(1)] by (auto simp: unused_iff)
qed

lemma free_loop_effect:
  assumes "vol_wf v" "chain v cs" "length cs \<le> n"
  shows "geo (free_loop n (hd cs) v) = geo v \<and> store_of (free_loop n (hd cs) v) = store_release cs (store_of v)
    \<and> (mirrored v \<longrightarrow> mirrored (free_loop n (hd cs) v))"
  using assms
proof (induction cs arbitrary: n v)
  case (Cons c cs)
  obtain m where n: "n = Suc m" "length cs \<le> m" using Cons.prems(3) by (cases n) auto
  have c: "cluster_is_valid v c" using chain_valid [OF Cons.prems(2)] by simp
  let ?v = "fat_set c 0 v"
  have lc: "unat c < limit v" using c by (simp add: valid_iff)
  have g: "geo ?v = geo v" by (rule fat_set_effect(1) [OF Cons.prems(1) lc])
  have wf: "vol_wf ?v" using vol_wf_geo [OF g] Cons.prems(1) by simp
  have z: "cell_of v (msk v 0) = Free" by (simp add: cell_of_def msk_def)
  have s: "store_of ?v = (store_of v)(c \<mapsto> (Free, cdata v c))"
    using store_fat_set [OF Cons.prems(1) c, of 0] z by simp
  have sc: "store_of v c = Some (cell_of v (fat_get v c), cdata v c)" using c by (simp add: store_of_def)
  have m: "mirrored v \<Longrightarrow> mirrored ?v" by (rule mirrored_fat_set [OF Cons.prems(1) c])
  note e = eoc_geo [OF g, of "fat_get v c"] valid_geo [OF g, of "fat_get v c"]
  show ?case
  proof (cases cs)
    case Nil
    then have "cluster_is_eoc v (fat_get v c)" using Cons.prems(2) by simp
    then have "free_loop n c v = ?v" using c n e by (simp add: Let_def)
    then show ?thesis using g s sc m Nil by (auto simp: store_release_def fun_eq_iff)
  next
    case (Cons d ds)
    have d: "fat_get v c = d" "chain v cs" using Cons.prems(2) Cons by simp_all
    have dv: "cluster_is_valid v d" using chain_valid [OF d(2)] Cons by simp
    have nc: "c \<notin> set cs" using chain_distinct [OF Cons.prems(1,2)] by simp
    have "fat_get ?v x = fat_get v x" if "x \<in> set cs" for x
      using fat_get_set [OF Cons.prems(1) c chain_valid [OF d(2) that]] that nc by auto
    then have "chain ?v cs" using chain_cong [OF g, of cs] d(2) by simp
    then have ih: "geo (free_loop m d ?v) = geo ?v" "store_of (free_loop m d ?v) = store_release cs (store_of ?v)"
      "mirrored ?v \<Longrightarrow> mirrored (free_loop m d ?v)"
      using Cons.IH [OF wf _ n(2)] Cons by simp_all
    have "free_loop n c v = free_loop m d ?v"
      using c n e d(1) dv eoc_facts(4) [OF Cons.prems(1) dv] by (simp add: Let_def)
    then show ?thesis using ih g s sc m nc by (auto simp: store_release_def fun_eq_iff)
  qed
qed simp

text \<open>
  C30. Releasing a chain frees exactly its clusters, in every copy of the table, and ends: all other
  clusters keep their link and all clusters keep their contents.
\<close>

theorem free_chain_refines:
  assumes "vol_wf v" "mirrored v" "chain v cs"
  shows "store_of (fat_impl_free_chain (hd cs) v) = store_release cs (store_of v) \<and> mirrored (fat_impl_free_chain (hd cs) v)
    \<and> geo (fat_impl_free_chain (hd cs) v) = geo v"
proof -
  have "length cs \<le> limit v" using chain_length [OF assms(1,3)] by simp
  then show ?thesis using free_loop_effect [OF assms(1,3)] assms(2) by (simp add: fat_impl_free_chain_def)
qed

section \<open>Mounting\<close>

lemma power_of_two_low:
  assumes "x AND (x - 1) = (0 :: u16)" "512 \<le> unat x"
  shows "32 dvd unat x"
proof (rule ccontr)
  assume "\<not> 32 dvd unat x"
  have u: "unat (drop_bit 5 y) = unat y div 32" for y :: u16
    using unsigned_less [of y, where 'a = nat] by (simp only: unsigned_drop_bit_eq) (simp add: drop_bit_eq_div take_bit_eq_mod)
  from \<open>\<not> 32 dvd unat x\<close> have m: "unat x mod 32 \<noteq> 0" by (simp add: dvd_eq_mod_eq_0)
  have "unat (x - 1) = unat x - 1" using assms(2) by (simp add: unat_sub word_le_nat_alt)
  moreover have "(unat x - 1) div 32 = unat x div 32" 
    using m mult_div_mod_eq [of 32 "unat x"] mod_less_divisor [of 32 "unat x"] by (intro div_nat_eqI; simp only: mult_Suc_right; linarith)
  ultimately have "unat (drop_bit 5 (x - 1)) = unat (drop_bit 5 x)"
    by (simp only: u)
  then have "drop_bit 5 (x - 1) = drop_bit 5 x" by (simp only: word_unat_eq_iff)
  then have "drop_bit 5 x = 0" using arg_cong [OF assms(1), of "drop_bit 5"] by (simp only: drop_bit_and and.idem drop_bit_of_0)
  then have "unat (drop_bit 5 x) = 0" by (simp only: unsigned_0)
  then have "unat x div 32 = 0" by (simp only: u)
  then show False using assms(2) by simp
qed

lemma guard_ok: "((if c then (-1 :: int, v) else X) = (0, w)) \<longleftrightarrow> \<not> c \<and> X = (0, w)"
  by simp

lemma mount_facts:
  assumes "fat_mount_format im sz v = (0, v')"
  defines "ts \<equiv> (if get16 im 19 \<noteq> 0 then ucast (get16 im 19) else get32 im 32) :: u32"
  shows "512 \<le> bytes_per_sector v'" "bytes_per_sector v' \<le> 4096" "bytes_per_sector v' AND (bytes_per_sector v' - 1) = 0"
    "sectors_per_cluster v' \<noteq> 0" "fat_count v' \<noteq> 0" "image_size v' = sz" "img v' = im"
    "root_start_sector v' = fat_start_sector v' + ucast (fat_count v') * sectors_per_fat v'"
    "data_start_sector v' = root_start_sector v' + (ucast (root_entries v') * 32 + ucast (bytes_per_sector v') - 1) div ucast (bytes_per_sector v')"
    "root_start_sector v' \<le> data_start_sector v'" "data_start_sector v' < ts"
    "unat ts * unat (bytes_per_sector v') \<le> sz" "vtype v' \<noteq> FAT_TYPE_NONE" "2 < cluster_limit v'" "vtype v' = FAT_TYPE_32 \<or> cluster_limit v' < 0xFFF0"
    "cluster_limit v' \<le> (ts - data_start_sector v') div ucast (sectors_per_cluster v') + 2"
    "cluster_limit v' \<le> of_nat (unat (sectors_per_fat v') * unat (bytes_per_sector v') div width v')"
    "vtype v' = FAT_TYPE_32 \<Longrightarrow> 2 \<le> root_cluster v' \<and> root_cluster v' < cluster_limit v'" "disk v' = disk v"
proof -
  define b where "b = get16 im 11"
  define spf where "spf = ((if get16 im 22 \<noteq> 0 then ucast (get16 im 22) else get32 im 36) :: u32)"
  define rs where "rs = ((ucast (get16 im 17) * 32 + ucast b - 1) div ucast b :: u32)"
  define r where "r = (ucast (get16 im 14) :: u32) + ucast (im 16) * spf"
  define dc where "dc = (ts - (r + rs)) div ucast (im 13)"
  define t where "t = (if dc < 65525 then FAT_TYPE_16 else FAT_TYPE_32)"
  define fe where "fe = (of_nat (unat spf * unat b div (if t = FAT_TYPE_32 then 4 else 2)) :: u32)"
  define lim where "lim = (if dc + 2 > fe then fe else dc + 2)"
  note defs = ts_def [symmetric] b_def [symmetric] spf_def [symmetric] rs_def [symmetric] r_def [symmetric] dc_def [symmetric]
    t_def [symmetric] fe_def [symmetric] lim_def [symmetric]
  have m: "\<not> (b < 512 \<or> b > 4096 \<or> b AND (b - 1) \<noteq> 0 \<or> im 13 = 0 \<or> get16 im 14 = 0 \<or> im 16 = 0 \<or> spf = 0 \<or> ts = 0 \<or> unat ts * unat b > sz)"
    "\<not> (r < ucast (get16 im 14) \<or> r + rs < r \<or> ts \<le> r + rs)" "\<not> lim \<le> 2" "\<not> (t = FAT_TYPE_16 \<and> 0xFFF0 \<le> lim)"
    "\<not> (t = FAT_TYPE_32 \<and> (get32 im 44 < 2 \<or> lim \<le> get32 im 44))"
    and v: "v' = v\<lparr>img := im, image_size := sz, bytes_per_sector := b, sectors_per_cluster := im 13,
      fat_count := im 16, sectors_per_fat := spf, fat_start_sector := ucast (get16 im 14),
      root_start_sector := r, data_start_sector := r + rs, root_entries := get16 im 17, vtype := t, cluster_limit := lim,
      root_cluster := (if t = FAT_TYPE_32 then get32 im 44 else 0)\<rparr>"
    using assms(1) unfolding fat_mount_format_def Let_def defs guard_ok prod.inject by (blast intro: sym)+
  have t: "t = FAT_TYPE_16 \<or> t = FAT_TYPE_32" by (simp add: t_def)
  have l: "lim \<le> dc + 2" "lim \<le> fe" by (auto simp: lim_def)
  show "512 \<le> bytes_per_sector v'" "bytes_per_sector v' \<le> 4096" "bytes_per_sector v' AND (bytes_per_sector v' - 1) = 0"
    "sectors_per_cluster v' \<noteq> 0" "fat_count v' \<noteq> 0" "image_size v' = sz" "img v' = im"
    "unat ts * unat (bytes_per_sector v') \<le> sz"
    using m(1) by (simp_all add: v not_less)
  show "root_start_sector v' = fat_start_sector v' + ucast (fat_count v') * sectors_per_fat v'"
    "data_start_sector v' = root_start_sector v' + (ucast (root_entries v') * 32 + ucast (bytes_per_sector v') - 1) div ucast (bytes_per_sector v')"
    by (simp_all add: v r_def rs_def)
  show "root_start_sector v' \<le> data_start_sector v'" "data_start_sector v' < ts" using m(2) by (simp_all add: v not_less not_le)
  show "vtype v' \<noteq> FAT_TYPE_NONE" "2 < cluster_limit v'" "vtype v' = FAT_TYPE_32 \<or> cluster_limit v' < 0xFFF0"
    using m(3,4) t by (auto simp: v not_less)
  show "cluster_limit v' \<le> (ts - data_start_sector v') div ucast (sectors_per_cluster v') + 2" using l(1) by (simp add: v dc_def)
  show "cluster_limit v' \<le> of_nat (unat (sectors_per_fat v') * unat (bytes_per_sector v') div width v')" using l(2) by (simp add: v fe_def)
  show "disk v' = disk v" by (simp add: v)
  show "2 \<le> root_cluster v' \<and> root_cluster v' < cluster_limit v'" if "vtype v' = FAT_TYPE_32"
    using m(5) that by (simp add: v not_less not_le)
qed

text \<open>
  C31. What a successful mount guarantees, for images below 64 GiB whose table area does not exceed
  the 32-bit sector space: the layout is well-formed, the data of every cluster lies inside the image,
  the table entry of every cluster lies, in every copy, between the reserved sectors and the root
  directory, and the fixed root directory ends before the first cluster.
\<close>

theorem fat_init_bounds:
  assumes init: "fat_init im sz v = (0, v')" and sz: "sz < 2 ^ 36"
    and nowrap: "unat (fat_start_sector v') + unat (fat_count v') * unat (sectors_per_fat v') < 2 ^ 32"
  shows "vol_wf v' \<and> image_size v' = sz \<and> img v' = im
    \<and> (\<forall>c. cluster_is_valid v' c \<longrightarrow> (\<exists>d. cluster_data v' c = Some d \<and> d + unat (cluster_bytes v') \<le> sz
          \<and> unat (root_start_sector v') * bps v' + 32 * unat (root_entries v') \<le> d))
    \<and> (\<forall>c f. cluster_is_valid v' c \<longrightarrow> f < unat (fat_count v') \<longrightarrow>
          unat (fat_start_sector v') * bps v' \<le> sector v' (fat_start_sector v' + of_nat f * sectors_per_fat v') + width v' * unat c
        \<and> sector v' (fat_start_sector v' + of_nat f * sectors_per_fat v') + width v' * unat c + width v' \<le> unat (root_start_sector v') * bps v')"
proof -
  have mf: "fat_mount_format im sz v = (0, v')" using init by (auto simp: fat_init_def split: if_splits)
  define ts where "ts = ((if get16 im 19 \<noteq> 0 then ucast (get16 im 19) else get32 im 32) :: u32)"
  note m = mount_facts [OF mf, folded ts_def]
  let ?b = "bps v'" and ?e = "unat (root_entries v')" and ?s = "unat (sectors_per_cluster v')"
  have b: "512 \<le> ?b" "?b \<le> 4096" using m(1,2) by (simp_all add: word_le_nat_alt)
  have d32: "32 dvd ?b" by (rule power_of_two_low [OF m(3) b(1)])
  have e: "?e < 65536" "?s < 256" "unat (fat_count v') < 256"
    using unsigned_less [of "root_entries v'", where 'a = nat] unsigned_less [of "sectors_per_cluster v'", where 'a = nat]
      unsigned_less [of "fat_count v'", where 'a = nat] by simp_all
  have s0: "?s \<noteq> 0" using m(4) by (simp add: unat_eq_zero)
  have u: "unat (ucast (root_entries v') :: u32) = ?e" "unat (ucast (bytes_per_sector v') :: u32) = ?b"
    "unat (ucast (sectors_per_cluster v') :: u32) = ?s" "unat (ucast (fat_count v') :: u32) = unat (fat_count v')"
    using e b by (simp_all add: unsigned_ucast_eq take_bit_eq_mod)
  define rs where "rs = ((ucast (root_entries v') * 32 + ucast (bytes_per_sector v') - 1) div ucast (bytes_per_sector v') :: u32)"
  have "unat (ucast (root_entries v') * 32 + ucast (bytes_per_sector v') :: u32) = ?e * 32 + ?b"
    using e b by (simp add: unat_word_ariths u)
  then have "unat (ucast (root_entries v') * 32 + ucast (bytes_per_sector v') - 1 :: u32) = ?e * 32 + ?b - 1"
    using b by (simp add: unat_sub word_le_nat_alt)
  then have rs: "unat rs = (?e * 32 + ?b - 1) div ?b" by (simp add: rs_def unat_div_distrib u)
  have rsb: "32 * ?e \<le> unat rs * ?b"
    using mult_div_mod_eq [of ?b "?e * 32 + ?b - 1"] mod_less_divisor [of ?b "?e * 32 + ?b - 1"] b(1) unfolding rs mult.commute [of _ ?b] by linarith
  have root: "unat (root_start_sector v') = unat (fat_start_sector v') + unat (fat_count v') * unat (sectors_per_fat v')"
  proof -
    have "unat (ucast (fat_count v') * sectors_per_fat v') = unat (fat_count v') * unat (sectors_per_fat v')"
      using nowrap by (simp add: unat_word_ariths u)
    then show ?thesis using nowrap by (simp add: m(8) unat_word_ariths(1))
  qed
  have data: "unat (data_start_sector v') = unat (root_start_sector v') + unat rs"
  proof -
    have "unat (root_start_sector v') \<le> (unat (root_start_sector v') + unat rs) mod 2 ^ 32"
      using m(10) m(9) by (simp add: word_le_nat_alt unat_word_ariths(1) rs_def)
    then have "unat (root_start_sector v') + unat rs < 2 ^ 32"
      using unsigned_less [of "root_start_sector v'", where 'a = nat] unsigned_less [of rs, where 'a = nat]
      by (simp add: mod_if split: if_splits)
    then show ?thesis by (simp add: m(9) unat_word_ariths(1) rs_def)
  qed
  have "512 * unat ts \<le> unat ts * ?b" using mult_le_mono1 [OF b(1), of "unat ts"] by (simp only: mult.commute)
  then have "512 * unat ts < 2 ^ 36" using m(12) sz by linarith
  then have tsb: "unat ts < 2 ^ 27" by simp
  have dt: "unat (data_start_sector v') < unat ts" using m(11) by (simp add: word_less_nat_alt)
  let ?dc = "(unat ts - unat (data_start_sector v')) div ?s"
  have dc: "unat ((ts - data_start_sector v') div ucast (sectors_per_cluster v')) = ?dc"
    using dt by (simp add: unat_div_distrib u unat_sub word_le_nat_alt)
  have dcb: "?dc < 2 ^ 27" using tsb dt div_le_dividend [of "unat ts - unat (data_start_sector v')" ?s] by linarith
  have "unat ((ts - data_start_sector v') div ucast (sectors_per_cluster v') + 2) = ?dc + 2"
    using dcb by (simp add: unat_word_ariths(1) dc)
  then have lim: "limit v' \<le> ?dc + 2" using m(16) by (simp add: word_le_nat_alt)
  have lim2: "2 < limit v'" using m(14) by (simp add: word_less_nat_alt)
  have "limit v' \<le> unat (sectors_per_fat v') * ?b div width v'"
  proof -
    have "limit v' \<le> unat (of_nat (unat (sectors_per_fat v') * ?b div width v') :: u32)" using m(17) by (simp only: word_le_nat_alt)
    also have "\<dots> \<le> unat (sectors_per_fat v') * ?b div width v'" by (simp only: unat_of_nat mod_less_eq_dividend take_bit_eq_mod)
    finally show ?thesis .
  qed
  then have tabs: "width v' * limit v' \<le> unat (sectors_per_fat v') * ?b"
    by (rule order_trans [OF mult_le_mono2 times_div_less_eq_dividend])
  have "(limit v' - 2) * ?s \<le> ?dc * ?s" using lim by (intro mult_le_mono1) simp
  then have dsl: "unat (data_start_sector v') + (limit v' - 2) * ?s \<le> unat ts"
    using div_times_less_eq_dividend [of "unat ts - unat (data_start_sector v')" ?s] dt by linarith
  have "unat (root_start_sector v') * ?b + 32 * ?e \<le> unat (data_start_sector v') * ?b"
    using rsb by (simp add: data add_mult_distrib)
  moreover have "limit v' < (if vtype v' = FAT_TYPE_32 then 0x0FFFFFF0 else 0xFFF0)"
    using m(15) lim dcb by (auto simp: word_less_nat_alt)
  moreover have "(unat (data_start_sector v') + (limit v' - 2) * ?s) * ?b \<le> image_size v'"
    using mult_le_mono1 [OF dsl, of ?b] m(6,12) by linarith
  moreover have "unat (data_start_sector v') + (limit v' - 2) * ?s < 2 ^ 32"
    by (rule less_trans [OF le_less_trans [OF dsl tsb]]) simp
  ultimately have wf: "vol_wf v'"
    unfolding vol_wf_def using b d32 m(4,5,13,18) root tabs lim2 by blast
  have "tab v' f c = sector v' (fat_start_sector v' + of_nat f * sectors_per_fat v') + width v' * unat c" if "f < unat (fat_count v')" for f c
    by (simp only: table_sector [OF wf that] tab_def)
  then show ?thesis
    using wf m(6,7) cluster_data_valid [OF wf] cluster_region(2) [OF wf] data_after_root [OF wf] table_region(1,2) [OF wf]
    by (simp add: unat_cluster_bytes valid_iff)
qed

section \<open>A small volume\<close>

text \<open>
  A FAT16 volume of 4103 sectors with one table and sixteen root entries.  The root holds the file
  \<open>A.TXT\<close> of 600 bytes in the clusters 2 and 3.
\<close>

definition fat_w_img :: "nat \<Rightarrow> u8" where
  "fat_w_img x =
     (case map_of [(12, 2), (13, 1), (14, 1), (16, 1), (17, 16), (19, 7), (20, 16), (22, 16), (516, 3), (518, 255), (519, 255),
        (8704, 65), (8705, 32), (8706, 32), (8707, 32), (8708, 32), (8709, 32), (8710, 32), (8711, 32), (8712, 84), (8713, 88), (8714, 84),
        (8715, 32), (8730, 2), (8732, 0x58), (8733, 2), (9216, 72), (9727, 73), (9728, 74)] x of
        None \<Rightarrow> 0 | Some b \<Rightarrow> b)"

definition fat_w0 :: fat_volume where
  "fat_w0 = \<lparr>img = (\<lambda>_. 0), image_size = 0, bytes_per_sector = 0, sectors_per_cluster = 0, fat_count = 0, sectors_per_fat = 0,
     fat_start_sector = 0, root_start_sector = 0, data_start_sector = 0, root_entries = 0, root_cluster = 0, cluster_limit = 0,
     vtype = FAT_TYPE_NONE, write_sector = Some (\<lambda>_. True), disk = fat_w_img,
     now = \<lparr>year = 2026, month = 1, day = 2, hour = 3, minute = 4, second = 5, valid = True\<rparr>\<rparr>"

definition fat_w :: fat_volume where
  "fat_w = fat_w0\<lparr>img := fat_w_img, image_size := 2100736, bytes_per_sector := 512, sectors_per_cluster := 1, fat_count := 1,
     sectors_per_fat := 16, fat_start_sector := 1, root_start_sector := 17, data_start_sector := 18, root_entries := 16,
     vtype := FAT_TYPE_16, cluster_limit := 4087, root_cluster := 0\<rparr>"

lemma fat_w_init: "fat_init fat_w_img 2100736 fat_w0 = (0, fat_w)"
proof -
  have g: "get16 fat_w_img 11 = 512" "fat_w_img 13 = 1" "get16 fat_w_img 14 = 1" "fat_w_img 16 = 1" "get16 fat_w_img 17 = 16"
    "get16 fat_w_img 19 = 4103" "get16 fat_w_img 22 = 16"
    by (simp_all add: get16_def fat_w_img_def)
  have "\<not> fs_probe_is_exfat fat_w_img 2100736"
    by (simp add: fs_probe_is_exfat_def fs_probe_bytes_equal_def fat_w_img_def upt_conv_Cons)
  then show ?thesis by (simp add: fat_init_def fat_mount_format_def Let_def g fat_w_def)
qed

lemma fat_w_fields:
  "bytes_per_sector fat_w = 512" "sectors_per_cluster fat_w = 1" "fat_count fat_w = 1" "sectors_per_fat fat_w = 16"
  "fat_start_sector fat_w = 1" "root_start_sector fat_w = 17" "data_start_sector fat_w = 18" "root_entries fat_w = 16"
  "vtype fat_w = FAT_TYPE_16" "cluster_limit fat_w = 4087" "image_size fat_w = 2100736" "img fat_w = fat_w_img"
  by (simp_all add: fat_w_def)

text \<open>The layout bounds of the small volume.\<close>

theorem fat_init_bounds_witness:
  "fat_init fat_w_img 2100736 fat_w0 = (0, fat_w) \<and> vol_wf fat_w \<and> cluster_data fat_w 2 = Some 9216"
proof -
  have "vol_wf fat_w" using fat_init_bounds [OF fat_w_init] by (simp add: fat_w_fields)
  then show ?thesis by (simp add: fat_w_init cluster_data_def cluster_is_valid_def sector_def fat_w_fields)
qed

lemma fat_w_wf: "vol_wf fat_w"
  by (simp add: vol_wf_def fat_w_fields)

lemma fat_w_get: "fat_get fat_w 2 = 3" "fat_get fat_w 3 = 0xFFFF" "4 \<le> unat c \<Longrightarrow> unat c < 4087 \<Longrightarrow> fat_get fat_w c = 0"
proof -
  show "fat_get fat_w 2 = 3" "fat_get fat_w 3 = 0xFFFF"
    by (simp_all add: fat_get_def sector_def fat_w_fields get16_def fat_w_img_def)
  assume "4 \<le> unat c" "unat c < 4087"
  then show "fat_get fat_w c = 0" by (simp add: fat_get_def sector_def fat_w_fields get16_def fat_w_img_def)
qed

lemma fat_w_mirrored: "mirrored fat_w"
  by (simp add: mirrored_def fat_w_fields fat_get_ent [OF fat_w_wf])

lemma fat_w_chain: "chain fat_w [2, 3]"
  by (simp add: fat_w_get cluster_is_valid_def cluster_is_eoc_def fat_w_fields)

lemma fat_w_cb: "cb fat_w = 512"
  by (simp add: cb_def fat_w_fields)

text \<open>Allocation on the small volume takes cluster 4, the first that is unused.\<close>

theorem alloc_cluster_refines_witness:
  "vol_wf fat_w \<and> mirrored fat_w \<and> fst (fat_impl_alloc_cluster fat_w) = 4
   \<and> store_of (snd (fat_impl_alloc_cluster fat_w)) 4 = Some (Final, replicate 512 0)"
proof -
  obtain c v' where a: "fat_impl_alloc_cluster fat_w = (c, v')" by fastforce
  have u: "unused (store_of fat_w) 4" "\<And>c. unused (store_of fat_w) c \<Longrightarrow> 4 \<le> c"
  proof -
    show "unused (store_of fat_w) 4" by (simp add: unused_iff fat_w_get cluster_is_valid_def fat_w_fields)
    fix c assume "unused (store_of fat_w) c"
    then have "2 \<le> unat c" "c \<noteq> 2" "c \<noteq> 3" using fat_w_get(1,2) by (auto simp: unused_iff valid_iff)
    then have "2 \<le> unat c" "unat c \<noteq> 2" "unat c \<noteq> 3" by (simp_all add: word_unat_eq_iff)
    then show "4 \<le> c" by (simp add: word_le_nat_alt)
  qed
  note t = alloc_cluster_refines [OF fat_w_wf fat_w_mirrored a]
  then have "unused (store_of fat_w) c" "\<not> 4 < c" "store_of v' = (store_of fat_w)(c \<mapsto> (Final, replicate 512 0))"
    using u by (auto simp: fat_w_cb split: if_splits)
  then show ?thesis using u(2) [of c] a fat_w_wf fat_w_mirrored by simp
qed

text \<open>Releasing the chain of the file frees its two clusters.\<close>

theorem free_chain_refines_witness:
  "vol_wf fat_w \<and> mirrored fat_w \<and> chain fat_w [2, 3]
   \<and> unused (store_of (fat_impl_free_chain 2 fat_w)) 2 \<and> unused (store_of (fat_impl_free_chain 2 fat_w)) 3"
proof -
  have "cluster_is_valid fat_w 2" "cluster_is_valid fat_w 3" by (simp_all add: cluster_is_valid_def fat_w_fields)
  then show ?thesis
    using free_chain_refines [OF fat_w_wf fat_w_mirrored fat_w_chain] fat_w_wf fat_w_mirrored fat_w_chain
    by (simp add: unused_def store_release_def store_of_def)
qed

text \<open>
  A boot sector whose table area exceeds the 32-bit sector space: the product of copies and sectors
  per copy wraps to 16, the mount is accepted, and setting an entry writes the second copy one
  terabyte past the start of an image of two megabytes.
\<close>

definition fat_wrap_img :: "nat \<Rightarrow> u8" where
  "fat_wrap_img x =
     (case map_of [(12, 2), (13, 1), (14, 1), (16, 2), (17, 16), (19, 7), (20, 16), (36, 8), (39, 0x80)] x of
        None \<Rightarrow> 0 | Some b \<Rightarrow> b)"

definition fat_wrap :: fat_volume where
  "fat_wrap = fat_w0\<lparr>img := fat_wrap_img, image_size := 2100736, bytes_per_sector := 512, sectors_per_cluster := 1, fat_count := 2,
     sectors_per_fat := 0x80000008, fat_start_sector := 1, root_start_sector := 17, data_start_sector := 18, root_entries := 16,
     vtype := FAT_TYPE_16, cluster_limit := 2048, root_cluster := 0\<rparr>"

lemma fat_table_wraps:
  "fat_init fat_wrap_img 2100736 fat_w0 = (0, fat_wrap)"
  "img fat_wrap 1099511632388 = 0" "img (fat_set 2 0xFFFF fat_wrap) 1099511632388 = 0xFF" "image_size fat_wrap < 1099511632388"
proof -
  have g: "get16 fat_wrap_img 11 = 512" "fat_wrap_img 13 = 1" "get16 fat_wrap_img 14 = 1" "fat_wrap_img 16 = 2" "get16 fat_wrap_img 17 = 16"
    "get16 fat_wrap_img 19 = 4103" "get16 fat_wrap_img 22 = 0" "get32 fat_wrap_img 36 = 0x80000008"
    by (simp_all add: get16_def get32_def fat_wrap_img_def)
  have "\<not> fs_probe_is_exfat fat_wrap_img 2100736"
    by (simp add: fs_probe_is_exfat_def fs_probe_bytes_equal_def fat_wrap_img_def upt_conv_Cons)
  then show "fat_init fat_wrap_img 2100736 fat_w0 = (0, fat_wrap)" by (simp add: fat_init_def fat_mount_format_def Let_def g fat_wrap_def)
  show "img fat_wrap 1099511632388 = 0" "image_size fat_wrap < 1099511632388" by (simp_all add: fat_wrap_def fat_wrap_img_def)
  let ?v = "set_copy 2 0xFFFF 0 fat_wrap"
  have "geo ?v = geo fat_wrap" by simp
  note f = geo_fields [OF this]
  have second: "img (set_copy 2 0xFFFF 1 w) 1099511632388 = 0xFF"
    if "vtype w = FAT_TYPE_16" "sector w (fat_start_sector w + sectors_per_fat w) = 1099511632384" for w
    using that by (simp add: set_copy_def Let_def fat_put_def w16_def)
  have "sector ?v (fat_start_sector ?v + sectors_per_fat ?v) = 1099511632384" "vtype ?v = FAT_TYPE_16"
    unfolding sector_def f by (simp_all add: fat_wrap_def)
  then have "img (set_copy 2 0xFFFF 1 ?v) 1099511632388 = 0xFF" by (intro second)
  moreover have "fat_set 2 0xFFFF fat_wrap = set_copy 2 0xFFFF 1 ?v"
    by (simp add: fat_set_fold fat_wrap_def upt_conv_Cons)
  ultimately show "img (fat_set 2 0xFFFF fat_wrap) 1099511632388 = 0xFF" by simp
qed

end
