(* ===== verification/Fat_Sync.thy ===== *)
theory Fat_Sync
  imports Fat_Volume
begin

text \<open>
  Write-through: on a volume with a working device, what the device holds agrees with the image after
  every operation.
\<close>

section \<open>Clean parts of the image\<close>

text \<open>A writer that accepts every sector, on an image whose sector numbers fit 32 bits.\<close>

definition durable :: "fat_volume \<Rightarrow> bool" where
  "durable v \<longleftrightarrow> write_sector v = Some (\<lambda>_. True) \<and> 512 \<le> bps v \<and> image_size v < 2 ^ 40 \<and> sectors_per_cluster v \<noteq> 0 \<and>
     vtype v \<noteq> FAT_TYPE_NONE"

text \<open>Device and image agree at every byte of an image of size \<open>S\<close> outside \<open>D\<close>.\<close>

definition clean :: "nat \<Rightarrow> nat set \<Rightarrow> fat_volume \<Rightarrow> bool" where
  "clean S D v \<longleftrightarrow> durable v \<and> image_size v = S \<and> (\<forall>x<S. x \<notin> D \<longrightarrow> disk v x = img v x)"

lemma durable_geo: "geo v = geo w \<Longrightarrow> durable v = durable w"
  unfolding durable_def by (simp only: geo_fields [of v w])

lemma clean_mono: "clean S D v \<Longrightarrow> D \<subseteq> E \<Longrightarrow> clean S E v"
  by (auto simp: clean_def)

lemma put_clean:
  assumes "clean S D v"
  shows "clean S (D \<union> {a..<a + length bs}) (put a bs v)"
  using assms durable_geo [of "put a bs v" v] geo_fields(1) [of "put a bs v" v] by (auto simp: clean_def)

lemma put_clean_in: "clean S D v \<Longrightarrow> {a..<a + length bs} \<subseteq> D \<Longrightarrow> clean S D (put a bs v)"
  using put_clean [of S D v a bs] by (simp add: Un_absorb2)

lemma flush_fold_disk:
  assumes "write_sector v = Some (\<lambda>_. True)"
  shows "disk (fold fat_flush_sector ls v) x = (if \<exists>l\<in>set ls. l * bps v \<le> x \<and> x < (l + 1) * bps v then img v x else disk v x)"
  using assms
proof (induction ls arbitrary: v)
  case (Cons l ls)
  have g: "geo (fat_flush_sector l v) = geo v" by simp
  have w: "write_sector (fat_flush_sector l v) = Some (\<lambda>_. True)" using geo_fields(13) [OF g] Cons.prems by simp
  show ?case
    using Cons.IH [OF w] geo_fields(2) [OF g] Cons.prems by (auto simp: fat_flush_sector_def)
qed simp

lemma flush_clean:
  assumes c: "clean S D v"
  shows "clean S (D - {a..<a + n}) (fat_flush_bytes a n v)"
proof -
  let ?w = "fat_flush_bytes a n v"
  have d: "write_sector v = Some (\<lambda>_. True)" "512 \<le> bps v" "image_size v < 2 ^ 40" using c by (simp_all add: clean_def durable_def)
  have nz: "bytes_per_sector v \<noteq> 0" using d(2) by auto
  have g: "geo ?w = geo v" by simp
  have "disk ?w x = img v x" if x: "x < image_size v" "x \<notin> D - {a..<a + n}" for x
  proof (cases "n = 0 \<or> image_size v \<le> a")
    case True
    then have "?w = v" using d(1) by (auto simp: fat_flush_bytes_def)
    moreover have "x \<notin> D" using x True by auto
    ultimately show ?thesis using c x(1) by (simp add: clean_def)
  next
    case False
    let ?m = "if image_size v - a < n then image_size v - a else n"
    let ?f = "(a div bps v) mod 2 ^ 32" and ?l = "((a + ?m - 1) div bps v) mod 2 ^ 32"
    have e: "?w = fold fat_flush_sector [?f..<Suc ?l] v"
      using False d(1) nz by (simp add: fat_flush_bytes_def Let_def)
    have small: "y div bps v < 2 ^ 32" if "y < image_size v" for y
    proof -
      have "y div bps v \<le> y div 512" using d(2) by (intro div_le_mono2) simp_all
      also have "\<dots> < 2 ^ 32" using that d(3) by (simp add: less_mult_imp_div_less)
      finally show ?thesis .
    qed
    have "a < image_size v" "a + ?m - 1 < image_size v" using False by auto
    then have f: "?f = a div bps v" "?l = (a + ?m - 1) div bps v" by (intro mod_less small; simp only:)+
    show ?thesis
    proof (cases "x \<in> {a..<a + n}")
      case True
      have "a \<le> x" "x \<le> a + ?m - 1" using True x(1) by (auto split: if_splits)
      then have "a div bps v \<le> x div bps v" "x div bps v \<le> (a + ?m - 1) div bps v" by (auto intro: div_le_mono)
      then have "x div bps v \<in> set [?f..<Suc ?l]" unfolding f by auto
      moreover have "x div bps v * bps v \<le> x" "x < (x div bps v + 1) * bps v"
        using d(2) dividend_less_div_times [of "bps v" x] by (simp_all add: algebra_simps)
      ultimately have "\<exists>l\<in>set [?f..<Suc ?l]. l * bps v \<le> x \<and> x < (l + 1) * bps v" by (intro bexI conjI)
      then show ?thesis unfolding e flush_fold_disk [OF d(1)] by (rule if_P)
    next
      case no: False
      then have "disk v x = img v x" using c x by (auto simp: clean_def)
      then show ?thesis unfolding e flush_fold_disk [OF d(1)] by simp
    qed
  qed
  then show ?thesis using durable_geo [OF g] geo_fields(1) [OF g] c by (simp add: clean_def)
qed

lemma put_flush_clean: "clean S D v \<Longrightarrow> length bs \<le> n \<Longrightarrow> clean S D (fat_flush_bytes a n (put a bs v))"
  using flush_clean [OF put_clean [of S D v a bs], of a n] by (auto elim: clean_mono)

lemma flush_all_clean: "clean S {a..<a + n} v \<Longrightarrow> clean S {} (fat_flush_bytes a n v)"
  using flush_clean [of S "{a..<a + n}" v a n] by simp

section \<open>Table, clusters and directory entries\<close>

lemma set_copy_clean:
  assumes "clean S D v"
  shows "clean S D (set_copy c y f v)"
proof -
  have t: "vtype v \<noteq> FAT_TYPE_NONE" using assms by (simp add: clean_def durable_def)
  show ?thesis
  proof (cases "vtype v")
    case FAT_TYPE_16
    then show ?thesis using assms by (simp add: set_copy_def fat_put_def Let_def mult.commute put_flush_clean)
  next
    case FAT_TYPE_32
    then show ?thesis using assms by (simp add: set_copy_def fat_put_def Let_def mult.commute put_flush_clean)
  qed (use t in simp)
qed

lemma fold_clean: "clean S D v \<Longrightarrow> (\<And>x w. x \<in> set xs \<Longrightarrow> clean S D w \<Longrightarrow> clean S D (f x w)) \<Longrightarrow> clean S D (fold f xs v)"
  by (induction xs arbitrary: v) simp_all

lemma fat_set_clean: "clean S D v \<Longrightarrow> clean S D (fat_set c y v)"
  by (simp add: fat_set_fold fold_clean set_copy_clean)

lemma fat_claim_clean: "clean S D v \<Longrightarrow> clean S D (fat_claim c v)"
  by (simp add: fat_claim_def Let_def fat_set_clean put_flush_clean split: option.split)

lemma alloc_clean: "clean S D v \<Longrightarrow> fat_impl_alloc_cluster v = (c, w) \<Longrightarrow> clean S D w"
  by (auto simp: fat_impl_alloc_cluster_def fat_claim_clean split: option.splits)

lemma free_loop_clean: "clean S {} v \<Longrightarrow> clean S {} (free_loop n c v)"
  by (induction n c v rule: free_loop.induct) (simp_all add: Let_def fat_set_clean)

lemma free_chain_clean: "clean S {} v \<Longrightarrow> clean S {} (fat_impl_free_chain c v)"
  by (simp add: fat_impl_free_chain_def free_loop_clean)

lemma entry_clean:
  assumes "clean S D v" "{a..<a + 32} \<subseteq> D"
  shows "clean S D (fat_impl_entry_set_cluster a c v)" "clean S D (fat_impl_entry_set_size a x v)" "clean S D (fat_impl_set_timestamp a v)"
proof -
  have p: "clean S D (put b bs w)" if "clean S D w" "a \<le> b" "b + length bs \<le> a + 32" for b bs w
    using that assms(2) by (intro put_clean_in) auto
  show "clean S D (fat_impl_entry_set_cluster a c v)" "clean S D (fat_impl_entry_set_size a x v)" "clean S D (fat_impl_set_timestamp a v)"
    using assms(1) by (simp_all add: fat_impl_entry_set_cluster_def fat_impl_entry_set_size_def fat_impl_set_timestamp_def Let_def p)
qed

lemma dir_entry_flush:
  "clean S {} v \<Longrightarrow> clean S {} (fat_flush_bytes a 32 (fat_impl_set_timestamp a (fat_impl_entry_set_size a x (fat_impl_entry_set_cluster a c v))))"
  by (intro flush_all_clean entry_clean order_refl) (rule clean_mono, assumption, simp)

section \<open>Directories\<close>

lemma run_scan_length: "run_scan v count es run start = (True, run', start') \<Longrightarrow> length run' = count"
  by (induction v count es run start rule: run_scan.induct) (auto simp: Let_def split: if_splits)

lemma chain_slots_clean:
  assumes "chain_slots n count c k run start v = (r, w)" "clean S {} v"
  shows "clean S {} w \<and> (\<forall>slots s. r = Some (slots, s) \<longrightarrow> length slots = count)"
  using assms
proof (induction n arbitrary: c k run start v)
  case (Suc n current visited run start v)
  show ?case
  proof (cases "cluster_data v current")
    case None
    then show ?thesis using Suc.prems by simp
  next
    case (Some d)
    let ?epc = "entries_per_cluster v"
    obtain found run1 start1 where rs: "run_scan v count (map (\<lambda>i. (visited * ?epc + i, d + 32 * i)) [0..<?epc]) run start = (found, run1, start1)"
      by (metis prod_cases3)
    obtain st nx where nc: "next_cluster v current = (st, nx)" by fastforce
    obtain a v1 where al: "fat_impl_alloc_cluster v = (a, v1)" by fastforce
    show ?thesis
    proof (cases "found \<or> limit v \<le> visited + 1 \<or> st < 0")
      case True
      then show ?thesis using Suc.prems Some rs nc run_scan_length [of v count _ run start run1 start1] by (auto simp: Let_def split: if_splits)
    next
      case False
      note nf = False
      show ?thesis
      proof (cases "st = 1")
        case True
        have "clean S {} v1" by (rule alloc_clean [OF Suc.prems(2) al])
        then show ?thesis
          using Suc.prems(1) Suc.IH [of a "visited + 1" run1 start1 "fat_set current a v1"] Some rs nc al nf True
          by (auto simp: Let_def fat_set_clean split: if_splits)
      next
        case False
        then show ?thesis
          using Suc.prems Suc.IH [of nx "visited + 1" run1 start1 v] Some rs nc nf
          by (auto simp: Let_def)
      qed
    qed
  qed
qed simp

lemma alloc_dir_slots_clean:
  assumes "alloc_dir_slots d count v = (r, w)" "clean S {} v"
  shows "clean S {} w \<and> (\<forall>slots s. r = Some (slots, s) \<longrightarrow> length slots = count)"
proof (cases "dir_is_fixed_root v d")
  case True
  then show ?thesis using assms run_scan_length by (auto simp: alloc_dir_slots_def Let_def split: prod.splits if_splits)
next
  case False
  then show ?thesis using assms chain_slots_clean by (auto simp: alloc_dir_slots_def split: if_splits)
qed

lemma length_pad: "length xs \<le> k \<Longrightarrow> length (pad k xs) = k"
  by (simp add: pad_def)

lemma short_name_exact_length: "short_name_exact name = Some (out, nt) \<Longrightarrow> length out = 11"
  by (auto simp: short_name_exact_def Let_def length_pad split: if_splits prod.splits)

lemma length_dec_digits: "n < 10 ^ k \<Longrightarrow> length (dec_digits n) \<le> k"
proof (induction n arbitrary: k rule: dec_digits.induct)
  case (1 n)
  show ?case
  proof (cases "n = 0")
    case False
    then obtain j where k: "k = Suc j" using "1.prems" by (cases k) auto
    have "n div 10 < 10 ^ j" using "1.prems" by (simp add: k less_mult_imp_div_less mult.commute)
    then have "length (dec_digits (n div 10)) \<le> j" by (rule "1.IH" [OF False])
    then show ?thesis using False k by (subst dec_digits.simps) simp
  qed (simp add: dec_digits.simps)
qed

lemma short_name_alias_length:
  assumes "short_name_alias taken name = Some out"
  shows "length out = 11"
proof -
  obtain base_len ext_at ext_len where sp: "split_extension name = (base_len, ext_at, ext_len)" by (metis prod_cases3)
  let ?b = "alias_chars 8 (take base_len name)" and ?e = "alias_chars 3 (take ext_len (drop ext_at name))"
  obtain n where n: "n < 1000000" "out = alias_name (if ?b = [] then [95] else ?b) ?e n"
    using assms unfolding short_name_alias_def sp Let_def by (auto simp: find_upt_Some_iff split: option.splits)
  have d: "length (dec_digits n) \<le> 6" using n(1) by (intro length_dec_digits) simp
  have "length ?e \<le> 3" by (simp add: alias_chars_def)
  then show ?thesis using d by (simp add: n(2) alias_name_def Let_def length_pad)
qed

lemma lfn_slots_length:
  assumes "length name \<le> 255"
  shows "length (lfn_slots name k) = (length name + 12) div 13" "raw \<in> set (lfn_slots name k) \<Longrightarrow> length raw = 32"
proof -
  show "length (lfn_slots name k) = (length name + 12) div 13" by (simp add: lfn_slots_def Let_def)
  have "(length name + 12) div 13 \<le> 20" using assms by simp
  then show "raw \<in> set (lfn_slots name k) \<Longrightarrow> length raw = 32"
    by (auto simp: lfn_slots_def Let_def intro!: write_slot_bytes(1))
qed

lemma flush_list_clean:
  "clean S (\<Union>a\<in>set xs. {a..<a + 32}) v \<Longrightarrow> clean S {} (fold (\<lambda>a. fat_flush_bytes a 32) xs v)"
proof (induction xs arbitrary: v)
  case (Cons a xs)
  have "clean S (\<Union>a\<in>set xs. {a..<a + 32}) (fat_flush_bytes a 32 v)"
    by (rule clean_mono [OF flush_clean [OF Cons.prems]]) auto
  then show ?case using Cons.IH by simp
qed simp

lemma choose_name_length: "choose_name taken name = Some (s, nt, count) \<Longrightarrow> length s = 11 \<and> (count = 0 \<or> count = (length name + 12) div 13)"
  by (auto simp: choose_name_def short_name_exact_length short_name_alias_length split: option.splits prod.splits)

lemma new_entries_clean:
  assumes "clean S {} v" "length s = 11" "length slots = count + 1" "length name \<le> 255" "count = 0 \<or> count = (length name + 12) div 13"
  shows "clean S {} (fold (\<lambda>a. fat_flush_bytes a 32) slots (new_entries name s nt attr cluster slots count v))"
proof (rule flush_list_clean)
  let ?D = "\<Union>a\<in>set slots. {a..<a + 32}"
  have p: "clean S ?D (put a bs w)" if "clean S ?D w" "a \<in> set slots" "length bs = 32" for a bs w
    using that by (intro put_clean_in) auto
  have a: "slots ! count \<in> set slots" using assms(3) by simp
  let ?v2 = "if count = 0 then v else fold (\<lambda>(a, raw). put a raw) (zip slots (lfn_slots name (lfn_checksum s))) v"
  have "clean S ?D v" by (rule clean_mono [OF assms(1)]) simp
  then have "clean S ?D ?v2"
    using lfn_slots_length(2) [OF assms(4)] by (auto intro!: fold_clean p dest: set_zip_leftD set_zip_rightD)
  then have "clean S ?D (put (slots ! count) (s @ [attr, nt] @ replicate 19 0) ?v2)" using a assms(2) by (intro p) simp_all
  then show "clean S ?D (new_entries name s nt attr cluster slots count v)"
    unfolding new_entries_def Let_def using a by (intro entry_clean(1,3)) auto
qed

lemma create_entry_clean:
  assumes "fat_impl_create_entry parent name attr cluster v = (r, w)" "clean S {} v"
  shows "clean S {} w"
proof (cases "name = [] \<or> length name > 255 \<or> choose_name (short_name_taken v parent) name = None")
  case True
  then show ?thesis using assms by (auto simp: fat_impl_create_entry_def split: if_splits)
next
  case False
  then obtain s nt count where c: "choose_name (short_name_taken v parent) name = Some (s, nt, count)" by auto
  obtain q v1 where al: "alloc_dir_slots parent (count + 1) v = (q, v1)" by fastforce
  note a = alloc_dir_slots_clean [OF al assms(2)]
  show ?thesis
  proof (cases q)
    case None
    then show ?thesis using assms False c al a by (simp add: fat_impl_create_entry_def)
  next
    case (Some y)
    obtain slots start where y: "y = (slots, start)" by fastforce
    have "w = fold (\<lambda>a. fat_flush_bytes a 32) slots (new_entries name s nt attr cluster slots count v1)"
      using assms(1) False c al Some y by (simp add: fat_impl_create_entry_def)
    then show ?thesis
      using a choose_name_length [OF c] False Some y by (simp add: new_entries_clean)
  qed
qed

section \<open>Operations\<close>

lemma erase_loop_clean: "clean S {} v \<Longrightarrow> clean S {} (erase_loop n c v)"
  by (induction n c v rule: erase_loop.induct) (auto simp: erase_one_def put_flush_clean split: option.split prod.split)

lemma erase_entry_clean: "clean S {} v \<Longrightarrow> clean S {} (fat_impl_erase_entry d e v)"
  by (simp add: fat_impl_erase_entry_def erase_loop_clean split: option.split)

lemma cb_durable: "durable v \<Longrightarrow> 512 \<le> unat (cluster_bytes v)"
  using mult_le_mono [of 1 "unat (sectors_per_cluster v)" 512 "bps v"] by (auto simp: durable_def unat_cluster_bytes cb_def unat_gt_0 Suc_le_eq)

lemma dot_entry_clean:
  assumes "clean S D v" "{a..<a + 32} \<subseteq> D" "length dots \<le> 11"
  shows "clean S D (dot_entry a dots c v)"
proof -
  have "clean S D (put a (pad 11 dots @ [FAT_ATTR_DIRECTORY] @ replicate 20 0) v)"
    using assms by (intro put_clean_in) (simp_all add: length_pad)
  then show ?thesis unfolding dot_entry_def by (intro entry_clean(1,3) assms(2))
qed

lemma init_dir_cluster_clean:
  assumes "fat_impl_init_dir_cluster c parent v = (r, w)" "clean S {} v"
  shows "clean S {} w"
proof (cases "cluster_data v c")
  case None
  then show ?thesis using assms by (simp add: fat_impl_init_dir_cluster_def)
next
  case (Some d)
  let ?n = "unat (cluster_bytes v)" let ?D = "{d..<d + ?n}"
  have n: "512 \<le> ?n" using assms(2) cb_durable by (simp add: clean_def)
  have "clean S ?D (put d (replicate ?n 0) v)" using put_clean [OF assms(2), of d "replicate ?n 0"] by simp
  then have "clean S ?D (dot_entry (d + 32) [46, 46] k (dot_entry d [46] c (put d (replicate ?n 0) v)))" for k
    using n by (intro dot_entry_clean) auto
  then show ?thesis using assms(1) Some by (auto simp: fat_impl_init_dir_cluster_def Let_def intro!: flush_all_clean)
qed

lemma mkdir_at_clean:
  assumes "fat_mkdir_at parent name v = (r, w)" "clean S {} v"
  shows "clean S {} w"
proof -
  obtain c v1 where al: "fat_impl_alloc_cluster v = (c, v1)" by fastforce
  obtain q v2 where ini: "fat_impl_init_dir_cluster c parent v1 = (q, v2)" by fastforce
  obtain e v3 where cr: "fat_impl_create_entry parent name FAT_ATTR_DIRECTORY c v2 = (e, v3)" by fastforce
  have c1: "clean S {} v1" by (rule alloc_clean [OF assms(2) al])
  have c2: "clean S {} v2" by (rule init_dir_cluster_clean [OF ini c1])
  have c3: "clean S {} v3" by (rule create_entry_clean [OF cr c2])
  show ?thesis
    using assms al ini cr c1 c2 c3
    by (auto simp: fat_mkdir_at_def free_chain_clean split: option.splits if_splits)
qed

lemma remove_at_clean: "fat_remove_at parent name k v = (r, w) \<Longrightarrow> clean S {} v \<Longrightarrow> clean S {} w"
  by (auto simp: fat_remove_at_def free_chain_clean erase_entry_clean split: option.splits if_splits)

lemma create_at_clean: "fat_create_at parent name v = (r, w) \<Longrightarrow> clean S {} v \<Longrightarrow> clean S {} w"
  by (auto simp: fat_create_at_def create_entry_clean split: option.splits)

lemma truncate_clean:
  assumes "fat_truncate f v = (r, f', w)" "clean S {} v"
  shows "clean S {} w"
  using assms by (auto simp: fat_truncate_def dir_entry_flush free_chain_clean split: option.splits if_splits)

lemma extend_clean: "extend_chain c v = (r, w) \<Longrightarrow> clean S D v \<Longrightarrow> clean S D w"
  by (auto simp: extend_chain_def fat_set_clean dest: alloc_clean split: prod.splits if_splits)

lemma write_turn_clean:
  assumes "write_turn v f buf = Some (chunk, f1, w, k)" "clean S D v"
  shows "clean S D w"
proof -
  obtain d where d: "cluster_data v (cur_cluster f) = Some d" using assms(1) by (auto simp: write_turn_def split: option.splits)
  note p = put_flush_clean [OF assms(2)]
  show ?thesis
    using assms(1) d by (auto simp: write_turn_def Let_def p intro: extend_clean [OF _ p] split: option.splits prod.splits if_splits)
qed

lemma write_loop_clean: "write_loop n v f buf tot = (f', t', w) \<Longrightarrow> clean S D v \<Longrightarrow> clean S D w"
proof (induction n arbitrary: v f buf tot)
  case (Suc n)
  then show ?case by (auto split: if_splits option.splits prod.splits dest: write_turn_clean)
qed simp

text \<open>The size, times and contents of the directory entry reach the device with the final flush.\<close>

lemma write_finish_clean:
  assumes "fat_write_finish a f v = (f', w)" "clean S {a..<a + 32} v"
  shows "clean S {} w"
proof -
  obtain f1 v1 where p: "(if pos f > fsize f then (f\<lparr>fsize := pos f\<rparr>, fat_impl_entry_set_size a (ucast (pos f)) v) else (f, v)) = (f1, v1)" by fastforce
  have "clean S {a..<a + 32} v1" using p assms(2) by (auto simp: entry_clean split: if_splits)
  then have "clean S {} (fat_flush_bytes a 32 (fat_impl_set_timestamp a v1))" by (intro flush_all_clean entry_clean) auto
  then show ?thesis using assms(1) p by (simp add: fat_write_finish_def Let_def)
qed

lemma write_first_clean:
  assumes "write_first a f v = (ok, f1, v1)" "clean S {} v"
  shows "clean S {a..<a + 32} v1" "\<not> ok \<Longrightarrow> clean S {} v1" "first_cluster f \<noteq> 0 \<Longrightarrow> clean S {} v1" "pos f1 = pos f"
proof -
  obtain c w where al: "fat_impl_alloc_cluster v = (c, w)" by fastforce
  have w: "clean S {} w" by (rule alloc_clean [OF assms(2) al])
  have d: "clean S {a..<a + 32} w" "clean S {a..<a + 32} v" using w assms(2) by (auto elim: clean_mono)
  show "clean S {a..<a + 32} v1" "\<not> ok \<Longrightarrow> clean S {} v1" "first_cluster f \<noteq> 0 \<Longrightarrow> clean S {} v1" "pos f1 = pos f"
    using assms al w d entry_clean(1) [OF d(1) order_refl] by (auto simp: write_first_def split: if_splits)
qed

lemma write_boundary_clean:
  assumes "write_boundary f buf v = (ok, f1, v1)" "clean S D v"
  shows "clean S D v1" "pos f = 0 \<Longrightarrow> ok"
  using assms by (auto simp: write_boundary_def dest: extend_clean split: if_splits prod.splits option.splits)

lemma write_rest_clean:
  assumes "write_rest a f buf v = (n, f', w)" "clean S {a..<a + 32} v"
  shows "clean S {} w"
proof -
  obtain f3 tot v3 where l: "write_loop (length buf) v f buf 0 = (f3, tot, v3)" by (metis prod_cases3)
  obtain f4 v4 where e: "fat_write_finish a f3 v3 = (f4, v4)" by fastforce
  show ?thesis using assms(1) l e write_finish_clean [OF e write_loop_clean [OF l assms(2)]] by (simp add: write_rest_def)
qed

lemma fat_write_clean:
  assumes w: "fat_write f buf v = (n, f', w)" and c: "clean S {} v" and p0: "first_cluster f = 0 \<longrightarrow> pos f = 0"
  shows "clean S {} w"
proof (cases "dir_ent f")
  case None
  then show ?thesis using w c by (simp add: fat_write_def)
next
  case (Some a)
  obtain ok f1 v1 where f: "write_first a f v = (ok, f1, v1)" by (metis prod_cases3)
  obtain ok2 f2 v2 where b: "write_boundary f1 buf v1 = (ok2, f2, v2)" by (metis prod_cases3)
  note fc = write_first_clean [OF f c]
  show ?thesis
  proof (cases "ok \<and> ok2")
    case True
    then have "write_rest a f2 buf v2 = (n, f', w)" using w Some f b by (simp add: fat_write_def)
    then show ?thesis by (rule write_rest_clean) (rule write_boundary_clean(1) [OF b fc(1)])
  next
    case False
    show ?thesis
    proof (cases ok)
      case True
      then have "first_cluster f \<noteq> 0" using False p0 write_boundary_clean(2) [OF b fc(1)] fc(4) by auto
      then have "clean S {} v2" by (rule write_boundary_clean(1) [OF b fc(3)])
      then show ?thesis using w Some f b True False by (simp add: fat_write_def)
    next
      case no: False
      then show ?thesis using w Some f fc(2) by (simp add: fat_write_def)
    qed
  qed
qed

text \<open>
  The operations that change a volume, and the clock.  A file that has no cluster is at position
  zero, as \<open>fat_file_from_entry\<close>, \<open>fat_seek\<close> and \<open>fat_truncate\<close> leave it.
\<close>

inductive fat_step :: "fat_volume \<Rightarrow> fat_volume \<Rightarrow> bool" where
  create: "fat_create path v = (r, w) \<Longrightarrow> fat_step v w"
| mkdir: "fat_mkdir path v = (i, w) \<Longrightarrow> fat_step v w"
| unlink: "fat_unlink path v = (i, w) \<Longrightarrow> fat_step v w"
| rmdir: "fat_rmdir path v = (i, w) \<Longrightarrow> fat_step v w"
| truncate: "fat_truncate f v = (i, f', w) \<Longrightarrow> fat_step v w"
| fwrite: "fat_write f buf v = (n, f', w) \<Longrightarrow> first_cluster f = 0 \<longrightarrow> pos f = 0 \<Longrightarrow> fat_step v w"
| clock: "fat_step v (v\<lparr>now := t\<rparr>)"

lemma fat_step_clean: "fat_step v w \<Longrightarrow> clean S {} v \<Longrightarrow> clean S {} w"
proof (induction rule: fat_step.induct)
  case (create path v r w)
  then show ?case by (auto simp: fat_create_def dest: create_at_clean split: option.splits prod.splits)
next
  case (mkdir path v i w)
  then show ?case by (auto simp: fat_mkdir_def dest: mkdir_at_clean split: option.splits)
next
  case (unlink path v i w)
  then show ?case by (auto simp: fat_unlink_def dest: remove_at_clean split: option.splits)
next
  case (rmdir path v i w)
  then show ?case by (auto simp: fat_rmdir_def dest: remove_at_clean split: option.splits if_splits)
next
  case (truncate f v i f' w)
  then show ?case by (rule truncate_clean)
next
  case (fwrite f buf v n f' w)
  then show ?case using fat_write_clean by blast
next
  case (clock v t)
  then show ?case by (simp add: clean_def durable_def)
qed

lemma mount_clean:
  assumes "fat_init im sz v0 = (0, v)" "\<forall>x < sz. disk v0 x = im x" "sz < 2 ^ 40"
  shows "clean sz {} (fat_set_sector_writer (Some (\<lambda>_. True)) v)"
proof -
  have mf: "fat_mount_format im sz v0 = (0, v)" using assms(1) by (auto simp: fat_init_def split: if_splits)
  note m = mount_facts [OF mf]
  show ?thesis using m(1,4,6,7,13,19) assms(2,3) by (simp add: clean_def durable_def fat_set_sector_writer_def word_le_nat_alt)
qed



end
