(* ===== verification/Fat_File.thy ===== *)
theory Fat_File
  imports Fat_Volume
begin

text \<open>
  Files of the FAT model: the bytes of a cluster chain, and reading, seeking and writing in terms of
  them.
\<close>

section \<open>Contents of a chain\<close>

definition content :: "fat_volume \<Rightarrow> u32 list \<Rightarrow> bytes" where
  "content v cs = concat (map (cdata v) cs)"

definition overwrite :: "nat \<Rightarrow> 'a list \<Rightarrow> 'a list \<Rightarrow> 'a list" where
  "overwrite p bs xs = take p xs @ bs @ drop (p + length bs) xs"

lemma length_overwrite: "p + length bs \<le> length xs \<Longrightarrow> length (overwrite p bs xs) = length xs"
  by (simp add: overwrite_def)

lemma nth_overwrite:
  assumes "p + length bs \<le> length xs" "i < length xs"
  shows "overwrite p bs xs ! i = (if p \<le> i \<and> i < p + length bs then bs ! (i - p) else xs ! i)"
  using assms by (auto simp: overwrite_def nth_append min_def)

lemma overwrite_Nil [simp]: "overwrite p [] xs = xs"
  by (simp add: overwrite_def)

lemma overwrite_overwrite:
  assumes "p + length x + length y \<le> length zs"
  shows "overwrite (p + length x) y (overwrite p x zs) = overwrite p (x @ y) zs"
proof (rule nth_equalityI)
  show "length (overwrite (p + length x) y (overwrite p x zs)) = length (overwrite p (x @ y) zs)"
    using assms by (simp add: length_overwrite)
  fix i assume "i < length (overwrite (p + length x) y (overwrite p x zs))"
  then have "i < length zs" using assms by (simp add: length_overwrite)
  then show "overwrite (p + length x) y (overwrite p x zs) ! i = overwrite p (x @ y) zs ! i"
    using assms by (auto simp: nth_overwrite length_overwrite nth_append)
qed

lemma overwrite_append: "p + length bs \<le> length xs \<Longrightarrow> overwrite p bs xs @ ys = overwrite p bs (xs @ ys)"
  by (simp add: overwrite_def)

lemma length_concat_uniform: "(\<And>x. x \<in> set xss \<Longrightarrow> length x = n) \<Longrightarrow> length (concat xss) = length xss * n"
  by (induction xss) auto

lemma nth_concat_uniform:
  assumes "\<And>x. x \<in> set xss \<Longrightarrow> length x = n" "k < length xss * n"
  shows "concat xss ! k = xss ! (k div n) ! (k mod n)"
  using assms
proof (induction xss arbitrary: k)
  case (Cons x xss)
  have n: "0 < n" "length x = n" using Cons.prems by (cases n; simp)+
  show ?case
  proof (cases "k < n")
    case False
    have "(k - n) div n = k div n - 1" "(k - n) mod n = k mod n" "0 < k div n"
      using False n(1) le_div_geq [of n k] le_mod_geq [of n k] by simp_all
    then show ?thesis using False Cons.IH [of "k - n"] Cons.prems n by (auto simp: nth_append nth_Cons')
  qed (simp add: nth_append n)
qed simp

lemma div_mod_offset:
  assumes "p mod n + i < (n :: nat)"
  shows "(p + i) div n = p div n" "(p + i) mod n = p mod n + i"
proof -
  have "((r + i) + q * n) div n = q \<and> ((r + i) + q * n) mod n = r + i" if "r + i < n" for q r using that by simp
  moreover have e: "p mod n + i + p div n * n = p + i" using mod_div_mult_eq [of p n] by linarith
  ultimately show "(p + i) div n = p div n" "(p + i) mod n = p mod n + i" using assms unfolding e [symmetric] by blast+
qed

lemma length_cdata [simp]: "length (cdata v c) = cb v"
  by (simp add: cdata_def)

lemma length_content [simp]: "length (content v cs) = length cs * cb v"
  unfolding content_def by (subst length_concat_uniform [where n = "cb v"]) auto

lemma nth_content:
  assumes "k < length cs * cb v"
  shows "content v cs ! k = img v (cl v (cs ! (k div cb v)) + k mod cb v)"
proof -
  have "0 < cb v" using assms by (cases "cb v") auto
  moreover have "k div cb v < length cs" using assms by (simp add: less_mult_imp_div_less)
  moreover have "content v cs ! k = map (cdata v) cs ! (k div cb v) ! (k mod cb v)"
    unfolding content_def using assms by (intro nth_concat_uniform) auto
  ultimately show ?thesis by (simp add: cdata_def)
qed

lemma content_append: "content v (cs @ ds) = content v cs @ content v ds"
  by (simp add: content_def)

lemma content_cong: "(\<And>c. c \<in> set cs \<Longrightarrow> cdata w c = cdata v c) \<Longrightarrow> content w cs = content v cs"
  unfolding content_def by (simp cong: map_cong)

text \<open>Within one cluster the bytes of a chain are consecutive in the image.\<close>

lemma content_slice:
  assumes "p div cb v < length cs" "p mod cb v + n \<le> cb v"
  shows "take n (drop p (content v cs)) = map (\<lambda>i. img v (cl v (cs ! (p div cb v)) + p mod cb v + i)) [0..<n]"
proof (cases "n = 0")
  case False
  let ?q = "p div cb v"
  have b: "0 < cb v" using assms(2) False by simp
  have "(?q + 1) * cb v \<le> length cs * cb v" using assms(1) by (intro mult_le_mono1) simp
  moreover have p: "p = ?q * cb v + p mod cb v" by simp
  ultimately have e: "p + n \<le> length cs * cb v" using assms(2) unfolding add_mult_distrib by linarith
  show ?thesis
  proof (rule nth_equalityI)
    show "length (take n (drop p (content v cs))) = length (map (\<lambda>i. img v (cl v (cs ! (p div cb v)) + p mod cb v + i)) [0..<n])"
      using e by simp
    fix i assume "i < length (take n (drop p (content v cs)))"
    then have i: "i < n" by simp
    have "(p + i) div cb v = ?q" "(p + i) mod cb v = p mod cb v + i"
      using div_mod_offset [of p "cb v" i] i assms(2) by simp_all
    then show "take n (drop p (content v cs)) ! i = map (\<lambda>i. img v (cl v (cs ! (p div cb v)) + p mod cb v + i)) [0..<n] ! i"
      using i e nth_content [of "p + i" cs v] by (simp add: add.assoc)
  qed
qed simp

section \<open>Walking a chain\<close>

lemma chain_next:
  assumes wf: "vol_wf v"
  shows "chain v cs \<Longrightarrow> i < length cs \<Longrightarrow> next_cluster v (cs ! i) = (if Suc i < length cs then (0, cs ! Suc i) else (1, 0))"
proof (induction cs arbitrary: i)
  case (Cons c cs)
  show ?case
  proof (cases cs)
    case Nil
    then show ?thesis using Cons.prems by (simp add: next_cluster_def Let_def)
  next
    case (Cons d ds)
    then have d: "cluster_is_valid v c" "fat_get v c = d" "chain v cs" using Cons.prems by simp_all
    have dv: "cluster_is_valid v d" using chain_valid [OF d(3)] Cons by simp
    show ?thesis
    proof (cases i)
      case 0
      then show ?thesis using d dv eoc_facts(4) [OF wf dv] Cons by (simp add: next_cluster_def Let_def)
    next
      case (Suc j)
      then show ?thesis using Cons.IH [OF d(3), of j] Cons.prems by simp
    qed
  qed
qed simp

lemma seek_walk_chain: "vol_wf v \<Longrightarrow> chain v cs \<Longrightarrow> i + n < length cs \<Longrightarrow> seek_walk n v (cs ! i) = (True, cs ! (i + n))"
proof (induction n arbitrary: i)
  case (Suc n)
  then show ?case using chain_next [of v cs i] Suc.IH [of "Suc i"] by simp
qed simp

text \<open>
  The clusters of an open file.  The cursor is in the cluster of the byte at the position; at the
  end of a file that fills its clusters it stays in the last one.
\<close>

definition cursor_index :: "nat \<Rightarrow> nat \<Rightarrow> nat \<Rightarrow> nat" where
  "cursor_index n sz p = (if p = sz \<and> p mod n = 0 then p div n - 1 else p div n)"

definition file_rep :: "fat_volume \<Rightarrow> fat_file \<Rightarrow> u32 list \<Rightarrow> bool" where
  "file_rep v f cs \<longleftrightarrow> pos f \<le> fsize f \<and>
     (if cs = [] then first_cluster f = 0 \<and> fsize f = 0
      else chain v cs \<and> first_cluster f = hd cs \<and> unat (fsize f) \<le> length cs * cb v \<and>
           cur_cluster f = cs ! cursor_index (cb v) (unat (fsize f)) (unat (pos f)))"

abbreviation file_bytes :: "fat_volume \<Rightarrow> fat_file \<Rightarrow> u32 list \<Rightarrow> bytes" where
  "file_bytes v f cs \<equiv> take (unat (fsize f)) (content v cs)"

lemma unat_pos_mod: "unat (x mod cluster_bytes v) = unat x mod cb v" "unat (x div cluster_bytes v) = unat x div cb v"
  by (simp_all add: unat_mod_distrib unat_div_distrib unat_cluster_bytes)

lemma pos_mod_eq_0: "x mod cluster_bytes v = 0 \<longleftrightarrow> unat x mod cb v = 0"
  using unat_pos_mod(1) [of x v] by (metis unat_eq_zero)

section \<open>Reading and seeking\<close>

lemma read_turn_effect:
  assumes wf: "vol_wf v" and ch: "chain v cs" and sz: "unat (fsize f) \<le> length cs * cb v" and p: "pos f < fsize f" and len: "0 < len"
    and cur: "cur_cluster f = cs ! (unat (pos f) div cb v)"
  obtains n f1 where "read_turn v f len = Some (take n (drop (unat (pos f)) (content v cs)), f1, True)"
    "0 < n" "n \<le> len" "unat (pos f) + n \<le> unat (fsize f)" "unat (pos f1) = unat (pos f) + n"
    "f1 = f\<lparr>pos := pos f1, cur_cluster := cur_cluster f1\<rparr>"
    "cur_cluster f1 = cs ! cursor_index (cb v) (unat (fsize f)) (unat (pos f1))"
proof -
  let ?p = "unat (pos f)" and ?b = "cb v" and ?s = "unat (fsize f)"
  have b: "512 \<le> ?b" by (rule cb_bounds(1) [OF wf])
  have ps: "?p < ?s" using p by (simp add: word_less_nat_alt)
  let ?i = "?p div ?b"
  have i: "?i < length cs" using ps sz by (auto intro: less_mult_imp_div_less)
  have v: "cluster_is_valid v (cs ! ?i)" using chain_valid [OF ch] i by simp
  define n where "n = min (min len (?b - ?p mod ?b)) (?s - ?p)"
  have m: "?p mod ?b < ?b" using b by simp
  have nn: "0 < n" "n \<le> len" "?p + n \<le> ?s" "?p mod ?b + n \<le> ?b" using len ps m by (auto simp: n_def)
  have u1: "unat (cluster_bytes v - pos f mod cluster_bytes v) = ?b - ?p mod ?b"
    using m by (simp add: unat_sub word_le_nat_alt unat_pos_mod unat_cluster_bytes)
  have u2: "unat (fsize f - pos f) = ?s - ?p" using ps by (simp add: unat_sub word_le_nat_alt)
  let ?q = "pos f + of_nat n"
  have q: "unat ?q = ?p + n"
  proof -
    have "?p + n < 2 ^ 32" using nn(3) unsigned_less [of "fsize f", where 'a = nat] by simp
    then show ?thesis by (simp add: unat_word_ariths(1) unat_of_nat)
  qed
  have data: "take n (drop ?p (content v cs)) = map (\<lambda>k. img v (cl v (cs ! ?i) + ?p mod ?b + k)) [0..<n]"
    by (rule content_slice [OF i nn(4)])
  have rt: "read_turn v f len = (if ?q mod cluster_bytes v = 0 \<and> ?q < fsize f then
       (let (status, nxt) = next_cluster v (cs ! ?i)
        in if status \<noteq> 0 then Some (take n (drop ?p (content v cs)), f\<lparr>pos := ?q\<rparr>, False)
           else Some (take n (drop ?p (content v cs)), f\<lparr>pos := ?q, cur_cluster := nxt\<rparr>, True))
     else Some (take n (drop ?p (content v cs)), f\<lparr>pos := ?q\<rparr>, True))"
    unfolding data read_turn_def cur cluster_data_valid [OF wf v] Let_def u1 u2 unat_pos_mod n_def [symmetric] by (simp add: cur cong: if_cong)
  show ?thesis
  proof (cases "?q mod cluster_bytes v = 0 \<and> ?q < fsize f")
    case True
    then have z: "(?p + n) mod ?b = 0" "?p + n < ?s" using q by (simp_all add: pos_mod_eq_0 word_less_nat_alt)
    have full: "?p mod ?b + n = ?b"
    proof (rule ccontr)
      assume "?p mod ?b + n \<noteq> ?b"
      then show False using div_mod_offset(2) [of ?p ?b n] nn(1,4) z(1) by simp
    qed
    then have d: "(?p + n) div ?b = ?i + 1"
    proof -
      have "?p + n = (?i + 1) * ?b" using full mod_div_mult_eq [of ?p ?b] by (simp only: add_mult_distrib mult_1; linarith)
      then show ?thesis using b by simp
    qed
    have "?i + 1 < length cs" using less_mult_imp_div_less [OF less_le_trans [OF z(2) sz]] d by simp
    then have "next_cluster v (cs ! ?i) = (0, cs ! Suc ?i)" using chain_next [OF wf ch i] by simp
    then have "read_turn v f len = Some (take n (drop ?p (content v cs)), f\<lparr>pos := ?q, cur_cluster := cs ! Suc ?i\<rparr>, True)"
      using rt True by simp
    then show ?thesis using nn q z d by (intro that [of n "f\<lparr>pos := ?q, cur_cluster := cs ! Suc ?i\<rparr>"]) (simp_all add: cursor_index_def)
  next
    case False
    then have "read_turn v f len = Some (take n (drop ?p (content v cs)), f\<lparr>pos := ?q\<rparr>, True)" unfolding rt by (rule if_not_P)
    moreover have "cs ! ?i = cs ! (if ?p + n = ?s \<and> (?p + n) mod ?b = 0 then (?p + n) div ?b - 1 else (?p + n) div ?b)" (is "?c = _")
    proof (cases "?p mod ?b + n < ?b")
      case True
      then show ?thesis using div_mod_offset [OF True] nn(1) by simp
    next
      case no: False
      then have full: "?p + n = (?i + 1) * ?b" using nn(4) mod_div_mult_eq [of ?p ?b] by (simp only: add_mult_distrib mult_1; linarith)
      then have d: "(?p + n) div ?b = ?i + 1" "(?p + n) mod ?b = 0" using b by simp_all
      then have "?p + n = ?s" using False nn(3) q by (simp add: pos_mod_eq_0 word_less_nat_alt)
      then show ?thesis using d by simp
    qed
    ultimately show ?thesis using nn q cur by (intro that [of n "f\<lparr>pos := ?q\<rparr>"]) (simp_all add: cursor_index_def)
  qed
qed

lemma read_loop_effect:
  assumes wf: "vol_wf v" and ch: "chain v cs"
  shows "len \<le> n \<Longrightarrow> unat (fsize f) \<le> length cs * cb v \<Longrightarrow> pos f \<le> fsize f \<Longrightarrow>
    cur_cluster f = cs ! cursor_index (cb v) (unat (fsize f)) (unat (pos f)) \<Longrightarrow> read_loop n v f len out = (f', out') \<Longrightarrow>
    out' = out @ take len (drop (unat (pos f)) (file_bytes v f cs)) \<and>
    unat (pos f') = min (unat (fsize f)) (unat (pos f) + len) \<and>
    f' = f\<lparr>pos := pos f', cur_cluster := cs ! cursor_index (cb v) (unat (fsize f)) (unat (pos f'))\<rparr>"
proof (induction n arbitrary: f len out)
  case 0
  then show ?case by (auto simp: word_le_nat_alt min_def)
next
  case (Suc n)
  have pf: "unat (pos f) \<le> unat (fsize f)" using Suc.prems(3) by (simp add: word_le_nat_alt)
  show ?case
  proof (cases "len = 0 \<or> \<not> pos f < fsize f")
    case True
    then have "len = 0 \<or> unat (pos f) = unat (fsize f)" using pf by (auto simp: word_less_nat_alt)
    then show ?thesis using True Suc.prems(4,5) pf by auto
  next
    case False
    then have p: "pos f < fsize f" "0 < len" by auto
    then have pl: "unat (pos f) < unat (fsize f)" by (simp add: word_less_nat_alt)
    then have cur: "cur_cluster f = cs ! (unat (pos f) div cb v)" using Suc.prems(4) by (simp add: cursor_index_def)
    let ?d = "drop (unat (pos f)) (content v cs)"
    obtain k f1 where rt: "read_turn v f len = Some (take k ?d, f1, True)"
      and k: "0 < k" "k \<le> len" "unat (pos f) + k \<le> unat (fsize f)" "unat (pos f1) = unat (pos f) + k"
      and f1: "f1 = f\<lparr>pos := pos f1, cur_cluster := cur_cluster f1\<rparr>"
        "cur_cluster f1 = cs ! cursor_index (cb v) (unat (fsize f)) (unat (pos f1))"
      by (rule read_turn_effect [OF wf ch Suc.prems(2) p cur])
    have fs: "fsize f1 = fsize f" by (subst f1(1)) simp
    have lk: "length (take k ?d) = k" using k(3) Suc.prems(2) by simp
    have rl: "read_loop n v f1 (len - k) (out @ take k ?d) = (f', out')" using Suc.prems(5) False rt lk by simp
    have ih: "out' = (out @ take k ?d) @ take (len - k) (drop (unat (pos f1)) (file_bytes v f1 cs)) \<and>
       unat (pos f') = min (unat (fsize f1)) (unat (pos f1) + (len - k)) \<and>
       f' = f1\<lparr>pos := pos f', cur_cluster := cs ! cursor_index (cb v) (unat (fsize f1)) (unat (pos f'))\<rparr>"
      using Suc.prems(1,2) k fs f1(2)
      by (intro Suc.IH [OF _ _ _ _ rl]) (simp_all add: word_le_nat_alt)
    have "take k ?d = take k (drop (unat (pos f)) (file_bytes v f cs))"
      using k(3) by (simp add: drop_take min_absorb1)
    moreover have "take len (drop (unat (pos f)) (file_bytes v f cs))
        = take k (drop (unat (pos f)) (file_bytes v f cs)) @ take (len - k) (drop (unat (pos f) + k) (file_bytes v f cs))"
      using take_add [of k "len - k" "drop (unat (pos f)) (file_bytes v f cs)"] k(2) by (simp add: add.commute)
    ultimately have "out' = out @ take len (drop (unat (pos f)) (file_bytes v f cs))" using ih k(4) fs by simp
    moreover have "unat (pos f') = min (unat (fsize f)) (unat (pos f) + len)" using ih k fs by simp
    moreover have "f' = f\<lparr>pos := pos f', cur_cluster := cs ! cursor_index (cb v) (unat (fsize f)) (unat (pos f'))\<rparr>"
    proof -
      obtain q c where e: "f1 = f\<lparr>pos := q, cur_cluster := c\<rparr>" using f1(1) by blast
      show ?thesis by (rule trans [OF ih [THEN conjunct2, THEN conjunct2]]) (simp add: e)
    qed
    ultimately show ?thesis by blast
  qed
qed

lemma cursor_index_less:
  assumes "s \<le> n * b" "p \<le> s" "0 < b" "0 < n"
  shows "cursor_index b s p < n"
proof (cases "p = s \<and> p mod b = 0")
  case True
  have "p div b \<le> n" using assms(1,2) div_le_mono [of p "n * b" b] assms(3) by simp
  then show ?thesis using True assms(4) by (auto simp: cursor_index_def)
next
  case False
  have "p < n * b"
  proof (rule ccontr)
    assume "\<not> p < n * b"
    then have "p = s" "p = n * b" using assms(1,2) by simp_all
    then have "p mod b = 0" by (metis mod_mult_self2_is_0)
    then show False using False \<open>p = s\<close> by simp
  qed
  then show ?thesis using False less_mult_imp_div_less by (auto simp: cursor_index_def)
qed

lemma fat_read_effect:
  assumes "vol_wf v" and "file_rep v f cs" and "fat_read v f len = (f', out)"
  shows "out = take len (drop (unat (pos f)) (file_bytes v f cs)) \<and> unat (pos f') = unat (pos f) + length out
    \<and> file_rep v f' cs \<and> file_bytes v f' cs = file_bytes v f cs"
proof (cases "cs = []")
  case True
  then have z: "fsize f = 0" "pos f = 0" using assms(2) by (auto simp: file_rep_def word_le_nat_alt unat_eq_zero)
  have "fat_read v f len = (f, [])" using z by (cases len) (simp_all add: fat_read_def)
  then show ?thesis using assms(2,3) z True by (simp add: content_def)
next
  case False
  have r: "chain v cs" "unat (fsize f) \<le> length cs * cb v" "pos f \<le> fsize f" "first_cluster f = hd cs"
    "cur_cluster f = cs ! cursor_index (cb v) (unat (fsize f)) (unat (pos f))"
    using assms(2) False by (simp_all add: file_rep_def)
  have e: "out = [] @ take len (drop (unat (pos f)) (file_bytes v f cs)) \<and> unat (pos f') = min (unat (fsize f)) (unat (pos f) + len) \<and>
      f' = f\<lparr>pos := pos f', cur_cluster := cs ! cursor_index (cb v) (unat (fsize f)) (unat (pos f'))\<rparr>"
    using assms(3) by (intro read_loop_effect [OF assms(1) r(1) order_refl r(2,3,5)]) (simp add: fat_read_def)
  have fs: "fsize f' = fsize f" "first_cluster f' = first_cluster f" "cur_cluster f' = cs ! cursor_index (cb v) (unat (fsize f)) (unat (pos f'))"
    by (subst e [THEN conjunct2, THEN conjunct2], simp)+
  have "length out = min len (unat (fsize f) - unat (pos f))" using e r(2) by simp
  moreover have "unat (pos f) \<le> unat (fsize f)" using r(3) by (simp add: word_le_nat_alt)
  ultimately show ?thesis using e fs r False by (auto simp: file_rep_def word_le_nat_alt)
qed

text \<open>
  C33. Reading returns the bytes of the file: from an open file whose clusters form a chain,
  \<open>fat_read\<close> returns exactly the bytes from its position on, as many as asked for or as the file has
  left, across any number of clusters, and leaves the position after them with the cursor in the
  cluster that holds it.
\<close>

theorem fat_read_correct:
  assumes "vol_wf v" and "file_rep v f cs" and "fat_read v f len = (f', out)"
  shows "out = take len (drop (unat (pos f)) (file_bytes v f cs)) \<and> unat (pos f') = unat (pos f) + length out
    \<and> file_rep v f' cs \<and> file_bytes v f' cs = file_bytes v f cs"
  using assms by (rule fat_read_effect)

text \<open>Seeking puts the cursor where reading and writing expect it.\<close>

lemma fat_seek_effect:
  assumes wf: "vol_wf v" and ch: "chain v cs" and fc: "first_cluster f = hd cs" and sz: "unat (fsize f) \<le> length cs * cb v"
  shows "fat_seek v f p = (0, f\<lparr>pos := min p (fsize f), cur_cluster := cs ! cursor_index (cb v) (unat (fsize f)) (unat (min p (fsize f)))\<rparr>)"
proof -
  define q where "q = min p (fsize f)"
  have b: "512 \<le> cb v" by (rule cb_bounds(1) [OF wf])
  have cs: "cs \<noteq> []" using ch by auto
  then have h: "hd cs = cs ! 0" by (simp add: hd_conv_nth)
  have pos: "(if p > fsize f then fsize f else p) = q" by (auto simp: q_def min_def)
  have ql: "unat q \<le> unat (fsize f)" by (simp add: q_def word_le_nat_alt [symmetric])
  show ?thesis
  proof (cases "q = 0 \<or> fsize f = 0")
    case True
    then have "q = 0" by (auto simp: q_def)
    then show ?thesis unfolding q_def [symmetric] using True fc h by (simp add: fat_seek_def pos cursor_index_def)
  next
    case False
    then have q0: "0 < unat q" by (simp add: unat_gt_0)
    let ?i = "cursor_index (cb v) (unat (fsize f)) (unat q)"
    have i: "?i < length cs" using cursor_index_less [OF sz ql] b cs by simp
    have eq: "q = fsize f \<longleftrightarrow> unat q = unat (fsize f)" by (simp add: word_unat_eq_iff)
    have skip: "(if q = fsize f \<and> q mod cluster_bytes v = 0 then unat (q div cluster_bytes v) - 1 else unat (q div cluster_bytes v)) = ?i"
      unfolding cursor_index_def pos_mod_eq_0 eq unat_pos_mod ..
    have "seek_walk ?i v (cs ! 0) = (True, cs ! (0 + ?i))" using i by (intro seek_walk_chain [OF wf ch]) simp
    then show ?thesis unfolding q_def [symmetric] fat_seek_def pos Let_def skip using False fc h by simp
  qed
qed

section \<open>Writing\<close>

text \<open>
  What a write may do to the volume: the chain of the file grows by unused clusters, and nothing
  outside its clusters and the bytes \<open>E\<close> changes.
\<close>

definition grown :: "nat set \<Rightarrow> fat_volume \<Rightarrow> u32 list \<Rightarrow> fat_volume \<Rightarrow> u32 list \<Rightarrow> bool" where
  "grown E v cs w ds \<longleftrightarrow>
     geo w = geo v \<and> (mirrored v \<longrightarrow> mirrored w) \<and> chain w ds \<and>
     (\<exists>new. ds = cs @ new \<and> (\<forall>c\<in>set new. cluster_is_valid v c \<and> fat_get v c = 0)) \<and>
     (\<forall>d. cluster_is_valid v d \<longrightarrow> d \<notin> set ds \<longrightarrow> fat_get w d = fat_get v d) \<and>
     (\<forall>x. unat (root_start_sector v) * bps v \<le> x \<longrightarrow> x \<notin> E \<longrightarrow> (\<forall>c\<in>set ds. \<not> (cl v c \<le> x \<and> x < cl v c + cb v)) \<longrightarrow> img w x = img v x)"

lemma chain_used: "vol_wf v \<Longrightarrow> chain v cs \<Longrightarrow> c \<in> set cs \<Longrightarrow> fat_get v c \<noteq> 0"
proof (induction cs)
  case (Cons d cs)
  show ?case
  proof (cases "c \<in> set cs")
    case True
    then have "chain v cs" using Cons.prems(2) by (cases cs) auto
    then show ?thesis using Cons True by blast
  next
    case False
    then have "c = d" using Cons.prems(3) by simp
    then show ?thesis using Cons.prems(1,2) chain_valid [OF Cons.prems(2)] eoc_facts(6,7) [OF Cons.prems(1)] by (cases cs) auto
  qed
qed simp

lemma grown_refl: "chain v cs \<Longrightarrow> grown E v cs v cs"
  by (simp add: grown_def)

lemma grown_mono: "grown E v cs w ds \<Longrightarrow> E \<subseteq> F \<Longrightarrow> grown F v cs w ds"
  unfolding grown_def by blast

lemma grown_trans:
  assumes "vol_wf v" "grown E v cs w ds" "grown E w ds u es"
  shows "grown E v cs u es"
proof -
  have g: "geo w = geo v" "geo u = geo w" using assms(2,3) by (simp_all add: grown_def)
  have wf: "vol_wf w" using vol_wf_geo [OF g(1)] assms(1) by simp
  have a: "cl w = cl v" "cb w = cb v" "root_start_sector w = root_start_sector v" "bytes_per_sector w = bytes_per_sector v"
    using addr_geo [OF g(1)] geo_fields(2,7) [OF g(1)] by simp_all
  note val = valid_geo [OF g(1)]
  obtain new where new: "ds = cs @ new" "\<forall>c\<in>set new. cluster_is_valid v c \<and> fat_get v c = 0" using assms(2) by (auto simp: grown_def)
  obtain new2 where new2: "es = ds @ new2" "\<forall>c\<in>set new2. cluster_is_valid w c \<and> fat_get w c = 0" using assms(3) by (auto simp: grown_def)
  have ch: "chain w ds" using assms(2) by (simp add: grown_def)
  have "fat_get v c = 0" if "c \<in> set new2" for c
  proof -
    have "c \<notin> set ds" using chain_used [OF wf ch] new2(2) that by blast
    then show ?thesis using assms(2) new2(2) that val by (auto simp: grown_def)
  qed
  then have "\<exists>new. es = cs @ new \<and> (\<forall>c\<in>set new. cluster_is_valid v c \<and> fat_get v c = 0)"
    using new new2 val by (intro exI [of _ "new @ new2"]) auto
  moreover have "\<forall>d. cluster_is_valid v d \<longrightarrow> d \<notin> set es \<longrightarrow> fat_get u d = fat_get v d"
    using assms(2,3) new2(1) val by (auto simp: grown_def)
  moreover have "\<forall>x. unat (root_start_sector v) * bps v \<le> x \<longrightarrow> x \<notin> E \<longrightarrow> (\<forall>c\<in>set es. \<not> (cl v c \<le> x \<and> x < cl v c + cb v)) \<longrightarrow> img u x = img v x"
    using assms(2,3) new2(1) unfolding grown_def a by (auto simp: Ball_def)
  ultimately show ?thesis using assms(2,3) g by (auto simp: grown_def)
qed

text \<open>A change past the tables leaves links and chains alone.\<close>

lemma tail_write:
  assumes wf: "vol_wf v" and g: "geo w = geo v" and tl: "\<And>x. x < unat (root_start_sector v) * bps v \<Longrightarrow> img w x = img v x"
  shows "f < unat (fat_count v) \<Longrightarrow> unat c < limit v \<Longrightarrow> ent w f c = ent v f c"
    "cluster_is_valid v c \<Longrightarrow> fat_get w c = fat_get v c" "mirrored w = mirrored v" "chain w cs = chain v cs" "vol_wf w"
proof -
  have e: "ent w f c = ent v f c" if "f < unat (fat_count v)" "unat c < limit v" for f c
    using table_region(2) [OF wf that] by (intro ent_cong [OF g] tl) linarith
  then show "f < unat (fat_count v) \<Longrightarrow> unat c < limit v \<Longrightarrow> ent w f c = ent v f c" .
  show wf': "vol_wf w" using vol_wf_geo [OF g] wf by simp
  have fg: "fat_get w c = fat_get v c" if "cluster_is_valid v c" for c
    using e [OF vol_wfD(5) [OF wf], of c] that wf wf' by (simp add: fat_get_ent valid_iff)
  then show "cluster_is_valid v c \<Longrightarrow> fat_get w c = fat_get v c" .
  show "mirrored w = mirrored v"
    using e fg geo_fields(4) [OF g] valid_geo [OF g] by (auto simp: mirrored_def valid_iff)
  show "chain w cs = chain v cs"
  proof (cases "\<forall>c\<in>set cs. cluster_is_valid v c")
    case True
    then show ?thesis using fg by (intro chain_cong [OF g]) auto
  next
    case False
    then show ?thesis using chain_valid [of v cs] chain_valid [of w cs] valid_geo [OF g] by blast
  qed
qed

lemma cluster_after_root: "vol_wf v \<Longrightarrow> cluster_is_valid v c \<Longrightarrow> unat (root_start_sector v) * bps v \<le> cl v c"
  using data_after_root [of v c] by linarith

lemma put_cluster:
  assumes wf: "vol_wf v" and ch: "chain v cs" and i: "i < length cs" and off: "off + length bs \<le> cb v"
    and w: "w = fat_flush_bytes a n (put (cl v (cs ! i) + off) bs v)"
  shows "grown {} v cs w cs" "content w cs = overwrite (i * cb v + off) bs (content v cs)"
proof -
  have g: "geo w = geo v" by (simp add: w)
  have im: "img w x = (if cl v (cs ! i) + off \<le> x \<and> x < cl v (cs ! i) + off + length bs then bs ! (x - (cl v (cs ! i) + off)) else img v x)" for x
    by (simp add: w)
  have v: "cluster_is_valid v (cs ! i)" using chain_valid [OF ch] i by simp
  note r = cluster_after_root [OF wf v]
  have tl: "img w x = img v x" if "x < unat (root_start_sector v) * bps v" for x using that r by (auto simp: im)
  note t = tail_write [OF wf g tl]
  have out: "img w x = img v x" if "\<forall>c\<in>set cs. \<not> (cl v c \<le> x \<and> x < cl v c + cb v)" for x
  proof -
    have "\<not> (cl v (cs ! i) \<le> x \<and> x < cl v (cs ! i) + cb v)" using that i by simp
    then show ?thesis using off by (auto simp: im)
  qed
  show "grown {} v cs w cs" unfolding grown_def using g t(2,3,4) ch out by simp
  have b: "cl w = cl v" "cb w = cb v" using addr_geo [OF g] by simp_all
  have fit: "i * cb v + off + length bs \<le> length cs * cb v"
    using mult_le_mono1 [of "Suc i" "length cs" "cb v"] i off by simp
  have "0 < cb v" using cb_bounds(1) [OF wf] by simp
  show "content w cs = overwrite (i * cb v + off) bs (content v cs)"
  proof (rule nth_equalityI)
    show "length (content w cs) = length (overwrite (i * cb v + off) bs (content v cs))"
      using fit by (simp add: length_overwrite b)
    fix k assume "k < length (content w cs)"
    then have k: "k < length cs * cb v" by (simp add: b)
    let ?j = "k div cb v" and ?m = "k mod cb v"
    have j: "?j < length cs" using k by (simp add: less_mult_imp_div_less)
    have kk: "k = ?j * cb v + ?m" by simp
    have m: "?m < cb v" using \<open>0 < cb v\<close> by simp
    have cw: "content w cs ! k = img w (cl v (cs ! ?j) + ?m)" using nth_content [of k cs w] k by (simp add: b)
    have o: "overwrite (i * cb v + off) bs (content v cs) ! k
       = (if i * cb v + off \<le> k \<and> k < i * cb v + off + length bs then bs ! (k - (i * cb v + off)) else img v (cl v (cs ! ?j) + ?m))"
      using fit k nth_content [OF k] by (simp add: nth_overwrite)
    show "content w cs ! k = overwrite (i * cb v + off) bs (content v cs) ! k"
    proof (cases "?j = i")
      case True
      note km = kk [unfolded True]
      have "i * cb v + off \<le> k \<longleftrightarrow> off \<le> ?m" "k < i * cb v + off + length bs \<longleftrightarrow> ?m < off + length bs" "k - (i * cb v + off) = ?m - off"
        by (subst (1) km, simp)+
      then show ?thesis unfolding cw o im using True by auto
    next
      case False
      then have ne: "cs ! ?j \<noteq> cs ! i" using chain_distinct [OF wf ch] i j by (simp add: nth_eq_iff_index_eq)
      have vj: "cluster_is_valid v (cs ! ?j)" using chain_valid [OF ch] j by simp
      have "cl v (cs ! ?j) + cb v \<le> cl v (cs ! i) \<or> cl v (cs ! i) + cb v \<le> cl v (cs ! ?j)" by (rule clusters_disjoint [OF wf vj v ne])
      then have "\<not> (cl v (cs ! i) + off \<le> cl v (cs ! ?j) + ?m \<and> cl v (cs ! ?j) + ?m < cl v (cs ! i) + off + length bs)"
        using m off by linarith
      then have "img w (cl v (cs ! ?j) + ?m) = img v (cl v (cs ! ?j) + ?m)" unfolding im by (rule if_not_P)
      moreover have "\<not> (i * cb v + off \<le> k \<and> k < i * cb v + off + length bs)"
      proof
        assume h: "i * cb v + off \<le> k \<and> k < i * cb v + off + length bs"
        have "i \<le> ?j" using h \<open>0 < cb v\<close> by (simp add: less_eq_div_iff_mult_less_eq)
        moreover have "?j < Suc i" using h off \<open>0 < cb v\<close> by (intro less_mult_imp_div_less) simp
        ultimately show False using False by simp
      qed
      ultimately show ?thesis unfolding cw o by (simp only: if_False)
    qed
  qed
qed

lemma chain_snoc:
  assumes "geo w = geo v" "cluster_is_valid v a" "cluster_is_eoc v (fat_get w a)"
  shows "chain v cs \<Longrightarrow> fat_get w (last cs) = a \<Longrightarrow> (\<And>c. c \<in> set (butlast cs) \<Longrightarrow> fat_get w c = fat_get v c) \<Longrightarrow> chain w (cs @ [a])"
proof (induction cs)
  case (Cons c cs)
  then show ?case
    using valid_geo [OF assms(1)] eoc_geo [OF assms(1)] assms(2,3) by (cases cs) auto
qed simp

lemma extend_chain_effect:
  assumes wf: "vol_wf v" and ch: "chain v cs" and i: "i < length cs" and e: "extend_chain (cs ! i) v = (r, w)"
  shows "if Suc i < length cs then r = Some (cs ! Suc i) \<and> w = v
    else (r = None \<and> w = v \<and> (\<forall>d. cluster_is_valid v d \<longrightarrow> fat_get v d \<noteq> 0))
       \<or> (\<exists>a. r = Some a \<and> grown {} v cs w (cs @ [a]) \<and> content w (cs @ [a]) = content v cs @ replicate (cb v) 0)"
proof (cases "Suc i < length cs")
  case True
  then show ?thesis using e chain_next [OF wf ch i] by (simp add: extend_chain_def)
next
  case False
  have cs: "cs \<noteq> []" using i by auto
  have "i = length cs - 1" using False i by linarith
  then have last: "cs ! i = last cs" using cs by (simp add: last_conv_nth)
  obtain a v1 where al: "fat_impl_alloc_cluster v = (a, v1)" by fastforce
  have ew: "(if a = 0 then (None, v1) else (Some a, fat_set (last cs) a v1)) = (r, w)"
    using e chain_next [OF wf ch i] False al last by (simp add: extend_chain_def)
  show ?thesis
  proof (cases "a = 0")
    case True
    then show ?thesis using False ew alloc_cases [OF al] eoc_facts(6) [OF wf] by auto
  next
    case a0: False
    then have a: "cluster_is_valid v a" "fat_get v a = 0" "v1 = fat_claim a v" using alloc_cases [OF al] by auto
    note k = alloc_keeps [OF wf al]
    have lv: "cluster_is_valid v (last cs)" using chain_valid [OF ch] cs by simp
    have lv1: "cluster_is_valid v1 (last cs)" using valid_geo [OF k(1)] lv by simp
    have lim: "unat (last cs) < limit v1" using lv1 by (simp add: valid_iff)
    have w: "w = fat_set (last cs) a v1" "r = Some a" using ew a0 by auto
    have g: "geo w = geo v" using fat_set_effect(1) [OF k(2) lim] k(1) w by simp
    have na: "a \<notin> set cs" using chain_used [OF wf ch] a(2) by blast
    have m: "msk v1 a = a" using eoc_geo [OF k(1), of _ a] eoc_facts(5) [OF wf a(1)] by simp
    have fg: "fat_get w d = (if d = last cs then a else if d = a then cluster_eoc v else fat_get v d)" if "cluster_is_valid v d" for d
      using fat_get_set [OF k(2) lv1, of d a] fat_claim_get(1) [OF wf a(1) that] valid_geo [OF k(1), of d] that m a(3) w(1) by simp
    have cd: "cdata w d = (if d = a then replicate (cb v) 0 else cdata v d)" if "cluster_is_valid v d" for d
      using cdata_fat_set [OF k(2) lim, of d a] fat_claim_get(2) [OF wf a(1) that] valid_geo [OF k(1), of d] that a(3) w(1) by simp
    have "last cs \<noteq> a" using na cs by auto
    have "chain w (cs @ [a])"
    proof (rule chain_snoc [OF g a(1) _ ch])
      show "cluster_is_eoc v (fat_get w a)" using fg [OF a(1)] \<open>last cs \<noteq> a\<close> eoc_facts(1) [OF wf] by simp
      show "fat_get w (last cs) = a" using fg [OF lv] by simp
      fix c assume c: "c \<in> set (butlast cs)"
      then have "c \<in> set cs" by (rule in_set_butlastD)
      moreover have "distinct (butlast cs @ [last cs])" using chain_distinct [OF wf ch] cs by simp
      then have "c \<noteq> last cs" using c by auto
      ultimately show "fat_get w c = fat_get v c" using fg chain_valid [OF ch] na by auto
    qed
    moreover have "img w x = img v x" if "unat (root_start_sector v) * bps v \<le> x" "\<not> (cl v a \<le> x \<and> x < cl v a + cb v)" for x
      using fat_set_tail [OF k(2) lim] fat_claim_effect(4) [OF wf a(1) that] that(1) geo_fields(2,7) [OF k(1)] a(3) w(1) by simp
    moreover have "mirrored v \<Longrightarrow> mirrored w" using mirrored_fat_set [OF k(2) lv1] k(3) w(1) by simp
    moreover have "fat_get w d = fat_get v d" if "cluster_is_valid v d" "d \<notin> set (cs @ [a])" for d
      using fg [OF that(1)] that(2) cs by auto
    ultimately have "grown {} v cs w (cs @ [a])" unfolding grown_def using g a(1,2) by auto
    moreover have "content w (cs @ [a]) = content v cs @ replicate (cb v) 0"
    proof -
      have "content w cs = content v cs" using cd chain_valid [OF ch] na by (intro content_cong) auto
      moreover have "cdata w a = replicate (cb v) 0" using cd [OF a(1)] by simp
      ultimately show ?thesis by (simp add: content_append) (simp add: content_def)
    qed
    ultimately show ?thesis using False w(2) by simp
  qed
qed

definition full :: "fat_volume \<Rightarrow> bool" where
  "full v \<longleftrightarrow> (\<forall>d. cluster_is_valid v d \<longrightarrow> fat_get v d \<noteq> 0)"

abbreviation zeros :: "fat_volume \<Rightarrow> u32 list \<Rightarrow> u32 list \<Rightarrow> bytes" where
  "zeros v cs ds \<equiv> replicate ((length ds - length cs) * cb v) 0"

lemma write_turn_effect:
  assumes wf: "vol_wf v" and ch: "chain v cs" and cur: "cur_cluster f = cs ! (unat (pos f) div cb v)" and i: "unat (pos f) div cb v < length cs"
    and buf: "buf \<noteq> []" and lim: "unat (pos f) + length buf < 2 ^ 32"
  obtains n f1 w k ds where "write_turn v f buf = Some (n, f1, w, k)" "0 < n" "n \<le> length buf" "unat (pos f1) = unat (pos f) + n"
    "f1 = f\<lparr>pos := pos f1, cur_cluster := cur_cluster f1\<rparr>" "grown {} v cs w ds" "unat (pos f) + n \<le> length cs * cb v"
    "content w ds = overwrite (unat (pos f)) (take n buf) (content v cs @ zeros v cs ds)"
    "(unat (pos f) + n - 1) div cb v = unat (pos f) div cb v"
    "if n = length buf then k \<and> cur_cluster f1 = cs ! (unat (pos f) div cb v)
     else if k then cur_cluster f1 = ds ! ((unat (pos f) + n) div cb v) \<and> (unat (pos f) + n) div cb v < length ds
     else cur_cluster f1 = cs ! (unat (pos f) div cb v) \<and> full w"
proof -
  let ?p = "unat (pos f)" and ?b = "cb v"
  let ?i = "?p div ?b"
  have b: "512 \<le> ?b" by (rule cb_bounds(1) [OF wf])
  then have m: "?p mod ?b < ?b" by simp
  have v: "cluster_is_valid v (cs ! ?i)" using chain_valid [OF ch] i by simp
  have u: "unat (cluster_bytes v - pos f mod cluster_bytes v) = ?b - ?p mod ?b"
    using m by (simp add: unat_sub word_le_nat_alt unat_pos_mod unat_cluster_bytes)
  define n where "n = (if length buf < ?b - ?p mod ?b then length buf else ?b - ?p mod ?b)"
  have n: "0 < n" "n \<le> length buf" "?p mod ?b + n \<le> ?b" "n < length buf \<Longrightarrow> ?p mod ?b + n = ?b"
    using buf m by (auto simp: n_def)
  define q where "q = pos f + of_nat n"
  have q: "unat q = ?p + n"
  proof -
    have "?p + n < 2 ^ 32" using n(2) lim by simp
    then show ?thesis by (simp add: q_def unat_word_ariths(1) unat_of_nat)
  qed
  define w where "w = fat_flush_bytes (cl v (cs ! ?i) + ?p mod ?b) n (put (cl v (cs ! ?i) + ?p mod ?b) (take n buf) v)"
  have len: "length (take n buf) = n" using n(2) by simp
  have fit: "?p mod ?b + length (take n buf) \<le> ?b" using n(3) len by simp
  note pc = put_cluster [OF wf ch i fit w_def]
  have pe: "?i * ?b + ?p mod ?b = ?p" by simp
  have cw: "content w cs = overwrite ?p (take n buf) (content v cs)" using pc(2) unfolding pe .
  have g: "geo w = geo v" using pc(1) by (simp add: grown_def)
  have wfw: "vol_wf w" using vol_wf_geo [OF g] wf by simp
  have chw: "chain w cs" using pc(1) by (simp add: grown_def)
  have last: "(?p + n - 1) div ?b = ?i" using div_mod_offset(1) [of ?p ?b "n - 1"] n(1,3) by simp
  have pn: "?p + n \<le> length cs * ?b"
  proof -
    have "Suc ?i * ?b \<le> length cs * ?b" using i by (intro mult_le_mono1) simp
    moreover have "?p + n \<le> Suc ?i * ?b" using n(3) mod_div_mult_eq [of ?p ?b] by (simp only: mult_Suc; linarith)
    ultimately show ?thesis by linarith
  qed
  have wt: "write_turn v f buf =
      (if q mod cluster_bytes v = 0 \<and> length buf - n > 0 then
         (case extend_chain (cs ! ?i) w of
            (None, v2) \<Rightarrow> Some (n, f\<lparr>pos := q\<rparr>, v2, False)
          | (Some c, v2) \<Rightarrow> Some (n, f\<lparr>pos := q, cur_cluster := c\<rparr>, v2, True))
       else Some (n, f\<lparr>pos := q\<rparr>, w, True))"
    unfolding write_turn_def cur cluster_data_valid [OF wf v] Let_def u unat_pos_mod n_def [symmetric] w_def [symmetric] q_def [symmetric]
    by (simp add: cur q_def w_def cong: if_cong)
  show ?thesis
  proof (cases "n = length buf")
    case True
    then have "write_turn v f buf = Some (n, f\<lparr>pos := q\<rparr>, w, True)" unfolding wt by simp
    then show ?thesis using n q pc(1) cw last pn True cur by (intro that [of n "f\<lparr>pos := q\<rparr>" w True cs]) simp_all
  next
    case False
    then have lt: "n < length buf" using n(2) by simp
    have pb: "?p + n = Suc ?i * ?b" using n(4) [OF lt] mod_div_mult_eq [of ?p ?b] by (simp only: mult_Suc; linarith)
    have d: "(?p + n) div ?b = Suc ?i" "(?p + n) mod ?b = 0" unfolding pb using b by (simp_all del: mult_Suc)
    have c: "q mod cluster_bytes v = 0 \<and> length buf - n > 0" using lt d(2) q by (simp add: pos_mod_eq_0)
    obtain r v2 where e: "extend_chain (cs ! ?i) w = (r, v2)" by fastforce
    note x = extend_chain_effect [OF wfw chw i e]
    have a: "cb w = ?b" using addr_geo [OF g] by simp
    show ?thesis
    proof (cases r)
      case None
      then have "v2 = w" "full w" using x by (auto simp: full_def split: if_splits)
      moreover have "write_turn v f buf = Some (n, f\<lparr>pos := q\<rparr>, v2, False)" unfolding wt using c e None by simp
      ultimately show ?thesis using n q pc(1) cw last pn False cur by (intro that [of n "f\<lparr>pos := q\<rparr>" w False cs]) simp_all
    next
      case (Some y)
      have w2: "write_turn v f buf = Some (n, f\<lparr>pos := q, cur_cluster := y\<rparr>, v2, True)" unfolding wt using c e Some by simp
      show ?thesis
      proof (cases "Suc ?i < length cs")
        case True
        then have "y = cs ! Suc ?i" "v2 = w" using x Some by simp_all
        then show ?thesis using w2 n q pc(1) cw last pn False d True by (intro that [of n "f\<lparr>pos := q, cur_cluster := y\<rparr>" w True cs]) simp_all
      next
        case no: False
        then have x2: "grown {} w cs v2 (cs @ [y])" "content v2 (cs @ [y]) = content w cs @ replicate ?b 0" using x Some a by simp_all
        have "grown {} v cs v2 (cs @ [y])" by (rule grown_trans [OF wf pc(1) x2(1)])
        moreover have "content v2 (cs @ [y]) = overwrite ?p (take n buf) (content v cs @ zeros v cs (cs @ [y]))"
          using x2(2) cw pn len by (simp add: overwrite_append)
        moreover have "(cs @ [y]) ! Suc ?i = y" "Suc ?i < length (cs @ [y])" using no i by (simp_all add: nth_append)
        ultimately show ?thesis
          using w2 n q last pn False d by (intro that [of n "f\<lparr>pos := q, cur_cluster := y\<rparr>" v2 True "cs @ [y]"]) simp_all
      qed
    qed
  qed
qed

lemma write_loop_effect:
  assumes "vol_wf v" "chain v cs" "cur_cluster f = cs ! (unat (pos f) div cb v)" "unat (pos f) div cb v < length cs"
    "unat (pos f) + length buf < 2 ^ 32" "length buf \<le> m" "write_loop m v f buf tot = (f', tot', w)"
  shows "\<exists>n ds. tot' = tot + n \<and> n \<le> length buf \<and> (buf \<noteq> [] \<longrightarrow> 0 < n) \<and> unat (pos f') = unat (pos f) + n
    \<and> f' = f\<lparr>pos := pos f', cur_cluster := cur_cluster f'\<rparr> \<and> grown {} v cs w ds \<and> unat (pos f) + n \<le> length ds * cb v
    \<and> content w ds = overwrite (unat (pos f)) (take n buf) (content v cs @ zeros v cs ds)
    \<and> (n < length buf \<longrightarrow> full w)
    \<and> cur_cluster f' = ds ! (if n = 0 then unat (pos f) div cb v else (unat (pos f) + n - 1) div cb v)"
  using assms
proof (induction m arbitrary: v cs f buf tot)
  case 0
  have "unat (pos f) \<le> length cs * cb v" using "0.prems"(4) cb_bounds(1) [OF "0.prems"(1)] by (simp add: div_less_iff_less_mult)
  then show ?case using "0.prems" by (intro exI [of _ 0] exI [of _ cs]) (auto simp: grown_refl)
next
  case (Suc m)
  show ?case
  proof (cases "buf = []")
    case True
    have "unat (pos f) \<le> length cs * cb v" using Suc.prems(4) cb_bounds(1) [OF Suc.prems(1)] by (simp add: div_less_iff_less_mult)
    then show ?thesis using Suc.prems True by (intro exI [of _ 0] exI [of _ cs]) (auto simp: grown_refl)
  next
    case False
    let ?p = "unat (pos f)"
    obtain n f1 w1 k ds where t: "write_turn v f buf = Some (n, f1, w1, k)" "0 < n" "n \<le> length buf" "unat (pos f1) = ?p + n"
      "f1 = f\<lparr>pos := pos f1, cur_cluster := cur_cluster f1\<rparr>" "grown {} v cs w1 ds" "?p + n \<le> length cs * cb v"
      "content w1 ds = overwrite ?p (take n buf) (content v cs @ zeros v cs ds)" "(?p + n - 1) div cb v = ?p div cb v"
      "if n = length buf then k \<and> cur_cluster f1 = cs ! (?p div cb v)
       else if k then cur_cluster f1 = ds ! ((?p + n) div cb v) \<and> (?p + n) div cb v < length ds
       else cur_cluster f1 = cs ! (?p div cb v) \<and> full w1"
      by (rule write_turn_effect [OF Suc.prems(1-4) False Suc.prems(5)])
    obtain new where new: "ds = cs @ new" using t(6) by (auto simp: grown_def)
    have g: "geo w1 = geo v" and chd: "chain w1 ds" using t(6) by (simp_all add: grown_def)
    have wf1: "vol_wf w1" using vol_wf_geo [OF g] Suc.prems(1) by simp
    have a: "cb w1 = cb v" using addr_geo [OF g] by simp
    have dsi: "ds ! (?p div cb v) = cs ! (?p div cb v)" using Suc.prems(4) by (simp add: new nth_append)
    have dl: "?p + n \<le> length ds * cb v" using t(7) by (simp add: new add_mult_distrib)
    show ?thesis
    proof (cases "n = length buf \<or> \<not> k")
      case True
      have r: "f' = f1 \<and> tot' = tot + n \<and> w = w1"
      proof (cases k)
        case True
        then have "drop n buf = []" using \<open>n = length buf \<or> \<not> k\<close> by simp
        then show ?thesis using Suc.prems(7) False t(1) True by (cases m) simp_all
      next
        case no: False
        then show ?thesis using Suc.prems(7) False t(1) by simp
      qed
      then show ?thesis using t dsi True dl by (intro exI [of _ n] exI [of _ ds]) (auto split: if_splits)
    next
      case no: False
      then have lt: "n < length buf" and k: k using t(3) by auto
      have rest: "write_loop m w1 f1 (drop n buf) (tot + n) = (f', tot', w)" using Suc.prems(7) False t(1) k by simp
      have pre: "cur_cluster f1 = ds ! (unat (pos f1) div cb w1)" "unat (pos f1) div cb w1 < length ds"
        "unat (pos f1) + length (drop n buf) < 2 ^ 32" "length (drop n buf) \<le> m"
        using t(2,4,10) lt k a Suc.prems(5,6) by (simp_all split: if_splits)
      obtain n2 es where ih: "tot' = tot + n + n2" "n2 \<le> length (drop n buf)" "drop n buf \<noteq> [] \<longrightarrow> 0 < n2" "unat (pos f') = unat (pos f1) + n2"
        "f' = f1\<lparr>pos := pos f', cur_cluster := cur_cluster f'\<rparr>" "grown {} w1 ds w es" "unat (pos f1) + n2 \<le> length es * cb w1"
        "content w es = overwrite (unat (pos f1)) (take n2 (drop n buf)) (content w1 ds @ zeros w1 ds es)"
        "n2 < length (drop n buf) \<longrightarrow> full w"
        "cur_cluster f' = es ! (if n2 = 0 then unat (pos f1) div cb w1 else (unat (pos f1) + n2 - 1) div cb w1)"
        using Suc.IH [OF wf1 chd pre rest] by blast
      obtain new2 where new2: "es = ds @ new2" using ih(6) by (auto simp: grown_def)
      have n2: "0 < n2" using ih(3) lt by simp
      have gr: "grown {} v cs w es" by (rule grown_trans [OF Suc.prems(1) t(6) ih(6)])
      have cnt: "content w es = overwrite ?p (take (n + n2) buf) (content v cs @ zeros v cs es)"
      proof -
        have z: "(content v cs @ zeros v cs ds) @ zeros v ds es = content v cs @ zeros v cs es"
          by (simp add: new new2 replicate_add [symmetric] add_mult_distrib)
        have l1: "?p + length (take n buf) \<le> length (content v cs @ zeros v cs ds)" using t(3,7) by simp
        have e1: "content w1 ds @ zeros v ds es = overwrite ?p (take n buf) (content v cs @ zeros v cs es)"
          unfolding t(8) overwrite_append [OF l1] z ..
        have ln: "length (take n buf) = n" using t(3) by simp
        have l2: "?p + length (take n buf) + length (take n2 (drop n buf)) \<le> length (content v cs @ zeros v cs es)"
          using ih(2,4,7) t(4) ln a by (simp add: new new2 add_mult_distrib)
        have "content w es = overwrite (?p + length (take n buf)) (take n2 (drop n buf)) (overwrite ?p (take n buf) (content v cs @ zeros v cs es))"
          using ih(8) e1 ln t(4) a by simp
        also have "\<dots> = overwrite ?p (take n buf @ take n2 (drop n buf)) (content v cs @ zeros v cs es)" by (rule overwrite_overwrite [OF l2])
        also have "take n buf @ take n2 (drop n buf) = take (n + n2) buf" by (simp add: take_add)
        finally show ?thesis .
      qed
      have fe: "f' = f\<lparr>pos := pos f', cur_cluster := cur_cluster f'\<rparr>"
      proof -
        obtain x c where e: "f1 = f\<lparr>pos := x, cur_cluster := c\<rparr>" using t(5) by blast
        show ?thesis by (rule trans [OF ih(5)]) (simp add: e)
      qed
      have "tot' = tot + (n + n2)" "n + n2 \<le> length buf" "unat (pos f') = ?p + (n + n2)" "?p + (n + n2) \<le> length es * cb v"
        "n + n2 < length buf \<longrightarrow> full w" "cur_cluster f' = es ! ((?p + (n + n2) - 1) div cb v)"
        using ih(1,2,4,7,9,10) t(3,4) a n2 by (simp_all add: add.assoc)
      then show ?thesis using gr cnt fe n2 by (intro exI [of _ "n + n2"] exI [of _ es]) simp
    qed
  qed
qed

text \<open>
  The directory entry of the file is past the tables and in no cluster of the file and in no unused
  one.
\<close>

definition entry_apart :: "fat_volume \<Rightarrow> nat \<Rightarrow> u32 list \<Rightarrow> bool" where
  "entry_apart v a cs \<longleftrightarrow> unat (root_start_sector v) * bps v \<le> a \<and>
     (\<forall>c. cluster_is_valid v c \<and> (c \<in> set cs \<or> fat_get v c = 0) \<longrightarrow> a + 32 \<le> cl v c \<or> cl v c + cb v \<le> a)"

lemma entry_apart_grown:
  assumes "vol_wf v" "entry_apart v a cs" "grown E v cs w ds"
  shows "entry_apart w a ds"
proof -
  have g: "geo w = geo v" using assms(3) by (simp add: grown_def)
  obtain new where new: "ds = cs @ new" "\<forall>c\<in>set new. cluster_is_valid v c \<and> fat_get v c = 0" using assms(3) by (auto simp: grown_def)
  have "c \<in> set cs \<or> fat_get v c = 0" if "cluster_is_valid v c" "c \<in> set ds \<or> fat_get w c = 0" for c
  proof (cases "c \<in> set ds")
    case True
    then show ?thesis using new by auto
  next
    case False
    then show ?thesis using that assms(3) by (simp add: grown_def)
  qed
  then show ?thesis
    using assms(2) addr_geo [OF g] geo_fields(2,7) [OF g] valid_geo [OF g] by (simp add: entry_apart_def)
qed

text \<open>Changing the entry changes no cluster of the file.\<close>

lemma entry_write:
  assumes wf: "vol_wf v" and ch: "chain v cs" and ap: "entry_apart v a cs" and g: "geo w = geo v"
    and im: "\<And>x. x \<notin> {a..<a + 32} \<Longrightarrow> img w x = img v x"
  shows "grown {a..<a + 32} v cs w cs" "content w cs = content v cs"
proof -
  have t: "img w x = img v x" if "x < unat (root_start_sector v) * bps v" for x
    using that ap by (intro im) (auto simp: entry_apart_def)
  note tw = tail_write [OF wf g t]
  show "grown {a..<a + 32} v cs w cs" unfolding grown_def using g tw(2-4) ch im by simp
  show "content w cs = content v cs"
  proof (rule content_cong)
    fix c assume c: "c \<in> set cs"
    then have "a + 32 \<le> cl v c \<or> cl v c + cb v \<le> a" using ap chain_valid [OF ch c] by (simp add: entry_apart_def)
    then show "cdata w c = cdata v c" by (intro cdata_cong [OF g] im) auto
  qed
qed

lemma entry_ops_geo [simp]:
  "geo (fat_impl_entry_set_cluster a c v) = geo v" "geo (fat_impl_entry_set_size a x v) = geo v" "geo (fat_impl_set_timestamp a v) = geo v"
  by (simp_all add: fat_impl_entry_set_cluster_def fat_impl_entry_set_size_def fat_impl_set_timestamp_def Let_def)

lemma put_out: "x < b \<or> b + length bs \<le> x \<Longrightarrow> img (put b bs v) x = img v x"
  by auto

lemma timestamp_out:
  assumes "x < a + 13 \<or> a + 20 \<le> x \<and> x < a + 22 \<or> a + 26 \<le> x"
  shows "img (fat_impl_set_timestamp a v) x = img v x"
proof -
  have p: "img (put b bs w) x = img w x" if "a + 13 \<le> b \<and> b + length bs \<le> a + 20 \<or> a + 22 \<le> b \<and> b + length bs \<le> a + 26" for b bs w
    using assms that by (intro put_out) linarith
  show ?thesis by (simp add: fat_impl_set_timestamp_def Let_def p del: put_simps(3))
qed

lemma entry_ops_img:
  assumes "x \<notin> {a..<a + 32}"
  shows "img (fat_impl_entry_set_cluster a c v) x = img v x" "img (fat_impl_entry_set_size a y v) x = img v x"
    "img (fat_impl_set_timestamp a v) x = img v x"
proof -
  have o: "x < a \<or> a + 32 \<le> x" using assms by auto
  have p: "img (put b bs w) x = img w x" if "a \<le> b" "b + length bs \<le> a + 32" for b bs w
    using o that by (intro put_out) linarith
  show "img (fat_impl_entry_set_cluster a c v) x = img v x" "img (fat_impl_entry_set_size a y v) x = img v x"
    by (simp_all add: fat_impl_entry_set_cluster_def fat_impl_entry_set_size_def p del: put_simps(3))
  show "img (fat_impl_set_timestamp a v) x = img v x" by (rule timestamp_out) (use o in linarith)
qed

definition entry_cluster_size :: "fat_volume \<Rightarrow> nat \<Rightarrow> u32 \<times> u32" where
  "entry_cluster_size v a = (fat_impl_entry_get_cluster v a, get32 (img v) (a + 28))"

lemma entry_cluster_size_cong:
  assumes "geo w = geo v" "\<And>x. x \<in> {a + 20, a + 21} \<union> {a + 26..<a + 32} \<Longrightarrow> img w x = img v x"
  shows "entry_cluster_size w a = entry_cluster_size v a"
proof -
  have "get16 (img w) (a + 20) = get16 (img v) (a + 20)" "get16 (img w) (a + 26) = get16 (img v) (a + 26)" "get32 (img w) (a + 28) = get32 (img v) (a + 28)"
    by (rule get_cong, rule assms(2), auto simp: less_2_cases_iff)+
  then show ?thesis using geo_fields(12) [OF assms(1)] by (simp add: entry_cluster_size_def fat_impl_entry_get_cluster_def Let_def)
qed

lemma entry_fields_set:
  "entry_cluster_size (fat_impl_set_timestamp a v) a = entry_cluster_size v a"
  "entry_cluster_size (fat_flush_bytes b n v) a = entry_cluster_size v a"
  "entry_cluster_size (fat_impl_entry_set_size a x v) a = (fst (entry_cluster_size v a), ucast x)"
  "vtype v = FAT_TYPE_32 \<or> unat c < 2 ^ 16 \<Longrightarrow> entry_cluster_size (fat_impl_entry_set_cluster a c v) a = (c, snd (entry_cluster_size v a))"
proof -
  show "entry_cluster_size (fat_impl_set_timestamp a v) a = entry_cluster_size v a"
    by (rule entry_cluster_size_cong) (auto intro!: timestamp_out)
  show "entry_cluster_size (fat_flush_bytes b n v) a = entry_cluster_size v a" by (rule entry_cluster_size_cong) simp_all
  let ?w = "fat_impl_entry_set_size a x v"
  have "get32 (img ?w) (a + 28) = ucast x" by (simp add: fat_impl_entry_set_size_def del: put_simps(3))
  moreover have "get16 (img ?w) b = get16 (img v) b" if "b + 2 \<le> a + 28" for b
    using that by (intro get_cong(1)) (simp add: fat_impl_entry_set_size_def)
  moreover have "vtype ?w = vtype v" using geo_fields(12) [of ?w v] by simp
  ultimately show "entry_cluster_size ?w a = (fst (entry_cluster_size v a), ucast x)"
    by (simp add: entry_cluster_size_def fat_impl_entry_get_cluster_def Let_def)
  assume c: "vtype v = FAT_TYPE_32 \<or> unat c < 2 ^ 16"
  let ?u = "fat_impl_entry_set_cluster a c v"
  have m: "(0xFFFF :: u32) = mask 16" by (simp add: mask_eq_exp_minus_1)
  have hi: "get16 (img ?u) (a + 20) = (if vtype v = FAT_TYPE_32 then ucast (drop_bit 16 c) else 0)"
    using geo_fields(12) [of "put (a + 26) (w16 (ucast (c AND 65535))) v" v]
    by (simp add: fat_impl_entry_set_cluster_def del: put_simps(3))
  have "get16 (img ?u) (a + 26) = get16 (img (put (a + 26) (w16 (ucast (c AND 0xFFFF))) v)) (a + 26)"
    by (intro get_cong(1)) (simp add: fat_impl_entry_set_cluster_def)
  then have lo: "get16 (img ?u) (a + 26) = ucast (c AND 0xFFFF)" by (simp del: put_simps(3))
  have sz: "get32 (img ?u) (a + 28) = get32 (img v) (a + 28)"
    by (intro get_cong(2)) (simp add: fat_impl_entry_set_cluster_def)
  have t: "vtype ?u = vtype v" using geo_fields(12) [of ?u v] by simp
  have l: "(ucast (ucast (c AND 0xFFFF) :: u16) :: u32) = c AND 0xFFFF"
    by (rule bit_word_eqI) (auto simp: m bit_simps)
  have "fat_impl_entry_get_cluster ?u a = c"
  proof (cases "vtype v = FAT_TYPE_32")
    case True
    have "(c AND 0xFFFF) OR push_bit 16 (ucast (ucast (drop_bit 16 c) :: u16)) = c"
      by (rule bit_word_eqI) (auto simp: m bit_simps)
    then show ?thesis using True by (simp add: fat_impl_entry_get_cluster_def t hi lo l)
  next
    case False
    then have "unat (take_bit 16 c) = unat c" using c by (simp only: unsigned_take_bit_eq) (simp add: take_bit_eq_mod)
    then have "c AND 0xFFFF = c" by (simp add: m take_bit_eq_mask [symmetric] word_unat_eq_iff)
    then show ?thesis using False l by (simp add: fat_impl_entry_get_cluster_def t lo)
  qed
  then show "entry_cluster_size ?u a = (c, snd (entry_cluster_size v a))" using sz by (simp add: entry_cluster_size_def)
qed

lemma grown_entry:
  assumes "vol_wf v" "entry_apart v a cs" "chain v cs \<or> cs = []" "grown {} v cs w ds" "x \<in> {a..<a + 32}"
  shows "img w x = img v x"
proof -
  obtain new where new: "ds = cs @ new" "\<forall>c\<in>set new. cluster_is_valid v c \<and> fat_get v c = 0" using assms(4) by (auto simp: grown_def)
  have "\<not> (cl v c \<le> x \<and> x < cl v c + cb v)" if "c \<in> set ds" for c
  proof -
    have "cluster_is_valid v c \<and> (c \<in> set cs \<or> fat_get v c = 0)" using that new assms(3) chain_valid by auto
    then have "a + 32 \<le> cl v c \<or> cl v c + cb v \<le> a" using assms(2) by (auto simp: entry_apart_def)
    then show ?thesis using assms(5) by auto
  qed
  moreover have "unat (root_start_sector v) * bps v \<le> x" using assms(2,5) by (auto simp: entry_apart_def)
  ultimately show ?thesis using assms(4) by (simp add: grown_def)
qed

lemma grown_entry_fields:
  assumes "vol_wf v" "entry_apart v a cs" "chain v cs \<or> cs = []" "grown {} v cs w ds"
  shows "entry_cluster_size w a = entry_cluster_size v a"
proof (rule entry_cluster_size_cong)
  show "geo w = geo v" using assms(4) by (simp add: grown_def)
  show "img w x = img v x" if "x \<in> {a + 20, a + 21} \<union> {a + 26..<a + 32}" for x
    using that by (intro grown_entry [OF assms]) auto
qed

lemma write_first_effect:
  assumes wf: "vol_wf v" and rep: "file_rep v f cs" and ap: "entry_apart v a cs" and ent: "entry_cluster_size v a = (first_cluster f, fsize f)"
    and w: "write_first a f v = (ok, f1, v1)"
  shows "if ok then \<exists>cs1. file_rep v1 f1 cs1 \<and> cs1 \<noteq> [] \<and> grown {a..<a + 32} v cs v1 cs1 \<and> content v1 cs1 = content v cs @ zeros v cs cs1
      \<and> f1 = f\<lparr>first_cluster := first_cluster f1, cur_cluster := cur_cluster f1\<rparr> \<and> entry_cluster_size v1 a = (first_cluster f1, fsize f1)
    else f1 = f \<and> v1 = v \<and> full v"
proof (cases "cs = []")
  case False
  then have ch: "chain v cs" "first_cluster f = hd cs" using rep by (simp_all add: file_rep_def)
  then have "first_cluster f \<noteq> 0" using chain_valid [OF ch(1), of "hd cs"] eoc_facts(6) [OF wf] False by auto
  then have "ok \<and> f1 = f \<and> v1 = v" using w by (simp add: write_first_def)
  then show ?thesis using rep False ent ch(1) by (auto intro!: exI [of _ cs] grown_refl)
next
  case True
  then have z: "first_cluster f = 0" "fsize f = 0" "pos f = 0" using rep by (auto simp: file_rep_def word_le_nat_alt unat_eq_zero)
  obtain c u where al: "fat_impl_alloc_cluster v = (c, u)" by fastforce
  have e: "(ok, f1, v1) = (if c = 0 then (False, f, u) else (True, f\<lparr>first_cluster := c, cur_cluster := c\<rparr>, fat_impl_entry_set_cluster a c u))"
    using w z al by (simp add: write_first_def)
  show ?thesis
  proof (cases "c = 0")
    case c0: True
    then show ?thesis using e alloc_cases [OF al] eoc_facts(6) [OF wf] by (auto simp: full_def)
  next
    case c0: False
    then have c: "cluster_is_valid v c" "fat_get v c = 0" "u = fat_claim c v" using alloc_cases [OF al] by auto
    have r: "ok" "f1 = f\<lparr>first_cluster := c, cur_cluster := c\<rparr>" "v1 = fat_impl_entry_set_cluster a c u" using e c0 by auto
    note k = alloc_keeps [OF wf al]
    have chu: "chain u [c]"
      using fat_claim_get(1) [OF wf c(1) c(1)] c(1,3) valid_geo [OF k(1)] eoc_geo [OF k(1)] eoc_facts(1) [OF wf] by simp
    have gr: "grown {} v cs u [c]"
      unfolding grown_def using k chu c fat_claim_get(1) [OF wf c(1)] fat_claim_effect(4) [OF wf c(1)] True by auto
    have cont: "content u [c] = replicate (cb v) 0" using fat_claim_get(2) [OF wf c(1) c(1)] c(3) by (simp add: content_def)
    have apu: "entry_apart u a [c]" by (rule entry_apart_grown [OF wf ap gr])
    have ew: "grown {a..<a + 32} u [c] v1 [c]" "content v1 [c] = content u [c]"
      using entry_write [OF k(2) chu apu, of v1] by (simp_all add: r(3) entry_ops_img)
    have "grown {a..<a + 32} v cs v1 [c]" by (rule grown_trans [OF wf grown_mono [OF gr] ew(1)]) simp
    moreover have "entry_cluster_size v1 a = (c, 0)"
    proof -
      have "vtype u = FAT_TYPE_32 \<or> unat c < 2 ^ 16" using c(1) vol_wfD(11) [OF wf] geo_fields(12) [OF k(1)] by (auto simp: valid_iff split: if_splits)
      then show ?thesis
        using entry_fields_set(4) [of u c a] grown_entry_fields [OF wf ap _ gr] True ent z by (simp add: r(3))
    qed
    moreover have "file_rep v1 f1 [c]" using ew(1) z by (simp add: r(2) file_rep_def grown_def cursor_index_def)
    ultimately show ?thesis
      using r(1,2) ew(2) cont True z by (auto intro!: exI [of _ "[c]"] simp: content_def)
  qed
qed

lemma write_boundary_effect:
  assumes wf: "vol_wf v" and rep: "file_rep v f cs" and cs: "cs \<noteq> []" and buf: "buf \<noteq> []" and w: "write_boundary f buf v = (ok, f1, v1)"
  shows "if ok then \<exists>ds. grown {} v cs v1 ds \<and> content v1 ds = content v cs @ zeros v cs ds \<and> f1 = f\<lparr>cur_cluster := cur_cluster f1\<rparr>
      \<and> cur_cluster f1 = ds ! (unat (pos f) div cb v) \<and> unat (pos f) div cb v < length ds
    else f1 = f \<and> v1 = v \<and> full v"
proof -
  let ?p = "unat (pos f)" and ?b = "cb v"
  have b: "512 \<le> ?b" by (rule cb_bounds(1) [OF wf])
  have r: "chain v cs" "unat (fsize f) \<le> length cs * ?b" "?p \<le> unat (fsize f)" "cur_cluster f = cs ! cursor_index ?b (unat (fsize f)) ?p"
    using rep cs by (simp_all add: file_rep_def word_le_nat_alt)
  have il: "cursor_index ?b (unat (fsize f)) ?p < length cs" using cursor_index_less [OF r(2,3)] b cs by simp
  let ?c = "pos f > 0 \<and> pos f = fsize f \<and> pos f mod cluster_bytes v = 0"
  show ?thesis
  proof (cases ?c)
    case True
    then have p: "0 < ?p" "?p = unat (fsize f)" "?p mod ?b = 0" by (auto simp: pos_mod_eq_0 unat_gt_0)
    then have ix: "cursor_index ?b (unat (fsize f)) ?p = ?p div ?b - 1" by (simp add: cursor_index_def)
    have pd: "0 < ?p div ?b" using p(1,3) by (metis div_mod_decomp gr0I mod_0_imp_dvd dvd_div_eq_0_iff)
    obtain q u where e: "extend_chain (cs ! (?p div ?b - 1)) v = (q, u)" by fastforce
    have il': "?p div ?b - 1 < length cs" using il ix by simp
    note x = extend_chain_effect [OF wf r(1) il' e]
    have wb: "(ok, f1, v1) = (case q of None \<Rightarrow> (False, f, u) | Some c \<Rightarrow> (True, f\<lparr>cur_cluster := c\<rparr>, u))"
    proof -
      have "write_boundary f buf v = (case extend_chain (cur_cluster f) v of (None, v2) \<Rightarrow> (False, f, v2) | (Some c, v2) \<Rightarrow> (True, f\<lparr>cur_cluster := c\<rparr>, v2))"
        unfolding write_boundary_def using buf True by (intro if_P) blast
      then show ?thesis unfolding r(4) ix e w by (cases q) simp_all
    qed
    show ?thesis
    proof (cases "?p div ?b < length cs")
      case True
      then have "q = Some (cs ! (?p div ?b))" "u = v" using x pd by simp_all
      then show ?thesis using wb True r(1) by (auto intro!: exI [of _ cs] grown_refl)
    next
      case False
      then have n: "\<not> Suc (?p div ?b - 1) < length cs" and len: "?p div ?b = length cs" using pd il' by linarith+
      show ?thesis
      proof (cases q)
        case None
        then show ?thesis using x n wb by (auto simp: full_def)
      next
        case (Some c)
        then show ?thesis using x n wb len by (auto intro!: exI [of _ "cs @ [c]"])
      qed
    qed
  next
    case False
    have ix: "cursor_index ?b (unat (fsize f)) ?p = ?p div ?b"
    proof (cases "?p = 0")
      case p0: False
      then have "0 < pos f" by (simp add: word_less_nat_alt)
      then have "\<not> (pos f = fsize f \<and> pos f mod cluster_bytes v = 0)" using False by simp
      then have "\<not> (?p = unat (fsize f) \<and> ?p mod ?b = 0)" unfolding pos_mod_eq_0 word_unat_eq_iff [of "pos f" "fsize f"] .
      then show ?thesis by (simp only: cursor_index_def if_False)
    qed (simp add: cursor_index_def)
    have "ok \<and> f1 = f \<and> v1 = v" using w False by (auto simp: write_boundary_def)
    then show ?thesis using r(1,4) il ix by (auto intro!: exI [of _ cs] grown_refl)
  qed
qed

lemma ucast_32_64: "(ucast (ucast (c :: u32) :: u64) :: u32) = c"
  by (rule bit_word_eqI) (auto simp: bit_simps)

lemma write_finish_effect:
  assumes wf: "vol_wf v" and ch: "chain v cs" and ap: "entry_apart v a cs" and fit: "unat (fsize f) \<le> length cs * cb v"
    and p: "0 < unat (pos f)" "unat (pos f) \<le> length cs * cb v" and fc: "first_cluster f = hd cs"
    and cur: "cur_cluster f = cs ! ((unat (pos f) - 1) div cb v)"
    and ent: "entry_cluster_size v a = (first_cluster f, fsize f)" and w: "fat_write_finish a f v = (f1, w)"
  shows "file_rep w f1 cs \<and> grown {a..<a + 32} v cs w cs \<and> content w cs = content v cs \<and> entry_cluster_size w a = (first_cluster f1, fsize f1)
    \<and> f1 = f\<lparr>cur_cluster := cur_cluster f1, fsize := max (fsize f) (pos f)\<rparr>"
proof -
  let ?p = "unat (pos f)" and ?b = "cb v"
  have b: "512 \<le> ?b" by (rule cb_bounds(1) [OF wf])
  define v1 where "v1 = (if pos f > fsize f then fat_impl_entry_set_size a (ucast (pos f)) v else v)"
  define u where "u = fat_flush_bytes a 32 (fat_impl_set_timestamp a v1)"
  define z where "z = max (fsize f) (pos f)"
  have g: "geo u = geo v" by (simp add: u_def v1_def)
  have im: "img u x = img v x" if "x \<notin> {a..<a + 32}" for x using entry_ops_img [OF that] by (simp add: u_def v1_def)
  note ew = entry_write [OF wf ch ap g im]
  have wfu: "vol_wf u" using vol_wf_geo [OF g] wf by simp
  have chu: "chain u cs" using ew(1) by (simp add: grown_def)
  have bu: "cb u = ?b" "cluster_bytes u = cluster_bytes v" using addr_geo [OF g] geo_fields(2,3) [OF g] by (simp_all add: cluster_bytes_def)
  have es: "entry_cluster_size u a = (first_cluster f, z)"
    using ent ucast_32_64 by (auto simp: u_def v1_def z_def entry_fields_set max_def not_less)
  have zl: "unat z \<le> length cs * ?b" "?p \<le> unat z" using fit p(2) by (auto simp: z_def max_def word_le_nat_alt)
  have w': "w = u" "f1 = (if pos f > 0 \<and> pos f < z \<and> pos f mod cluster_bytes v = 0
      then (let (status, nxt) = next_cluster u (cur_cluster f) in if status = 0 then f\<lparr>fsize := z, cur_cluster := nxt\<rparr> else f\<lparr>fsize := z\<rparr>)
      else f\<lparr>fsize := z\<rparr>)"
  proof -
    have first: "(if pos f > fsize f then (f\<lparr>fsize := pos f\<rparr>, fat_impl_entry_set_size a (ucast (pos f)) v) else (f, v)) = (f\<lparr>fsize := z\<rparr>, v1)"
      by (auto simp: v1_def z_def max_def not_less)
    have "fat_write_finish a f v = ((if pos f > 0 \<and> pos f < z \<and> pos f mod cluster_bytes v = 0
      then (let (status, nxt) = next_cluster u (cur_cluster f) in if status = 0 then f\<lparr>fsize := z, cur_cluster := nxt\<rparr> else f\<lparr>fsize := z\<rparr>)
      else f\<lparr>fsize := z\<rparr>), u)"
      unfolding fat_write_finish_def first Let_def prod.case u_def [symmetric] bu(2) by (simp cong: if_cong)
    then show "w = u" "f1 = (if pos f > 0 \<and> pos f < z \<and> pos f mod cluster_bytes v = 0
      then (let (status, nxt) = next_cluster u (cur_cluster f) in if status = 0 then f\<lparr>fsize := z, cur_cluster := nxt\<rparr> else f\<lparr>fsize := z\<rparr>)
      else f\<lparr>fsize := z\<rparr>)"
      using w by simp_all
  qed
  let ?i = "(?p - 1) div ?b"
  have i: "?i < length cs" using p by (intro less_mult_imp_div_less) simp
  have ci: "cur_cluster f1 = cs ! cursor_index ?b (unat z) ?p \<and> f1 = f\<lparr>cur_cluster := cur_cluster f1, fsize := z\<rparr>"
  proof (cases "?p mod ?b = 0")
    case True
    then have pd: "?p div ?b = Suc ?i" using div_Suc [of "?p - 1" ?b] p(1) by simp
    show ?thesis
    proof (cases "pos f < z")
      case lt: True
      then have "?p < length cs * ?b" using zl(1) by (simp add: word_less_nat_alt)
      then have "Suc ?i < length cs" unfolding pd [symmetric] by (rule less_mult_imp_div_less)
      then have "next_cluster u (cur_cluster f) = (0, cs ! Suc ?i)" using chain_next [OF wfu chu i] cur by simp
      then have "f1 = f\<lparr>fsize := z, cur_cluster := cs ! Suc ?i\<rparr>" using w'(2) lt True p(1) by (simp add: pos_mod_eq_0 word_less_nat_alt [of 0])
      moreover have "cursor_index ?b (unat z) ?p = Suc ?i" using lt pd by (simp add: cursor_index_def word_less_nat_alt)
      ultimately show ?thesis by simp
    next
      case False
      then have "?p = unat z" using zl(2) by (simp add: word_less_nat_alt)
      then have "cursor_index ?b (unat z) ?p = ?i" using True pd by (simp add: cursor_index_def)
      moreover have "f1 = f\<lparr>fsize := z\<rparr>" using w'(2) False by simp
      ultimately show ?thesis using cur by simp
    qed
  next
    case False
    then have "?p div ?b = ?i" using div_Suc [of "?p - 1" ?b] p(1) by simp
    then have "cursor_index ?b (unat z) ?p = ?i" using False by (simp add: cursor_index_def)
    moreover have "f1 = f\<lparr>fsize := z\<rparr>" using w'(2) False by (simp add: pos_mod_eq_0)
    ultimately show ?thesis using cur by simp
  qed
  have fs: "fsize f1 = z" "first_cluster f1 = first_cluster f" "pos f1 = pos f"
    by (subst ci [THEN conjunct2], simp)+
  have "file_rep w f1 cs"
    using ci fs chu fc zl bu(1) ch unfolding file_rep_def w'(1) by (auto simp: word_le_nat_alt)
  then show ?thesis using ew ci unfolding w'(1) fs(1,2) es z_def [symmetric] by blast
qed

lemma take_overwrite:
  assumes "p \<le> z" "z \<le> length xs" "p + length bs \<le> length (xs @ ys)"
  shows "take (max z (p + length bs)) (overwrite p bs (xs @ ys)) = overwrite p bs (take z xs)"
proof (cases "p + length bs \<le> z")
  case True
  show ?thesis
  proof (cases "z \<le> p")
    case zp: True
    then have "z = p" "bs = []" using True assms(1) by simp_all
    then show ?thesis using assms(2) by simp
  next
    case False
    then have "length bs \<le> z - p" using True by linarith
    then show ?thesis using True False assms by (simp add: overwrite_def min_def max_def take_drop [symmetric] drop_take)
  qed
next
  case False
  then show ?thesis using assms by (auto simp: overwrite_def min_def max_def)
qed

lemma zeros_trans: "length cs \<le> length ds \<Longrightarrow> length ds \<le> length es \<Longrightarrow> zeros v cs ds @ zeros v ds es = zeros v cs es"
  by (simp add: replicate_add [symmetric] add_mult_distrib [symmetric])

lemma grown_facts:
  assumes "vol_wf v" "grown E v cs w ds"
  shows "geo w = geo v" "vol_wf w" "chain w ds" "cb w = cb v" "length cs \<le> length ds"
  using assms vol_wf_geo [of w v] addr_geo [of w v] by (auto simp: grown_def)

lemma full_grown: "vol_wf v \<Longrightarrow> grown E v cs w ds \<Longrightarrow> full v \<Longrightarrow> full w"
  using chain_used [of w ds] vol_wf_geo [of w v] valid_geo [of w v] by (auto simp: full_def grown_def)

lemma file_rep_size: "file_rep v f cs \<Longrightarrow> unat (fsize f) \<le> length (content v cs) \<and> unat (pos f) \<le> unat (fsize f)"
  by (auto simp: file_rep_def word_le_nat_alt split: if_splits)

definition wrote :: "nat set \<Rightarrow> fat_volume \<Rightarrow> u32 list \<Rightarrow> fat_volume \<Rightarrow> u32 list \<Rightarrow> bool" where
  "wrote E v cs w ds \<longleftrightarrow> ds = cs \<and> w = v \<or> grown E v cs w ds"

lemma write_rest_effect:
  assumes wf: "vol_wf v" and ch: "chain v cs" and cur: "cur_cluster f = cs ! (unat (pos f) div cb v)" "unat (pos f) div cb v < length cs"
    and ap: "entry_apart v a cs" and fit: "unat (fsize f) \<le> length cs * cb v" and hd: "first_cluster f = hd cs"
    and ent: "entry_cluster_size v a = (first_cluster f, fsize f)" and buf: "buf \<noteq> []" and lim: "unat (pos f) + length buf < 2 ^ 32"
    and w: "write_rest a f buf v = (n, f', w)"
  shows "\<exists>ds. n \<le> length buf \<and> (n < length buf \<longrightarrow> full w) \<and> unat (pos f') = unat (pos f) + n \<and> file_rep w f' ds \<and> grown {a..<a + 32} v cs w ds
    \<and> content w ds = overwrite (unat (pos f)) (take n buf) (content v cs @ zeros v cs ds) \<and> unat (pos f) + n \<le> length ds * cb v
    \<and> entry_cluster_size w a = (first_cluster f', fsize f') \<and> unat (fsize f') = max (unat (fsize f)) (unat (pos f) + n) \<and> dir_ent f' = dir_ent f"
proof -
  let ?p = "unat (pos f)"
  obtain f1 tot v1 where l: "write_loop (length buf) v f buf 0 = (f1, tot, v1)" by (metis prod_cases3)
  obtain f2 v2 where fin: "fat_write_finish a f1 v1 = (f2, v2)" by fastforce
  have res: "n = tot" "f' = f2" "w = v2" using w l fin by (simp_all add: write_rest_def)
  from write_loop_effect [OF wf ch cur lim order_refl l] obtain ds where
    L: "tot \<le> length buf" "0 < tot" "unat (pos f1) = ?p + tot" "f1 = f\<lparr>pos := pos f1, cur_cluster := cur_cluster f1\<rparr>"
      "grown {} v cs v1 ds" "?p + tot \<le> length ds * cb v" "content v1 ds = overwrite ?p (take tot buf) (content v cs @ zeros v cs ds)"
      "tot < length buf \<longrightarrow> full v1" "cur_cluster f1 = ds ! ((?p + tot - 1) div cb v)"
    using buf by (auto split: if_splits)
  have s1: "fsize f1 = fsize f" "dir_ent f1 = dir_ent f" "first_cluster f1 = first_cluster f" by (subst L(4), simp)+
  note g = grown_facts [OF wf L(5)]
  have ap1: "entry_apart v1 a ds" by (rule entry_apart_grown [OF wf ap L(5)])
  have hd1: "first_cluster f1 = hd ds" using L(5) ch hd s1(3) by (cases cs) (auto simp: grown_def)
  have "length cs * cb v \<le> length ds * cb v" using g(5) by (rule mult_le_mono1)
  then have fit1: "unat (fsize f1) \<le> length ds * cb v1" unfolding s1(1) g(4) using fit by (rule order_trans [rotated])
  have e1: "entry_cluster_size v1 a = (first_cluster f1, fsize f1)" using grown_entry_fields [OF wf ap _ L(5)] ch ent s1 by simp
  have pp: "0 < unat (pos f1)" "unat (pos f1) \<le> length ds * cb v1" "cur_cluster f1 = ds ! ((unat (pos f1) - 1) div cb v1)"
    using L(2,3,6,9) g(4) by simp_all
  from write_finish_effect [OF g(2,3) ap1 fit1 pp(1,2) hd1 pp(3) e1 fin]
  have R: "file_rep v2 f2 ds" "grown {a..<a + 32} v1 ds v2 ds" "content v2 ds = content v1 ds" "entry_cluster_size v2 a = (first_cluster f2, fsize f2)"
    "f2 = f1\<lparr>cur_cluster := cur_cluster f2, fsize := max (fsize f1) (pos f1)\<rparr>" by auto
  have s2: "pos f2 = pos f1" "fsize f2 = max (fsize f) (pos f1)" "dir_ent f2 = dir_ent f" by (subst R(5), simp add: s1)+
  have "grown {a..<a + 32} v cs v2 ds" by (rule grown_trans [OF wf grown_mono [OF L(5)] R(2)]) simp
  moreover have "unat (fsize f2) = max (unat (fsize f)) (?p + tot)" using s2(2) L(3) by (simp add: max_def word_le_nat_alt)
  moreover have "tot < length buf \<longrightarrow> full v2" using L(8) full_grown [OF g(2) R(2)] by blast
  ultimately show ?thesis using res L(1,3,6,7) R(1,3,4) s2 by (intro exI [of _ ds]) simp
qed

lemma fat_write_effect:
  assumes wf: "vol_wf v" and rep: "file_rep v f cs" and de: "dir_ent f = Some a" and ap: "entry_apart v a cs"
    and ent: "entry_cluster_size v a = (first_cluster f, fsize f)" and buf: "buf \<noteq> []" and lim: "unat (pos f) + length buf < 2 ^ 32"
    and w: "fat_write f buf v = (n, f', w)"
  shows "n \<le> length buf \<and> (n < length buf \<longrightarrow> full w) \<and> unat (pos f') = unat (pos f) + n \<and>
    (\<exists>ds. file_rep w f' ds \<and> wrote {a..<a + 32} v cs w ds
       \<and> file_bytes w f' ds = overwrite (unat (pos f)) (take n buf) (file_bytes v f cs)
       \<and> entry_cluster_size w a = (first_cluster f', fsize f') \<and> dir_ent f' = Some a)"
proof -
  let ?p = "unat (pos f)" and ?E = "{a..<a + 32}"
  note sz = file_rep_size [OF rep]
  obtain ok f1 v1 where f: "write_first a f v = (ok, f1, v1)" by (metis prod_cases3)
  obtain ok2 f2 v2 where b: "write_boundary f1 buf v1 = (ok2, f2, v2)" by (metis prod_cases3)
  note F = write_first_effect [OF wf rep ap ent f]
  show ?thesis
  proof (cases ok)
    case False
    then have "f1 = f" "v1 = v" "full v" using F by simp_all
    moreover have "n = 0 \<and> f' = f1 \<and> w = v1" using w de f False by (simp add: fat_write_def)
    ultimately show ?thesis using rep ent de by (auto simp: wrote_def)
  next
    case True
    then obtain cs1 where F1: "file_rep v1 f1 cs1" "cs1 \<noteq> []" "grown ?E v cs v1 cs1" "content v1 cs1 = content v cs @ zeros v cs cs1"
      "f1 = f\<lparr>first_cluster := first_cluster f1, cur_cluster := cur_cluster f1\<rparr>" "entry_cluster_size v1 a = (first_cluster f1, fsize f1)"
      using F by auto
    have s1: "pos f1 = pos f" "fsize f1 = fsize f" "dir_ent f1 = Some a" by (subst F1(5), simp add: de)+
    note g1 = grown_facts [OF wf F1(3)]
    have ap1: "entry_apart v1 a cs1" by (rule entry_apart_grown [OF wf ap F1(3)])
    note B = write_boundary_effect [OF g1(2) F1(1,2) buf b]
    show ?thesis
    proof (cases ok2)
      case False
      then have "f2 = f1" "v2 = v1" "full v1" using B by simp_all
      moreover have "n = 0 \<and> f' = f2 \<and> w = v2" using w de f b True False by (simp add: fat_write_def)
      moreover have "file_bytes v1 f1 cs1 = file_bytes v f cs" using F1(4) s1 sz by simp
      ultimately show ?thesis using F1 s1 by (auto simp: wrote_def)
    next
      case ok2: True
      then obtain cs2 where B1: "grown {} v1 cs1 v2 cs2" "content v2 cs2 = content v1 cs1 @ zeros v1 cs1 cs2" "f2 = f1\<lparr>cur_cluster := cur_cluster f2\<rparr>"
        "cur_cluster f2 = cs2 ! (unat (pos f1) div cb v1)" "unat (pos f1) div cb v1 < length cs2"
        using B by auto
      have s2: "pos f2 = pos f" "fsize f2 = fsize f" "dir_ent f2 = Some a" "first_cluster f2 = first_cluster f1" by (subst B1(3), simp add: s1)+
      note g2 = grown_facts [OF g1(2) B1(1)]
      have ap2: "entry_apart v2 a cs2" by (rule entry_apart_grown [OF g1(2) ap1 B1(1)])
      have wr: "write_rest a f2 buf v2 = (n, f', w)" using w de f b True ok2 by (simp add: fat_write_def)
      have fit: "unat (fsize f2) \<le> length cs2 * cb v2"
        using file_rep_size [OF F1(1)] mult_le_mono1 [OF g2(5), of "cb v1"] unfolding s2(2) s1(2) g2(4) length_content by linarith
      have "first_cluster f2 = hd cs2" using F1(1,2) B1(1) s2(4) by (auto simp: file_rep_def grown_def)
      moreover have "entry_cluster_size v2 a = (first_cluster f2, fsize f2)"
        using grown_entry_fields [OF g1(2) ap1 _ B1(1)] g1(3) F1(6) s1 s2 by simp
      moreover have "cur_cluster f2 = cs2 ! (unat (pos f2) div cb v2)" "unat (pos f2) div cb v2 < length cs2" "unat (pos f2) + length buf < 2 ^ 32"
        using B1(4,5) s1 s2 g2(4) lim by simp_all
      ultimately obtain ds where R: "n \<le> length buf" "n < length buf \<longrightarrow> full w" "unat (pos f') = ?p + n" "file_rep w f' ds" "grown ?E v2 cs2 w ds"
        "content w ds = overwrite ?p (take n buf) (content v2 cs2 @ zeros v2 cs2 ds)" "?p + n \<le> length ds * cb v"
        "entry_cluster_size w a = (first_cluster f', fsize f')" "unat (fsize f') = max (unat (fsize f)) (?p + n)" "dir_ent f' = Some a"
        using write_rest_effect [OF g2(2,3) _ _ ap2 fit _ _ buf _ wr] s2 g1(4) g2(4) by auto
      have len: "length cs \<le> length cs1" "length cs1 \<le> length cs2" "length cs2 \<le> length ds" using g1(5) g2(5) R(5) by (auto simp: grown_def)
      have "content v2 cs2 @ zeros v2 cs2 ds = content v cs @ (zeros v cs cs1 @ zeros v cs1 cs2) @ zeros v cs2 ds"
        using B1(2) F1(4) g1(4) g2(4) by simp
      also have "\<dots> = content v cs @ zeros v cs ds" using len by (simp add: zeros_trans)
      finally have c: "content w ds = overwrite ?p (take n buf) (content v cs @ zeros v cs ds)" using R(6) by simp
      have "file_bytes w f' ds = overwrite ?p (take n buf) (file_bytes v f cs)"
        unfolding c R(9) using take_overwrite [of ?p "unat (fsize f)" "content v cs" "take n buf" "zeros v cs ds"] sz R(1,7) len
        by (simp add: add_mult_distrib [symmetric])
      moreover have "grown ?E v cs w ds" by (rule grown_trans [OF wf F1(3) grown_trans [OF g1(2) grown_mono [OF B1(1)] R(5)]]) simp
      ultimately show ?thesis using R by (auto simp: wrote_def)
    qed
  qed
qed


section \<open>The file of the small volume\<close>

definition fat_w_file :: fat_file where
  "fat_w_file = \<lparr>first_cluster = 2, cur_cluster = 2, fsize = 600, pos = 511, dir_ent = Some 8704\<rparr>"

lemma fat_w_file_rep: "file_rep fat_w fat_w_file [2, 3]"
  using fat_w_chain by (simp add: file_rep_def fat_w_file_def cursor_index_def fat_w_cb)

text \<open>Two bytes read across the border of the clusters 2 and 3.\<close>

theorem fat_read_correct_witness:
  "vol_wf fat_w \<and> file_rep fat_w fat_w_file [2, 3] \<and> snd (fat_read fat_w fat_w_file 2) = [73, 74]"
proof -
  obtain f' out where r: "fat_read fat_w fat_w_file 2 = (f', out)" by fastforce
  let ?c = "content fat_w [2, 3]"
  have n: "?c ! 511 = 73" "?c ! 512 = 74"
    using nth_content [of 511 "[2, 3]" fat_w] nth_content [of 512 "[2, 3]" fat_w]
    by (simp_all add: fat_w_cb cl_def fat_w_fields fat_w_img_def)
  have l: "length (take 600 ?c) = 600" by (simp add: fat_w_cb)
  have "out = take 2 (drop 511 (take 600 ?c))"
    using fat_read_correct [OF fat_w_wf fat_w_file_rep r] by (simp add: fat_w_file_def)
  also have "\<dots> = [take 600 ?c ! 511, take 600 ?c ! 512]"
    using l by (simp add: list_eq_iff_nth_eq less_Suc_eq numeral_2_eq_2)
  also have "\<dots> = [73, 74]" using n by simp
  finally show ?thesis using r fat_w_wf fat_w_file_rep by simp
qed

lemma fat_w_entry: "entry_apart fat_w 8704 [2, 3]" "entry_cluster_size fat_w 8704 = (2, 600)"
  by (simp_all add: entry_apart_def cl_def entry_cluster_size_def fat_impl_entry_get_cluster_def get16_def get32_def fat_w_fields fat_w_img_def)


text \<open>
  A write of length zero at a cluster boundary inside the file moves the cursor one cluster too far:
  the last step of \<open>fat_write\<close> expects it in the cluster before the position.
\<close>

lemma fat_write_empty_moves_cursor:
  assumes wf: "vol_wf v" and rep: "file_rep v f cs" and de: "dir_ent f = Some a" and ap: "entry_apart v a cs"
    and pos: "0 < pos f" "pos f < fsize f" "unat (pos f) mod cb v = 0" "Suc (unat (pos f) div cb v) < length cs"
    and w: "fat_write f [] v = (n, f', w)"
  shows "n = 0" "pos f' = pos f" "cur_cluster f' = cs ! Suc (unat (pos f) div cb v)" "\<not> file_rep w f' cs"
proof -
  let ?i = "unat (pos f) div cb v"
  have cs: "cs \<noteq> []" using pos(4) by auto
  have ch: "chain v cs" "first_cluster f = hd cs" "cur_cluster f = cs ! ?i"
    using rep cs pos(2) by (simp_all add: file_rep_def cursor_index_def word_less_nat_alt)
  have "first_cluster f \<noteq> 0" using chain_valid [OF ch(1), of "hd cs"] eoc_facts(6) [OF wf] cs ch(2) by auto
  then have e: "(n, f', w) = (let (f2, v2) = fat_write_finish a f v in (0, f2, v2))"
    using w de by (simp add: fat_write_def write_first_def write_boundary_def write_rest_def)
  let ?u = "fat_flush_bytes a 32 (fat_impl_set_timestamp a v)"
  have g: "geo ?u = geo v" by simp
  have wfu: "vol_wf ?u" using vol_wf_geo [OF g] wf by simp
  have "grown {a..<a + 32} v cs ?u cs" by (rule entry_write(1) [OF wf ch(1) ap g]) (simp add: entry_ops_img)
  then have chu: "chain ?u cs" by (simp add: grown_def)
  have nx: "next_cluster ?u (cs ! ?i) = (0, cs ! Suc ?i)" using chain_next [OF wfu chu, of ?i] pos(4) by simp
  have bu: "pos f mod cluster_bytes ?u = 0" "cb ?u = cb v"
    using pos(3) addr_geo [OF g] by (simp_all add: pos_mod_eq_0)
  have "fat_write_finish a f v = (f\<lparr>cur_cluster := cs ! Suc ?i\<rparr>, ?u)"
    using pos(1,2) bu(1) nx ch(3) by (simp add: fat_write_finish_def Let_def not_less_iff_gr_or_eq)
  then have r: "n = 0" "f' = f\<lparr>cur_cluster := cs ! Suc ?i\<rparr>" "w = ?u" using e by simp_all
  then show "n = 0" "pos f' = pos f" "cur_cluster f' = cs ! Suc ?i" by simp_all
  have "cs ! Suc ?i \<noteq> cs ! ?i" using chain_distinct [OF wf ch(1)] pos(4) by (simp add: nth_eq_iff_index_eq)
  then show "\<not> file_rep w f' cs"
    using cs pos(2) by (simp add: r file_rep_def cursor_index_def word_less_nat_alt bu(2))
qed

end
