(* ===== verification/Vfs_Lock.thy ===== *)
theory Vfs_Lock
  imports Gaia_Prelude "HOL-Library.Sublist"
begin

text \<open>
  The gate that serialises the file system layer (\<open>kernel/fs/vfs/lock.c\<close>): a sleeping lock with a
  queue of waiters and direct handoff.  Every operation runs with interrupts off on one processor,
  so each is one step; \<open>vfs_lock\<close> is split at its \<open>task_block\<close> into the part before the caller is
  parked and one turn of the loop it resumes in.  A panic is an error value.  The scheduler's part in
  it is the set of blocked tasks: \<open>task_block\<close> adds the caller, \<open>task_wakeup\<close> removes a task.
\<close>

section \<open>The gate\<close>

datatype vtask = Boot_owner | Task nat

record call_ctx =
  cpu_id :: nat
  in_handler :: bool
  current_task :: "nat option"

record gate =
  owner :: "vtask option"
  waiters :: "vtask list"
  vfs_active :: "vtask \<Rightarrow> bool"
  blocked :: "vtask \<Rightarrow> bool"

definition caller :: "call_ctx \<Rightarrow> string + vtask" where
  "caller c =
     (if cpu_id c \<noteq> 0 \<or> in_handler c then Inl ''VFS requires BSP task context, not an AP or IRQ''
      else Inr (case current_task c of Some n \<Rightarrow> Task n | None \<Rightarrow> Boot_owner))"

text \<open>The Boolean says whether the call returns; otherwise the caller is parked.\<close>

definition vfs_lock :: "call_ctx \<Rightarrow> gate \<Rightarrow> string + (bool \<times> gate)" where
  "vfs_lock c g =
     (case caller c of
        Inl e \<Rightarrow> Inl e
      | Inr task \<Rightarrow>
          if owner g = Some task \<or> vfs_active g task
          then Inl ''recursive VFS entry; use an already-locked helper''
          else
            (let g1 = g\<lparr>vfs_active := (vfs_active g)(task := True)\<rparr>
             in if owner g1 = None then Inr (True, g1\<lparr>owner := Some task\<rparr>)
                else if task = Boot_owner then Inl ''contended VFS during bootstrap''
                else Inr (False, g1\<lparr>waiters := waiters g1 @ [task], blocked := (blocked g1)(task := True)\<rparr>)))"

definition vfs_lock_resume :: "vtask \<Rightarrow> gate \<Rightarrow> bool \<times> gate" where
  "vfs_lock_resume task g =
     (if owner g \<noteq> Some task then (False, g\<lparr>blocked := (blocked g)(task := True)\<rparr>) else (True, g))"

definition task_wakeup :: "vtask \<Rightarrow> gate \<Rightarrow> gate" where
  "task_wakeup t g = (if \<not> blocked g t then g else g\<lparr>blocked := (blocked g)(t := False)\<rparr>)"

definition vfs_unlock :: "call_ctx \<Rightarrow> gate \<Rightarrow> string + gate" where
  "vfs_unlock c g =
     (case caller c of
        Inl e \<Rightarrow> Inl e
      | Inr task \<Rightarrow>
          if owner g \<noteq> Some task \<or> \<not> vfs_active g task then Inl ''VFS unlock by non-owner''
          else
            (let g1 = g\<lparr>vfs_active := (vfs_active g)(task := False)\<rparr>
             in case waiters g1 of
                  [] \<Rightarrow> Inr (g1\<lparr>owner := None\<rparr>)
                | t # ts \<Rightarrow> Inr (task_wakeup t (g1\<lparr>waiters := ts, owner := Some t\<rparr>))))"

definition vfs_assert_locked :: "call_ctx \<Rightarrow> gate \<Rightarrow> string + unit" where
  "vfs_assert_locked c g =
     (case caller c of
        Inl e \<Rightarrow> Inl e
      | Inr task \<Rightarrow>
          if owner g \<noteq> Some task \<or> \<not> vfs_active g task
          then Inl ''VFS backend/helper called outside serialization boundary'' else Inr ())"

definition gate_init :: gate where
  "gate_init = \<lparr>owner = None, waiters = [], vfs_active = (\<lambda>_. False), blocked = (\<lambda>_. False)\<rparr>"

section \<open>All interleavings\<close>

text \<open>
  The gate with the tasks that use it.  \<open>parked\<close> holds the tasks inside the waiting loop of
  \<open>vfs_lock\<close>; the three lists record, in order, which tasks called \<open>vfs_lock\<close>, returned from it,
  and called \<open>vfs_unlock\<close>.  A parked task runs only when it is not blocked, and any code may wake any
  task.
\<close>

record gate_system =
  the_gate :: gate
  parked :: "vtask set"
  arrived :: "vtask list"
  entered :: "vtask list"
  released :: "vtask list"

inductive gate_step :: "gate_system \<Rightarrow> gate_system \<Rightarrow> bool" where
  enter: "caller c = Inr t \<Longrightarrow> t \<notin> parked s \<Longrightarrow> \<not> blocked (the_gate s) t \<Longrightarrow>
    vfs_lock c (the_gate s) = Inr (True, g) \<Longrightarrow>
    gate_step s (s\<lparr>the_gate := g, arrived := arrived s @ [t], entered := entered s @ [t]\<rparr>)"
| park: "caller c = Inr t \<Longrightarrow> t \<notin> parked s \<Longrightarrow> \<not> blocked (the_gate s) t \<Longrightarrow>
    vfs_lock c (the_gate s) = Inr (False, g) \<Longrightarrow>
    gate_step s (s\<lparr>the_gate := g, parked := insert t (parked s), arrived := arrived s @ [t]\<rparr>)"
| proceed: "t \<in> parked s \<Longrightarrow> \<not> blocked (the_gate s) t \<Longrightarrow> vfs_lock_resume t (the_gate s) = (True, g) \<Longrightarrow>
    gate_step s (s\<lparr>the_gate := g, parked := parked s - {t}, entered := entered s @ [t]\<rparr>)"
| wait_again: "t \<in> parked s \<Longrightarrow> \<not> blocked (the_gate s) t \<Longrightarrow> vfs_lock_resume t (the_gate s) = (False, g) \<Longrightarrow>
    gate_step s (s\<lparr>the_gate := g\<rparr>)"
| release: "caller c = Inr t \<Longrightarrow> t \<notin> parked s \<Longrightarrow> \<not> blocked (the_gate s) t \<Longrightarrow>
    vfs_unlock c (the_gate s) = Inr g \<Longrightarrow>
    gate_step s (s\<lparr>the_gate := g, released := released s @ [t]\<rparr>)"
| wake: "gate_step s (s\<lparr>the_gate := task_wakeup t (the_gate s)\<rparr>)"

inductive_cases gate_stepE [elim]: "gate_step s s'"

definition gate_start :: gate_system where
  "gate_start = \<lparr>the_gate = gate_init, parked = {}, arrived = [], entered = [], released = []\<rparr>"

definition gate_reachable :: "gate_system \<Rightarrow> bool" where
  "gate_reachable s \<longleftrightarrow> gate_step\<^sup>*\<^sup>* gate_start s"

lemma gate_reachable_induct [consumes 1, case_names start step]:
  assumes "gate_reachable s" "P gate_start"
    "\<And>s s'. gate_reachable s \<Longrightarrow> P s \<Longrightarrow> gate_step s s' \<Longrightarrow> P s'"
  shows "P s"
  using assms(1) unfolding gate_reachable_def
  by (induction rule: rtranclp_induct) (use assms(2,3) in \<open>auto simp: gate_reachable_def\<close>)

section \<open>The invariant\<close>

definition holder :: "gate \<Rightarrow> vtask list" where
  "holder g = (case owner g of None \<Rightarrow> [] | Some t \<Rightarrow> [t])"

definition gate_inv :: "gate_system \<Rightarrow> bool" where
  "gate_inv s \<longleftrightarrow>
     (let g = the_gate s in
       arrived s = released s @ holder g @ waiters g \<and>
       entered s = released s @ filter (\<lambda>t. t \<notin> parked s) (holder g) \<and>
       distinct (holder g @ waiters g) \<and>
       (\<forall>t. vfs_active g t \<longleftrightarrow> t \<in> set (holder g @ waiters g)) \<and>
       set (waiters g) \<subseteq> parked s \<and> parked s \<subseteq> set (holder g @ waiters g) \<and>
       (owner g = None \<longrightarrow> waiters g = []) \<and>
       (\<forall>t. owner g = Some t \<longrightarrow> \<not> blocked g t))"

lemma gate_inv_start: "gate_inv gate_start"
  by (simp add: gate_inv_def gate_start_def gate_init_def holder_def)

lemma task_wakeup_simps [simp]:
  "owner (task_wakeup t g) = owner g" "waiters (task_wakeup t g) = waiters g"
  "vfs_active (task_wakeup t g) = vfs_active g"
  "blocked (task_wakeup t g) = (blocked g)(t := False)"
  by (auto simp: task_wakeup_def fun_eq_iff)

lemma gate_inv_step:
  assumes "gate_inv s" "gate_step s s'"
  shows "gate_inv s'"
  using assms(2)
proof cases
  case (enter c t g)
  then show ?thesis using assms(1)
    by (auto simp: gate_inv_def vfs_lock_def holder_def Let_def split: if_splits option.splits)
next
  case (park c t g)
  then show ?thesis using assms(1)
    by (auto simp: gate_inv_def vfs_lock_def holder_def Let_def split: if_splits option.splits)
next
  case (proceed t g)
  then show ?thesis using assms(1)
    by (auto simp: gate_inv_def vfs_lock_resume_def holder_def Let_def split: if_splits option.splits)
next
  case (wait_again t g)
  then show ?thesis using assms(1)
    by (auto simp: gate_inv_def vfs_lock_resume_def holder_def Let_def split: if_splits option.splits)
next
  case (release c t g)
  then show ?thesis using assms(1)
    by (auto simp: gate_inv_def vfs_unlock_def holder_def Let_def split: if_splits option.splits list.splits)
next
  case (wake t)
  then show ?thesis using assms(1) by (auto simp: gate_inv_def holder_def Let_def split: option.splits)
qed

lemma gate_inv_reachable: "gate_reachable s \<Longrightarrow> gate_inv s"
  by (induction rule: gate_reachable_induct) (auto intro: gate_inv_start gate_inv_step)

section \<open>Property\<close>

text \<open>
  C35.  In every interleaving of tasks that lock, unlock, are woken for any reason and resume, the
  tasks enter in exactly the order in which they called \<open>vfs_lock\<close> and leave in that order too; at
  most one of them is inside; and while the gate is not empty somebody can go on: when nobody is
  inside and a caller still waits, the caller that arrived first is the owner, is not blocked, and
  returns from its waiting loop as soon as it runs.  A task outside panics when it unlocks.
\<close>

theorem vfs_gate_fifo:
  assumes "gate_reachable s"
  shows "prefix (released s) (entered s) \<and> prefix (entered s) (arrived s) \<and>
    length (entered s) \<le> Suc (length (released s)) \<and>
    (entered s = released s \<longrightarrow> entered s \<noteq> arrived s \<longrightarrow>
       (let t = arrived s ! length (entered s)
        in t \<in> parked s \<and> \<not> blocked (the_gate s) t \<and> vfs_lock_resume t (the_gate s) = (True, the_gate s))) \<and>
    (\<forall>c t. caller c = Inr t \<longrightarrow> t \<notin> set (drop (length (released s)) (arrived s)) \<longrightarrow>
       vfs_unlock c (the_gate s) = Inl ''VFS unlock by non-owner'')"
proof -
  have "gate_inv s" using assms by (rule gate_inv_reachable)
  then show ?thesis
    by (auto simp: gate_inv_def Let_def holder_def vfs_lock_resume_def vfs_unlock_def split: option.splits if_splits)
qed

definition ctx_of :: "nat \<Rightarrow> call_ctx" where
  "ctx_of n = \<lparr>cpu_id = 0, in_handler = False, current_task = Some n\<rparr>"

text \<open>Tasks 1, 2 and 3 call \<open>vfs_lock\<close> in this order; task 1 then unlocks.\<close>

definition gate_contended :: gate_system where
  "gate_contended =
     \<lparr>the_gate = \<lparr>owner = Some (Task 2), waiters = [Task 3],
        vfs_active = (\<lambda>_. False)(Task 2 := True, Task 3 := True),
        blocked = (\<lambda>_. False)(Task 3 := True)\<rparr>,
      parked = {Task 2, Task 3}, arrived = [Task 1, Task 2, Task 3], entered = [Task 1], released = [Task 1]\<rparr>"

lemma gate_contended_reachable: "gate_reachable gate_contended"
proof -
  let ?c1 = "gate_start\<lparr>the_gate := gate_init\<lparr>vfs_active := (\<lambda>_. False)(Task 1 := True), owner := Some (Task 1)\<rparr>,
     arrived := [Task 1], entered := [Task 1]\<rparr>"
  let ?g2 = "(the_gate ?c1)\<lparr>vfs_active := (vfs_active (the_gate ?c1))(Task 2 := True), waiters := [Task 2],
     blocked := (\<lambda>_. False)(Task 2 := True)\<rparr>"
  let ?c2 = "?c1\<lparr>the_gate := ?g2, parked := {Task 2}, arrived := [Task 1, Task 2]\<rparr>"
  let ?g3 = "?g2\<lparr>vfs_active := (vfs_active ?g2)(Task 3 := True), waiters := [Task 2, Task 3],
     blocked := (blocked ?g2)(Task 3 := True)\<rparr>"
  let ?c3 = "?c2\<lparr>the_gate := ?g3, parked := {Task 3, Task 2}, arrived := [Task 1, Task 2, Task 3]\<rparr>"
  have 1: "gate_step gate_start ?c1"
    using enter [of "ctx_of 1" "Task 1" gate_start "the_gate ?c1"]
    by (simp add: caller_def ctx_of_def gate_start_def gate_init_def vfs_lock_def)
  have 2: "gate_step ?c1 ?c2"
    using park [of "ctx_of 2" "Task 2" ?c1 ?g2]
    by (simp add: caller_def ctx_of_def gate_start_def gate_init_def vfs_lock_def)
  have 3: "gate_step ?c2 ?c3"
    using park [of "ctx_of 3" "Task 3" ?c2 ?g3]
    by (simp add: caller_def ctx_of_def gate_start_def gate_init_def vfs_lock_def)
  have 4: "gate_step ?c3 gate_contended"
    using release [of "ctx_of 1" "Task 1" ?c3 "the_gate gate_contended"]
    by (simp add: caller_def ctx_of_def gate_start_def gate_init_def vfs_unlock_def gate_contended_def
        task_wakeup_def fun_eq_iff insert_commute)
  from 1 2 3 4 show ?thesis
    unfolding gate_reachable_def by (meson rtranclp.rtrancl_into_rtrancl rtranclp.rtrancl_refl)
qed

theorem vfs_gate_fifo_witness:
  "prefix (released gate_contended) (entered gate_contended) \<and>
   arrived gate_contended ! 1 = Task 2 \<and>
   vfs_lock_resume (Task 2) (the_gate gate_contended) = (True, the_gate gate_contended) \<and>
   vfs_unlock (ctx_of 1) (the_gate gate_contended) = Inl ''VFS unlock by non-owner''"
proof -
  note * = vfs_gate_fifo [OF gate_contended_reachable]
  have "caller (ctx_of 1) = Inr (Task 1)" by (simp add: caller_def ctx_of_def)
  then have "vfs_unlock (ctx_of 1) (the_gate gate_contended) = Inl ''VFS unlock by non-owner''"
    using * by (simp add: gate_contended_def)
  then show ?thesis using * by (simp add: gate_contended_def Let_def)
qed

end
