(* ===== verification/Ring.thy ===== *)
theory Ring
  imports Gaia_Prelude
begin

text \<open>
  What the kernel's ring buffers promise their clients: a bounded first-in first-out queue.  The
  interface \<open>bounded_fifo\<close> moves several elements at a time and is interpreted for the byte ring of a
  pipe (\<open>Pipe\<close>); \<open>bounded_queue\<close> moves one element at a time, refuses when full, and is interpreted
  for the two message rings of a task (\<open>Msg\<close>).  The theory also holds the index arithmetic both share.
\<close>

section \<open>The interface\<close>

locale bounded_fifo =
  fixes items :: "'s \<Rightarrow> 'a list"
    and ok :: "'s \<Rightarrow> bool"
    and capacity :: nat
    and put :: "'a list \<Rightarrow> 's \<Rightarrow> 's"
    and get :: "nat \<Rightarrow> 's \<Rightarrow> 'a list \<times> 's"
  assumes items_bound: "ok s \<Longrightarrow> length (items s) \<le> capacity"
    and put_items: "ok s \<Longrightarrow> length (items s) + length xs \<le> capacity \<Longrightarrow>
      ok (put xs s) \<and> items (put xs s) = items s @ xs"
    and get_items: "ok s \<Longrightarrow> n \<le> length (items s) \<Longrightarrow>
      ok (snd (get n s)) \<and> fst (get n s) = take n (items s) \<and> items (snd (get n s)) = drop n (items s)"
begin

lemma put_get:
  assumes "ok s" "length (items s) + length xs \<le> capacity" "get (length (items s)) (put xs s) = (ys, s')"
  shows "ys = items s \<and> items s' = xs \<and> ok s'"
  using put_items [OF assms(1,2)] get_items [of "put xs s" "length (items s)"] assms(3) by simp

text \<open>Conservation: what went in is what came out followed by what is still there.\<close>

lemma conserve_put:
  assumes "ok s" "ins = outs @ items s" "length (items s) + length xs \<le> capacity"
  shows "ins @ xs = outs @ items (put xs s)"
  using put_items [OF assms(1,3)] assms(2) by simp

lemma conserve_get:
  assumes "ok s" "ins = outs @ items s" "n \<le> length (items s)"
  shows "ins = (outs @ fst (get n s)) @ items (snd (get n s))"
  using get_items [OF assms(1,3)] assms(2) by simp

end

locale bounded_queue =
  fixes items :: "'s \<Rightarrow> 'a list"
    and ok :: "'s \<Rightarrow> bool"
    and capacity :: nat
    and push :: "'a \<Rightarrow> 's \<Rightarrow> bool \<times> 's"
    and pop :: "'s \<Rightarrow> 'a option \<times> 's"
  assumes push_items: "ok q \<Longrightarrow> push x q = (b, q') \<Longrightarrow>
      ok q' \<and> (b \<longleftrightarrow> length (items q) < capacity) \<and> items q' = (if b then items q @ [x] else items q)"
    and pop_items: "ok q \<Longrightarrow> pop q = (m, q') \<Longrightarrow>
      ok q' \<and> m = (case items q of [] \<Rightarrow> None | x # xs \<Rightarrow> Some x) \<and> items q' = tl (items q)"
begin

lemma push_fst: "ok q \<Longrightarrow> fst (push x q) \<longleftrightarrow> length (items q) < capacity"
  and push_snd: "ok q \<Longrightarrow> items (snd (push x q)) = (if length (items q) < capacity then items q @ [x] else items q)"
  and push_ok: "ok q \<Longrightarrow> ok (snd (push x q))"
  using push_items [of q x "fst (push x q)" "snd (push x q)"] by simp_all

lemma pop_fst: "ok q \<Longrightarrow> fst (pop q) = (case items q of [] \<Rightarrow> None | x # xs \<Rightarrow> Some x)"
  and pop_snd: "ok q \<Longrightarrow> items (snd (pop q)) = tl (items q)"
  and pop_ok: "ok q \<Longrightarrow> ok (snd (pop q))"
  using pop_items [of q "fst (pop q)" "snd (pop q)"] by simp_all

end

section \<open>Index arithmetic\<close>

lemma mod_wrap: "0 < N \<Longrightarrow> a < N \<Longrightarrow> j \<le> N \<Longrightarrow> (a + j) mod N = (if a + j < N then a + j else a + j - N)"
  for a j N :: nat
  by (simp add: mod_if)

lemma mod_add_inject:
  assumes "i < N" "j < N" "((a::nat) + i) mod N = (a + j) mod N"
  shows "i = j"
proof -
  have "(a mod N + i) mod N = (a mod N + j) mod N" using assms(3) by (simp add: mod_simps)
  moreover have "a mod N < N" using assms(1) by simp
  ultimately show ?thesis using assms(1,2) by (auto simp: mod_wrap split: if_splits)
qed

text \<open>The elements a ring holds, from position \<open>a\<close> on.\<close>

definition ring_span :: "'a list \<Rightarrow> nat \<Rightarrow> nat \<Rightarrow> 'a list" where
  "ring_span d a n = map (\<lambda>i. d ! ((a + i) mod length d)) [0..<n]"

lemma length_ring_span [simp]: "length (ring_span d a n) = n"
  by (simp add: ring_span_def)

lemma ring_span_append: "ring_span d a (m + n) = ring_span d a m @ ring_span d (a + m) n"
  by (rule nth_equalityI) (auto simp: ring_span_def nth_append)

lemma ring_span_mod [simp]: "ring_span d (a mod length d) n = ring_span d a n"
  by (simp add: ring_span_def mod_simps)

lemma ring_span_take: "m \<le> n \<Longrightarrow> take m (ring_span d a n) = ring_span d a m"
  by (simp add: ring_span_def take_map)

lemma ring_span_drop: "m \<le> n \<Longrightarrow> drop m (ring_span d a n) = ring_span d (a + m) (n - m)"
  by (rule nth_equalityI) (auto simp: ring_span_def add.assoc)

lemma ring_span_cong:
  assumes "length d' = length d" "\<And>i. i < n \<Longrightarrow> d' ! ((a + i) mod length d) = d ! ((a + i) mod length d)"
  shows "ring_span d' a n = ring_span d a n"
  using assms by (simp add: ring_span_def)

lemma ring_span_linear: "a + n \<le> length d \<Longrightarrow> ring_span d a n = take n (drop a d)"
  by (rule nth_equalityI) (auto simp: ring_span_def)

lemma ring_span_update_outside:
  assumes "0 < length d" "m \<le> n" "n < length d"
  shows "ring_span (d[(a + n) mod length d := x]) a m = ring_span d a m"
proof (rule ring_span_cong)
  fix i assume "i < m"
  then have "(a + i) mod length d \<noteq> (a + n) mod length d"
    using assms mod_add_inject [of i "length d" n a] by auto
  then show "d[(a + n) mod length d := x] ! ((a + i) mod length d) = d ! ((a + i) mod length d)" by simp
qed simp

lemma ring_span_snoc_update:
  assumes "0 < length d" "n < length d"
  shows "ring_span (d[(a + n) mod length d := x]) a (Suc n) = ring_span d a n @ [x]"
proof -
  have "ring_span (d[(a + n) mod length d := x]) a (n + 1)
      = ring_span (d[(a + n) mod length d := x]) a n @ ring_span (d[(a + n) mod length d := x]) (a + n) 1"
    by (rule ring_span_append)
  then show ?thesis using assms ring_span_update_outside [of d n n a x] by (simp add: ring_span_def)
qed

section \<open>Copying into a ring\<close>

text \<open>\<open>memcpy(d + a, xs, n)\<close> inside an array.\<close>

definition copy_at :: "nat \<Rightarrow> 'a list \<Rightarrow> 'a list \<Rightarrow> 'a list" where
  "copy_at a xs d = take a d @ xs @ drop (a + length xs) d"

lemma length_copy_at [simp]: "a + length xs \<le> length d \<Longrightarrow> length (copy_at a xs d) = length d"
  by (simp add: copy_at_def)

lemma nth_copy_at:
  assumes "a + length xs \<le> length d" "k < length d"
  shows "copy_at a xs d ! k = (if a \<le> k \<and> k < a + length xs then xs ! (k - a) else d ! k)"
  using assms by (auto simp: copy_at_def nth_append)

lemma ring_copy:
  assumes t: "t < length d" and n: "length xs \<le> length d"
    and f: "f = min (length d - t) (length xs)"
    and d': "d' = copy_at 0 (drop f xs) (copy_at t (take f xs) d)"
  shows "length d' = length d" "ring_span d' t (length xs) = xs"
    "\<And>i. length xs \<le> i \<Longrightarrow> i < length d \<Longrightarrow> d' ! ((t + i) mod length d) = d ! ((t + i) mod length d)"
proof -
  have len1: "length (copy_at t (take f xs) d) = length d" using t f by simp
  show len: "length d' = length d" using len1 n t f d' by (simp add: min_def split: if_splits)
  have at: "d' ! ((t + i) mod length d) = (if i < length xs then xs ! i else d ! ((t + i) mod length d))"
    if "i < length d" for i
  proof -
    have pos: "0 < length d" using t by linarith
    have e: "(t + i) mod length d = (if t + i < length d then t + i else t + i - length d)"
      using mod_wrap [OF pos t, of i] that by simp
    show ?thesis
      unfolding d' e using t n f that len1
      by (auto simp: nth_copy_at min_def split: if_splits)
  qed
  show "ring_span d' t (length xs) = xs"
    by (rule nth_equalityI) (use at n len in \<open>auto simp: ring_span_def\<close>)
  show "d' ! ((t + i) mod length d) = d ! ((t + i) mod length d)" if "length xs \<le> i" "i < length d" for i
    using at [OF that(2)] that(1) by simp
qed

end
