(* ===== verification/Pipe.thy ===== *)
theory Pipe
  imports Ring
begin

text \<open>
  Pipes (\<open>kernel/msg/pipe.c\<close>).  Every function runs with interrupts off between two sleeps, so a call
  is a sequence of atomic turns: \<open>pipe_read\<close> and \<open>pipe_write\<close> are the first turn, \<open>pipe_read_woken\<close>
  and \<open>pipe_write_woken\<close> what runs when \<open>wq_wait\<close> returns.  A result \<open>None\<close> means that the turn ends in
  \<open>wq_wait\<close>.  The two wait queues are the sets of tasks asleep on them; \<open>wq_wake_all\<close> empties the set.
\<close>

section \<open>The ring\<close>

record pipe =
  pdata :: bytes
  phead :: u32
  pcount :: u32
  readers :: u32
  writers :: u32
  readable :: "nat set"
  writable :: "nat set"

abbreviation PIPE_CAPACITY :: u32 where "PIPE_CAPACITY \<equiv> 4096"
abbreviation PIPE_BUF :: nat where "PIPE_BUF \<equiv> 512"
abbreviation EAGAIN :: int where "EAGAIN \<equiv> 11"
abbreviation EINTR :: int where "EINTR \<equiv> 4"
abbreviation EPIPE :: int where "EPIPE \<equiv> 32"

definition pipe_create :: pipe where
  "pipe_create = \<lparr>pdata = replicate 4096 0, phead = 0, pcount = 0, readers = 1, writers = 1,
     readable = {}, writable = {}\<rparr>"

definition pipe_ref :: "bool \<Rightarrow> pipe \<Rightarrow> pipe" where
  "pipe_ref write_end p = (if write_end then p\<lparr>writers := writers p + 1\<rparr> else p\<lparr>readers := readers p + 1\<rparr>)"

text \<open>The Boolean says whether the pipe is freed.\<close>

definition pipe_unref :: "bool \<Rightarrow> pipe \<Rightarrow> bool \<times> pipe" where
  "pipe_unref write_end p =
     (let p1 = (if write_end then
                  (if writers p \<noteq> 0 then
                     (let q = p\<lparr>writers := writers p - 1\<rparr> in if writers q = 0 then q\<lparr>readable := {}\<rparr> else q)
                   else p)
                else
                  (if readers p \<noteq> 0 then
                     (let q = p\<lparr>readers := readers p - 1\<rparr> in if readers q = 0 then q\<lparr>writable := {}\<rparr> else q)
                   else p))
      in (readers p1 = 0 \<and> writers p1 = 0, p1))"

definition pipe_readable :: "pipe \<Rightarrow> bool" where
  "pipe_readable p \<longleftrightarrow> pcount p > 0 \<or> writers p = 0"

definition pipe_writable :: "pipe \<Rightarrow> bool" where
  "pipe_writable p \<longleftrightarrow> pcount p < PIPE_CAPACITY \<or> readers p = 0"

text \<open>The copies of \<open>pipe_read\<close> and \<open>pipe_write\<close> out of and into the ring.\<close>

definition pipe_get :: "nat \<Rightarrow> pipe \<Rightarrow> bytes \<times> pipe" where
  "pipe_get chunk p =
     (let first = min (unat (PIPE_CAPACITY - phead p)) chunk
      in (take first (drop (unat (phead p)) (pdata p)) @ take (chunk - first) (pdata p),
          p\<lparr>phead := of_nat ((unat (phead p) + chunk) mod 4096), pcount := pcount p - of_nat chunk\<rparr>))"

definition pipe_put :: "bytes \<Rightarrow> pipe \<Rightarrow> pipe" where
  "pipe_put xs p =
     (let tail = (phead p + pcount p) mod PIPE_CAPACITY;
          first = min (unat (PIPE_CAPACITY - tail)) (length xs)
      in p\<lparr>pdata := copy_at 0 (drop first xs) (copy_at (unat tail) (take first xs) (pdata p)),
           pcount := pcount p + of_nat (length xs)\<rparr>)"

section \<open>Reading and writing\<close>

definition pipe_read_turn :: "pipe \<Rightarrow> nat \<Rightarrow> bool \<Rightarrow> int option \<times> bytes \<times> pipe" where
  "pipe_read_turn p n nonblock =
     (if pcount p = 0 then
        (if writers p = 0 then (Some 0, [], p)
         else if nonblock then (Some (- EAGAIN), [], p)
         else (None, [], p))
      else
        (let chunk = min n (unat (pcount p));
             (data, p1) = pipe_get chunk p
         in (Some (int chunk), data, p1\<lparr>writable := {}\<rparr>)))"

definition pipe_read :: "pipe \<Rightarrow> nat \<Rightarrow> bool \<Rightarrow> int option \<times> bytes \<times> pipe" where
  "pipe_read p n nonblock = (if n = 0 then (Some 0, [], p) else pipe_read_turn p n nonblock)"

definition pipe_read_woken :: "int \<Rightarrow> pipe \<Rightarrow> nat \<Rightarrow> int option \<times> bytes \<times> pipe" where
  "pipe_read_woken rc p n = (if rc = - EINTR then (Some (- EINTR), [], p) else pipe_read_turn p n False)"

text \<open>The space a write waits for: all that is left of a short write, one byte of a long one.\<close>

definition pipe_need :: "nat \<Rightarrow> nat \<Rightarrow> nat" where
  "pipe_need n written = (if n \<le> PIPE_BUF then n - written else 1)"

datatype write_stop = Finished | Failed int | Asleep

function pipe_write_loop :: "pipe \<Rightarrow> bytes \<Rightarrow> nat \<Rightarrow> bool \<Rightarrow> write_stop \<times> nat \<times> pipe" where
  "pipe_write_loop p buf written nonblock =
     (if written < length buf then
        (if readers p = 0 then (Failed (- EPIPE), written, p)
         else
           (let space = unat (PIPE_CAPACITY - pcount p)
            in if space < pipe_need (length buf) written then
                 (if nonblock then (Failed (- EAGAIN), written, p) else (Asleep, written, p))
               else
                 (let chunk = min (length buf - written) space
                  in pipe_write_loop ((pipe_put (take chunk (drop written buf)) p)\<lparr>readable := {}\<rparr>) buf
                       (written + chunk) nonblock)))
      else (Finished, written, p))"
  by pat_completeness auto
termination
  by (relation "measure (\<lambda>(p, buf, written, nonblock). length buf - written)")
     (auto simp: pipe_need_def split: if_splits)

declare pipe_write_loop.simps [simp del]

text \<open>The result of the call, if it returns, and the number of bytes written so far.\<close>

definition pipe_write_turn :: "pipe \<Rightarrow> bytes \<Rightarrow> nat \<Rightarrow> bool \<Rightarrow> int option \<times> nat \<times> pipe" where
  "pipe_write_turn p buf written nonblock =
     (case pipe_write_loop p buf written nonblock of
        (Finished, w, q) \<Rightarrow> (Some (int w), w, q)
      | (Failed rc, w, q) \<Rightarrow> (Some (if w \<noteq> 0 then int w else rc), w, q)
      | (Asleep, w, q) \<Rightarrow> (None, w, q))"

definition pipe_write :: "pipe \<Rightarrow> bytes \<Rightarrow> bool \<Rightarrow> int option \<times> nat \<times> pipe" where
  "pipe_write p buf nonblock = (if length buf = 0 then (Some 0, 0, p) else pipe_write_turn p buf 0 nonblock)"

definition pipe_write_woken :: "int \<Rightarrow> pipe \<Rightarrow> bytes \<Rightarrow> nat \<Rightarrow> int option \<times> nat \<times> pipe" where
  "pipe_write_woken rc p buf written =
     (if rc = - EINTR then (Some (if written \<noteq> 0 then int written else - EINTR), written, p)
      else pipe_write_turn p buf written False)"

section \<open>The ring is a bounded queue\<close>

definition pipe_ok :: "pipe \<Rightarrow> bool" where
  "pipe_ok p \<longleftrightarrow> length (pdata p) = 4096 \<and> phead p < PIPE_CAPACITY \<and> pcount p \<le> PIPE_CAPACITY"

definition buffered :: "pipe \<Rightarrow> bytes" where
  "buffered p = ring_span (pdata p) (unat (phead p)) (unat (pcount p))"

lemma length_buffered [simp]: "length (buffered p) = unat (pcount p)"
  by (simp add: buffered_def)

lemma pipe_ok_nat:
  "pipe_ok p \<longleftrightarrow> length (pdata p) = 4096 \<and> unat (phead p) < 4096 \<and> unat (pcount p) \<le> 4096"
  by (simp add: pipe_ok_def word_less_nat_alt word_le_nat_alt)

lemma pipe_ok_bound: "pipe_ok p \<Longrightarrow> unat (pcount p) \<le> 4096"
  by (simp add: pipe_ok_nat)

lemma unat_room: "x \<le> PIPE_CAPACITY \<Longrightarrow> unat (PIPE_CAPACITY - x) = 4096 - unat x"
  by (simp add: unat_sub)

lemma unat_tail: "pipe_ok p \<Longrightarrow> unat ((phead p + pcount p) mod PIPE_CAPACITY) = (unat (phead p) + unat (pcount p)) mod 4096"
  by (simp add: pipe_ok_nat unat_mod_distrib unat_plus_simple [THEN iffD1] word_le_nat_alt unat_word_ariths)

lemma pipe_put_buffered:
  assumes ok: "pipe_ok p" and room: "unat (pcount p) + length xs \<le> 4096"
  shows "pipe_ok (pipe_put xs p) \<and> buffered (pipe_put xs p) = buffered p @ xs"
proof -
  let ?h = "unat (phead p)" and ?n = "unat (pcount p)"
  let ?t = "(phead p + pcount p) mod PIPE_CAPACITY"
  have t: "unat ?t = (?h + ?n) mod 4096" using ok by (rule unat_tail)
  then have tl: "unat ?t < length (pdata p)" using ok by (simp add: pipe_ok_nat)
  have first: "unat (PIPE_CAPACITY - ?t) = length (pdata p) - unat ?t"
    using ok tl by (simp add: pipe_ok_nat unat_room word_le_nat_alt)
  let ?q = "pipe_put xs p"
  have len: "length xs \<le> length (pdata p)" using ok room by (simp add: pipe_ok_nat)
  have dq: "pdata ?q = copy_at 0 (drop (min (length (pdata p) - unat ?t) (length xs)) xs)
      (copy_at (unat ?t) (take (min (length (pdata p) - unat ?t) (length xs)) xs) (pdata p))"
    by (simp add: pipe_put_def Let_def first)
  note rc = ring_copy [OF tl len refl dq]
  have cq: "unat (pcount ?q) = ?n + length xs"
    using room by (simp add: pipe_put_def Let_def unat_word_ariths unat_of_nat)
  have hq: "phead ?q = phead p" by (simp add: pipe_put_def Let_def)
  have okq: "pipe_ok ?q" using ok room rc(1) cq hq by (simp add: pipe_ok_nat)
  have old: "ring_span (pdata ?q) ?h ?n = ring_span (pdata p) ?h ?n"
  proof (rule ring_span_cong)
    fix i assume i: "i < ?n"
    let ?k = "4096 - ?n + i"
    have k: "(unat ?t + ?k) mod 4096 = (?h + i) mod 4096"
    proof -
      have "(unat ?t + ?k) mod 4096 = (?h + ?n + ?k) mod 4096" by (simp add: t mod_simps)
      also have "?h + ?n + ?k = ?h + i + 4096" using ok i by (simp add: pipe_ok_nat)
      finally show ?thesis by simp
    qed
    show "pdata ?q ! ((?h + i) mod length (pdata p)) = pdata p ! ((?h + i) mod length (pdata p))"
      using rc(3) [of ?k] k ok i room by (simp add: pipe_ok_nat)
  qed (rule rc(1))
  have new: "ring_span (pdata ?q) (?h + ?n) (length xs) = xs"
  proof -
    have "ring_span (pdata ?q) ((?h + ?n) mod length (pdata ?q)) (length xs) = xs"
      using rc(1,2) ok t by (simp add: pipe_ok_nat)
    then show ?thesis by simp
  qed
  have "buffered ?q = buffered p @ xs"
    using old new by (simp add: buffered_def hq cq ring_span_append)
  then show ?thesis using okq by simp
qed

lemma pipe_get_buffered:
  assumes ok: "pipe_ok p" and n: "n \<le> unat (pcount p)"
  shows "pipe_ok (snd (pipe_get n p)) \<and> fst (pipe_get n p) = take n (buffered p) \<and>
    buffered (snd (pipe_get n p)) = drop n (buffered p)"
proof -
  let ?h = "unat (phead p)" and ?d = "pdata p"
  let ?f = "min (4096 - ?h) n"
  have first: "unat (PIPE_CAPACITY - phead p) = 4096 - ?h"
    using ok by (simp add: pipe_ok_nat unat_room word_le_nat_alt)
  have len: "length ?d = 4096" "?h < 4096" using ok by (simp_all add: pipe_ok_nat)
  have n4: "n \<le> 4096" using ok n by (simp add: pipe_ok_nat)
  have "ring_span ?d ?h n = ring_span ?d ?h (?f + (n - ?f))" by simp
  also have "\<dots> = ring_span ?d ?h ?f @ ring_span ?d (?h + ?f) (n - ?f)" by (rule ring_span_append)
  also have "ring_span ?d ?h ?f = take ?f (drop ?h ?d)" using len by (intro ring_span_linear) simp
  also have "ring_span ?d (?h + ?f) (n - ?f) = take (n - ?f) ?d"
  proof (cases "n \<le> 4096 - ?h")
    case True then show ?thesis by (simp add: ring_span_def)
  next
    case False
    then have "?h + ?f = length ?d" using len by simp
    then have "ring_span ?d (?h + ?f) (n - ?f) = ring_span ?d 0 (n - ?f)"
      by (metis mod_self ring_span_mod)
    also have "\<dots> = take (n - ?f) ?d" using ring_span_linear [of 0 "n - ?f" ?d] len n4 by simp
    finally show ?thesis .
  qed
  finally have f: "fst (pipe_get n p) = take n (buffered p)"
    using n by (simp add: pipe_get_def Let_def first buffered_def ring_span_take)
  have h': "unat (of_nat ((?h + n) mod 4096) :: u32) = (?h + n) mod 4096"
    by (simp add: unat_of_nat)
  have c': "unat (pcount p - of_nat n) = unat (pcount p) - n"
    using n n4 by (subst unat_sub) (simp_all add: word_le_nat_alt unat_of_nat)
  have "ring_span ?d ((?h + n) mod 4096) (unat (pcount p) - n) = ring_span ?d (?h + n) (unat (pcount p) - n)"
    using ring_span_mod [of ?d "?h + n"] len by simp
  then have "buffered (snd (pipe_get n p)) = drop n (buffered p)"
    using n by (simp add: pipe_get_def Let_def buffered_def h' c' ring_span_drop)
  moreover have "pipe_ok (snd (pipe_get n p))"
    using ok pipe_ok_bound [OF ok] by (simp add: pipe_get_def Let_def pipe_ok_nat h' c')
  ultimately show ?thesis using f by simp
qed

interpretation pipe_ring: bounded_fifo buffered pipe_ok 4096 pipe_put pipe_get
  by unfold_locales (simp_all add: pipe_put_buffered pipe_get_buffered pipe_ok_bound)

section \<open>One turn\<close>

lemma pipe_write_loop_effect:
  assumes "pipe_write_loop p buf w nonblock = (r, w', q)" "pipe_ok p" "w \<le> length buf"
  shows "pipe_ok q \<and> w \<le> w' \<and> w' \<le> length buf \<and> buffered q = buffered p @ take (w' - w) (drop w buf) \<and>
    readers q = readers p \<and> writers q = writers p \<and> writable q = writable p \<and>
    readable q = (if w < w' then {} else readable p) \<and>
    (r = Asleep \<longrightarrow> readers q \<noteq> 0 \<and> 4096 - unat (pcount q) < pipe_need (length buf) w') \<and>
    (r = Finished \<longrightarrow> w' = length buf) \<and>
    (length buf \<le> PIPE_BUF \<longrightarrow> w' = w \<or> w' = length buf)"
  using assms
proof (induction p buf w nonblock rule: pipe_write_loop.induct)
  case (1 p buf w nonblock)
  let ?space = "unat (PIPE_CAPACITY - pcount p)"
  let ?chunk = "min (length buf - w) ?space"
  let ?p1 = "(pipe_put (take ?chunk (drop w buf)) p)\<lparr>readable := {}\<rparr>"
  have space: "?space = 4096 - unat (pcount p)" using "1.prems"(2) by (simp add: pipe_ok_def unat_room)
  show ?case
  proof (cases "w < length buf \<and> readers p \<noteq> 0 \<and> \<not> ?space < pipe_need (length buf) w")
    case False
    then show ?thesis using "1.prems" space
      by (subst (asm) pipe_write_loop.simps) (auto simp: Let_def split: if_splits)
  next
    case True
    then have run: "pipe_write_loop ?p1 buf (w + ?chunk) nonblock = (r, w', q)"
      using "1.prems"(1) by (subst (asm) pipe_write_loop.simps) (simp add: Let_def)
    have chunk: "0 < ?chunk" "?chunk \<le> length buf - w" "unat (pcount p) + ?chunk \<le> 4096"
      using True "1.prems"(2) space by (auto simp: pipe_need_def pipe_ok_nat split: if_splits)
    have put: "pipe_ok ?p1" "buffered ?p1 = buffered p @ take ?chunk (drop w buf)"
      using pipe_ring.put_items [OF "1.prems"(2), of "take ?chunk (drop w buf)"] chunk(3)
      by (simp_all add: pipe_ok_def buffered_def)
    have same: "readers ?p1 = readers p" "writers ?p1 = writers p" "writable ?p1 = writable p"
      by (simp_all add: pipe_put_def Let_def)
    have le: "w + ?chunk \<le> length buf" using chunk(2) "1.prems"(3) by linarith
    have IH: "pipe_ok q \<and> w + ?chunk \<le> w' \<and> w' \<le> length buf \<and>
        buffered q = buffered ?p1 @ take (w' - (w + ?chunk)) (drop (w + ?chunk) buf) \<and>
        readers q = readers ?p1 \<and> writers q = writers ?p1 \<and> writable q = writable ?p1 \<and>
        readable q = (if w + ?chunk < w' then {} else readable ?p1) \<and>
        (r = Asleep \<longrightarrow> readers q \<noteq> 0 \<and> 4096 - unat (pcount q) < pipe_need (length buf) w') \<and>
        (r = Finished \<longrightarrow> w' = length buf) \<and>
        (length buf \<le> PIPE_BUF \<longrightarrow> w' = w + ?chunk \<or> w' = length buf)"
      using "1.IH" [OF _ _ refl _ refl run put(1) le] True by blast
    have cat: "take ?chunk (drop w buf) @ take (w' - (w + ?chunk)) (drop (w + ?chunk) buf) = take (w' - w) (drop w buf)"
    proof -
      have "w' - w = ?chunk + (w' - (w + ?chunk))" using IH by simp
      then have "take (w' - w) (drop w buf)
          = take ?chunk (drop w buf) @ take (w' - (w + ?chunk)) (drop ?chunk (drop w buf))"
        by (metis take_add)
      then show ?thesis by (simp add: add.commute)
    qed
    have short: "length buf \<le> PIPE_BUF \<Longrightarrow> w + ?chunk = length buf"
      using True "1.prems"(3) by (simp add: pipe_need_def min_def)
    show ?thesis using IH put(2) same cat short chunk(1) by auto
  qed
qed

lemma pipe_read_turn_effect:
  assumes "pipe_read_turn p n nonblock = (r, bs, q)" "pipe_ok p"
  shows "pipe_ok q \<and> buffered p = bs @ buffered q \<and> readers q = readers p \<and> writers q = writers p \<and>
    readable q = readable p \<and> (q = p \<or> writable q = {}) \<and>
    (r = None \<longrightarrow> q = p \<and> pcount q = 0 \<and> writers q \<noteq> 0) \<and>
    (q \<noteq> p \<longrightarrow> unat (pcount q) \<le> unat (pcount p))"
proof (cases "pcount p = 0")
  case True
  then show ?thesis using assms by (auto simp: pipe_read_turn_def split: if_splits)
next
  case False
  let ?c = "min n (unat (pcount p))"
  obtain data p1 where g: "pipe_get ?c p = (data, p1)" by fastforce
  have "bs = data" "q = p1\<lparr>writable := {}\<rparr>" "r \<noteq> None"
    using assms(1) False g by (auto simp: pipe_read_turn_def Let_def)
  moreover have "readers p1 = readers p" "writers p1 = writers p" "readable p1 = readable p"
    using g by (auto simp: pipe_get_def Let_def)
  moreover have *: "pipe_ok p1" "data = take ?c (buffered p)" "buffered p1 = drop ?c (buffered p)"
    using pipe_ring.get_items [OF assms(2), of ?c] g by auto
  moreover have "unat (pcount p1) \<le> unat (pcount p)"
    using arg_cong [OF *(3), of length] by simp
  moreover have "pipe_ok (p1\<lparr>writable := {}\<rparr>)" "buffered (p1\<lparr>writable := {}\<rparr>) = buffered p1"
    using *(1) by (simp_all add: pipe_ok_def buffered_def)
  ultimately show ?thesis by auto
qed

section \<open>All interleavings of readers and writers\<close>

text \<open>
  A pipe and the calls in progress on it: \<open>rd t\<close> is the length task \<open>t\<close> asked for in a read that has
  slept, \<open>wr t\<close> the buffer and the progress of a write that has slept.  \<open>sent\<close> records every turn of a
  write: the task, the whole buffer of the call and the bytes this turn put into the ring.  \<open>got\<close> is
  everything readers received.  A sleeping task resumes when it was woken, or with \<open>-EINTR\<close> at any
  time; a task may be killed while it sleeps.  The reference counts do not wrap.
\<close>

record pipe_system =
  the_pipe :: pipe
  rd :: "nat \<Rightarrow> nat option"
  wr :: "nat \<Rightarrow> (bytes \<times> nat) option"
  sent :: "(nat \<times> bytes \<times> bytes) list"
  got :: bytes

definition after_read :: "nat \<Rightarrow> nat \<Rightarrow> int option \<times> bytes \<times> pipe \<Rightarrow> pipe_system \<Rightarrow> pipe_system" where
  "after_read t n out s =
     (case out of (r, bs, q) \<Rightarrow>
        s\<lparr>the_pipe := (if r = None then q\<lparr>readable := insert t (readable q)\<rparr>
                       else q\<lparr>readable := readable q - {t}\<rparr>),
          rd := (rd s)(t := (if r = None then Some n else None)), got := got s @ bs\<rparr>)"

definition after_write :: "nat \<Rightarrow> bytes \<Rightarrow> nat \<Rightarrow> int option \<times> nat \<times> pipe \<Rightarrow> pipe_system \<Rightarrow> pipe_system" where
  "after_write t buf w out s =
     (case out of (r, w', q) \<Rightarrow>
        s\<lparr>the_pipe := (if r = None then q\<lparr>writable := insert t (writable q)\<rparr>
                       else q\<lparr>writable := writable q - {t}\<rparr>),
          wr := (wr s)(t := (if r = None then Some (buf, w') else None)),
          sent := sent s @ (if w < w' then [(t, buf, take (w' - w) (drop w buf))] else [])\<rparr>)"

inductive pipe_step :: "pipe_system \<Rightarrow> pipe_system \<Rightarrow> bool" where
  read_call: "rd s t = None \<Longrightarrow> wr s t = None \<Longrightarrow>
    pipe_step s (after_read t n (pipe_read (the_pipe s) n nonblock) s)"
| read_resume: "rd s t = Some n \<Longrightarrow> t \<notin> readable (the_pipe s) \<or> rc = - EINTR \<Longrightarrow>
    pipe_step s (after_read t n (pipe_read_woken rc (the_pipe s) n) s)"
| write_call: "rd s t = None \<Longrightarrow> wr s t = None \<Longrightarrow>
    pipe_step s (after_write t buf 0 (pipe_write (the_pipe s) buf nonblock) s)"
| write_resume: "wr s t = Some (buf, w) \<Longrightarrow> t \<notin> writable (the_pipe s) \<or> rc = - EINTR \<Longrightarrow>
    pipe_step s (after_write t buf w (pipe_write_woken rc (the_pipe s) buf w) s)"
| open_end: "(if e then writers (the_pipe s) else readers (the_pipe s)) \<noteq> -1 \<Longrightarrow>
    pipe_step s (s\<lparr>the_pipe := pipe_ref e (the_pipe s)\<rparr>)"
| close_end: "pipe_step s (s\<lparr>the_pipe := snd (pipe_unref e (the_pipe s))\<rparr>)"
| kill: "pipe_step s (s\<lparr>the_pipe := (the_pipe s)\<lparr>readable := readable (the_pipe s) - {t},
      writable := writable (the_pipe s) - {t}\<rparr>, rd := (rd s)(t := None), wr := (wr s)(t := None)\<rparr>)"

definition pipe_start :: pipe_system where
  "pipe_start = \<lparr>the_pipe = pipe_create, rd = (\<lambda>_. None), wr = (\<lambda>_. None), sent = [], got = []\<rparr>"

definition pipe_reachable :: "pipe_system \<Rightarrow> bool" where
  "pipe_reachable s \<longleftrightarrow> pipe_step\<^sup>*\<^sup>* pipe_start s"

definition sent_bytes :: "pipe_system \<Rightarrow> bytes" where
  "sent_bytes s = concat (map (\<lambda>(t, buf, chunk). chunk) (sent s))"

definition pipe_inv :: "pipe_system \<Rightarrow> bool" where
  "pipe_inv s \<longleftrightarrow>
     pipe_ok (the_pipe s) \<and> sent_bytes s = got s @ buffered (the_pipe s) \<and>
     (\<forall>(t, buf, chunk) \<in> set (sent s). length buf \<le> PIPE_BUF \<longrightarrow> chunk = buf) \<and>
     (\<forall>t \<in> readable (the_pipe s). pcount (the_pipe s) = 0 \<and> writers (the_pipe s) \<noteq> 0 \<and> rd s t \<noteq> None) \<and>
     (\<forall>t \<in> writable (the_pipe s). \<exists>buf w. wr s t = Some (buf, w) \<and> readers (the_pipe s) \<noteq> 0 \<and>
        4096 - unat (pcount (the_pipe s)) < pipe_need (length buf) w) \<and>
     (\<forall>t buf w. wr s t = Some (buf, w) \<longrightarrow> w \<le> length buf \<and> (length buf \<le> PIPE_BUF \<longrightarrow> w = 0 \<or> w = length buf))"

lemma pipe_invD:
  assumes "pipe_inv s"
  shows "pipe_ok (the_pipe s)" "sent_bytes s = got s @ buffered (the_pipe s)"
    "\<And>t buf chunk. (t, buf, chunk) \<in> set (sent s) \<Longrightarrow> length buf \<le> PIPE_BUF \<Longrightarrow> chunk = buf"
    "\<And>t. t \<in> readable (the_pipe s) \<Longrightarrow> pcount (the_pipe s) = 0 \<and> writers (the_pipe s) \<noteq> 0 \<and> rd s t \<noteq> None"
    "\<And>t. t \<in> writable (the_pipe s) \<Longrightarrow> \<exists>buf w. wr s t = Some (buf, w) \<and> readers (the_pipe s) \<noteq> 0 \<and>
        4096 - unat (pcount (the_pipe s)) < pipe_need (length buf) w"
    "\<And>t buf w. wr s t = Some (buf, w) \<Longrightarrow> w \<le> length buf \<and> (length buf \<le> PIPE_BUF \<longrightarrow> w = 0 \<or> w = length buf)"
  using assms unfolding pipe_inv_def by blast+

lemma buffered_queues [simp]:
  "buffered (p\<lparr>readable := R\<rparr>) = buffered p" "buffered (p\<lparr>writable := W\<rparr>) = buffered p"
  "pipe_ok (p\<lparr>readable := R\<rparr>) = pipe_ok p" "pipe_ok (p\<lparr>writable := W\<rparr>) = pipe_ok p"
  by (simp_all add: buffered_def pipe_ok_def)

lemma pipe_invI:
  assumes "pipe_ok (the_pipe s)" "sent_bytes s = got s @ buffered (the_pipe s)"
    "\<And>t buf chunk. (t, buf, chunk) \<in> set (sent s) \<Longrightarrow> length buf \<le> PIPE_BUF \<Longrightarrow> chunk = buf"
    "\<And>t. t \<in> readable (the_pipe s) \<Longrightarrow> pcount (the_pipe s) = 0 \<and> writers (the_pipe s) \<noteq> 0 \<and> rd s t \<noteq> None"
    "\<And>t. t \<in> writable (the_pipe s) \<Longrightarrow> \<exists>buf w. wr s t = Some (buf, w) \<and> readers (the_pipe s) \<noteq> 0 \<and>
        4096 - unat (pcount (the_pipe s)) < pipe_need (length buf) w"
    "\<And>t buf w. wr s t = Some (buf, w) \<Longrightarrow> w \<le> length buf \<and> (length buf \<le> PIPE_BUF \<longrightarrow> w = 0 \<or> w = length buf)"
  shows "pipe_inv s"
  using assms unfolding pipe_inv_def by blast

lemma after_read_simps [simp]:
  "sent (after_read t n (r, bs, q) s) = sent s" "wr (after_read t n (r, bs, q) s) = wr s"
  "got (after_read t n (r, bs, q) s) = got s @ bs"
  "rd (after_read t n (r, bs, q) s) = (rd s)(t := (if r = None then Some n else None))"
  "sent_bytes (after_read t n (r, bs, q) s) = sent_bytes s"
  "the_pipe (after_read t n (r, bs, q) s) = q\<lparr>readable := (if r = None then insert t (readable q) else readable q - {t})\<rparr>"
  by (simp_all add: after_read_def sent_bytes_def)

lemma pipe_inv_read_turn:
  assumes inv: "pipe_inv s" and run: "pipe_read_turn (the_pipe s) n nonblock = (r, bs, q)"
  shows "pipe_inv (after_read t n (r, bs, q) s)"
proof -
  note I = pipe_invD [OF inv]
  have E: "pipe_ok q" "buffered (the_pipe s) = bs @ buffered q" "readers q = readers (the_pipe s)"
    "writers q = writers (the_pipe s)" "readable q = readable (the_pipe s)"
    "q = the_pipe s \<or> writable q = {}" "r = None \<Longrightarrow> q = the_pipe s \<and> pcount q = 0 \<and> writers q \<noteq> 0"
    "q \<noteq> the_pipe s \<Longrightarrow> unat (pcount q) \<le> unat (pcount (the_pipe s))"
    using pipe_read_turn_effect [OF run I(1)] by auto
  have zero: "pcount q = 0" if "pcount (the_pipe s) = 0"
    using E(8) that by (cases "q = the_pipe s") (simp_all add: unat_eq_0)
  show ?thesis
  proof (rule pipe_invI, goal_cases)
    case (4 u)
    then show ?case using I(4) [of u] E(4,5) E(7) zero by (cases "r = None"; cases "u = t") auto
  next
    case (5 u)
    then have "q = the_pipe s" using E(6) by auto
    then show ?case using I(5) [of u] 5 by simp
  qed (use E(1,2) I(2,3,6) in \<open>simp_all\<close>)
qed

lemma pipe_inv_read_stop:
  assumes inv: "pipe_inv s"
  shows "pipe_inv (after_read t n (Some r, [], the_pipe s) s)"
  by (rule pipe_invI) (use pipe_invD [OF inv] in \<open>auto\<close>)

lemma after_write_simps [simp]:
  "got (after_write t buf w (r, w', q) s) = got s" "rd (after_write t buf w (r, w', q) s) = rd s"
  "wr (after_write t buf w (r, w', q) s) = (wr s)(t := (if r = None then Some (buf, w') else None))"
  "set (sent (after_write t buf w (r, w', q) s)) = set (sent s) \<union>
     (if w < w' then {(t, buf, take (w' - w) (drop w buf))} else {})"
  "w \<le> w' \<Longrightarrow> sent_bytes (after_write t buf w (r, w', q) s) = sent_bytes s @ take (w' - w) (drop w buf)"
  "the_pipe (after_write t buf w (r, w', q) s) = q\<lparr>writable := (if r = None then insert t (writable q) else writable q - {t})\<rparr>"
  by (simp_all add: after_write_def sent_bytes_def)

lemma pipe_inv_write_turn:
  assumes inv: "pipe_inv s" and run: "pipe_write_turn (the_pipe s) buf w nonblock = (r, w', q)"
    and w: "w \<le> length buf" "length buf \<le> PIPE_BUF \<longrightarrow> w = 0 \<or> w = length buf"
  shows "pipe_inv (after_write t buf w (r, w', q) s)"
proof -
  note I = pipe_invD [OF inv]
  obtain stop where loop: "pipe_write_loop (the_pipe s) buf w nonblock = (stop, w', q)"
    and r: "r = None \<longleftrightarrow> stop = Asleep"
    using run by (auto simp: pipe_write_turn_def split: prod.splits write_stop.splits)
  have E: "pipe_ok q" "w \<le> w'" "w' \<le> length buf"
    "buffered q = buffered (the_pipe s) @ take (w' - w) (drop w buf)"
    "readers q = readers (the_pipe s)" "writers q = writers (the_pipe s)" "writable q = writable (the_pipe s)"
    "readable q = (if w < w' then {} else readable (the_pipe s))"
    "r = None \<Longrightarrow> readers q \<noteq> 0 \<and> 4096 - unat (pcount q) < pipe_need (length buf) w'"
    "length buf \<le> PIPE_BUF \<Longrightarrow> w' = w \<or> w' = length buf"
    using pipe_write_loop_effect [OF loop I(1) w(1)] r by auto
  have grow: "unat (pcount q) = unat (pcount (the_pipe s)) + (w' - w)"
    using arg_cong [OF E(4), of length] E(2,3) by simp
  show ?thesis
  proof (rule pipe_invI, goal_cases)
    case (3 u b c)
    then show ?case using I(3) [of u b c] E(10) w(2) E(2,3) by (auto split: if_splits)
  next
    case (4 u)
    then show ?case using I(4) [of u] E(2,6,8) grow by (auto simp: unat_eq_0 split: if_splits)
  next
    case (5 u)
    show ?case
    proof (cases "u = t")
      case True then show ?thesis using 5 E(9) by (auto split: if_splits)
    next
      case False
      then obtain b x where "wr s u = Some (b, x)" "readers (the_pipe s) \<noteq> 0"
        "4096 - unat (pcount (the_pipe s)) < pipe_need (length b) x"
        using 5 I(5) [of u] E(7) by (auto split: if_splits)
      then show ?thesis using False grow E(5) by auto
    qed
  next
    case (6 u b x)
    then show ?case using I(6) [of u b x] E(3,10) w(2) by (auto split: if_splits)
  qed (use E(1,2,4) I(2) in \<open>simp_all\<close>)
qed

lemma pipe_inv_write_stop:
  assumes inv: "pipe_inv s"
  shows "pipe_inv (after_write t buf w (Some r, w, the_pipe s) s)"
proof (rule pipe_invI, goal_cases)
  case (5 u)
  then show ?case using pipe_invD(5) [OF inv, of u] by auto
qed (use pipe_invD [OF inv] in \<open>auto split: if_splits\<close>)

lemma pipe_inv_change:
  assumes inv: "pipe_inv s" and q: "pipe_ok q" "buffered q = buffered (the_pipe s)" "pcount q = pcount (the_pipe s)"
    and R: "\<And>t. t \<in> readable q \<Longrightarrow> t \<in> readable (the_pipe s) \<and> writers q \<noteq> 0"
    and W: "\<And>t. t \<in> writable q \<Longrightarrow> t \<in> writable (the_pipe s) \<and> readers q \<noteq> 0"
  shows "pipe_inv (s\<lparr>the_pipe := q\<rparr>)"
proof (rule pipe_invI, goal_cases)
  case (4 t)
  then show ?case using pipe_invD(4) [OF inv, of t] R [of t] q(3) by simp
next
  case (5 t)
  then show ?case using pipe_invD(5) [OF inv, of t] W [of t] q(3) by auto
next
  case (6 t buf w)
  then show ?case using pipe_invD(6) [OF inv] by simp
qed (use pipe_invD(2,3) [OF inv] q(1,2) in \<open>auto simp: sent_bytes_def\<close>)

lemma pipe_inv_step:
  assumes inv: "pipe_inv s" and step: "pipe_step s s'"
  shows "pipe_inv s'"
  using step
proof cases
  case (read_call t n nonblock)
  then show ?thesis using inv
    by (cases "pipe_read_turn (the_pipe s) n nonblock")
       (auto simp: pipe_read_def intro: pipe_inv_read_stop pipe_inv_read_turn)
next
  case (read_resume t n rc)
  then show ?thesis using inv
    by (cases "pipe_read_turn (the_pipe s) n False")
       (auto simp: pipe_read_woken_def intro: pipe_inv_read_stop pipe_inv_read_turn)
next
  case (write_call t buf nonblock)
  then show ?thesis using inv
    by (cases "pipe_write_turn (the_pipe s) buf 0 nonblock")
       (auto simp: pipe_write_def intro: pipe_inv_write_stop [where w = 0] pipe_inv_write_turn)
next
  case (write_resume t buf w rc)
  then show ?thesis using inv pipe_invD(6) [OF inv write_resume(2)]
    by (cases "pipe_write_turn (the_pipe s) buf w False")
       (auto simp: pipe_write_woken_def intro: pipe_inv_write_stop pipe_inv_write_turn)
next
  case (open_end e)
  have "x + 1 \<noteq> 0" if "x \<noteq> -1" for x :: u32
    using that by (metis add_eq_0_iff2)
  then show ?thesis
    unfolding open_end(1) using open_end(2) pipe_invD(1,4,5) [OF inv]
    by (intro pipe_inv_change [OF inv]) (auto simp: pipe_ref_def pipe_ok_def buffered_def split: if_splits)
next
  case (close_end e)
  show ?thesis
    unfolding close_end using pipe_invD(1,4,5) [OF inv]
    by (intro pipe_inv_change [OF inv])
       (fastforce simp: pipe_unref_def Let_def pipe_ok_def buffered_def split: if_splits)+
next
  case (kill t)
  show ?thesis unfolding kill
  proof (rule pipe_invI, goal_cases)
    case (4 u)
    then show ?case using pipe_invD(4) [OF inv, of u] by auto
  next
    case (5 u)
    then show ?case using pipe_invD(5) [OF inv, of u] by auto
  next
    case (6 u buf w)
    then show ?case using pipe_invD(6) [OF inv, of u buf w] by (auto split: if_splits)
  qed (use pipe_invD(1,2,3) [OF inv] in \<open>auto simp: sent_bytes_def\<close>)
qed

lemma pipe_inv_start: "pipe_inv pipe_start"
  by (rule pipe_invI) (simp_all add: pipe_start_def pipe_create_def pipe_ok_def buffered_def sent_bytes_def ring_span_def)

lemma pipe_inv_reachable: "pipe_reachable s \<Longrightarrow> pipe_inv s"
  unfolding pipe_reachable_def
  by (induction rule: rtranclp_induct) (auto intro: pipe_inv_start pipe_inv_step)

section \<open>Property\<close>

text \<open>
  C36.  A pipe is a byte stream under every interleaving of readers and writers, with calls that
  sleep, are interrupted or are killed: what the writers put in is, in order, what the readers got
  followed by what is in the ring, which never holds more than its capacity; a write of at most
  \<open>PIPE_BUF\<close> bytes goes in whole, never mixed with another one; and no task sleeps while it could go
  on: a sleeping reader faces an empty ring with a writer left, a sleeping writer a ring without the
  room it waits for and a reader left.
\<close>

theorem pipe_stream:
  assumes "pipe_reachable s"
  shows "sent_bytes s = got s @ buffered (the_pipe s) \<and> length (buffered (the_pipe s)) \<le> 4096 \<and>
    (\<forall>(t, buf, chunk) \<in> set (sent s). length buf \<le> PIPE_BUF \<longrightarrow> chunk = buf) \<and>
    (\<forall>t \<in> readable (the_pipe s). \<not> pipe_readable (the_pipe s)) \<and>
    (\<forall>t \<in> writable (the_pipe s). \<exists>buf w. wr s t = Some (buf, w) \<and> readers (the_pipe s) \<noteq> 0 \<and>
       4096 - length (buffered (the_pipe s)) < pipe_need (length buf) w)"
proof -
  note I = pipe_invD [OF pipe_inv_reachable [OF assms]]
  have "length (buffered (the_pipe s)) \<le> 4096" using pipe_ring.items_bound [OF I(1)] .
  moreover have "\<forall>t \<in> readable (the_pipe s). \<not> pipe_readable (the_pipe s)"
    using I(4) by (auto simp: pipe_readable_def)
  ultimately show ?thesis using I(2,3,5) by auto
qed

definition pipe_example :: pipe_system where
  "pipe_example = after_write 1 [7] 0 (pipe_write pipe_create [7] True) pipe_start"

lemma pipe_example_reachable: "pipe_reachable pipe_example"
proof -
  have "pipe_step pipe_start pipe_example"
    using write_call [of pipe_start 1 "[7]" True] by (simp add: pipe_example_def pipe_start_def)
  then show ?thesis unfolding pipe_reachable_def by blast
qed

theorem pipe_stream_witness:
  "sent pipe_example = [(1, [7], [7])] \<and> buffered (the_pipe pipe_example) = [7]"
proof -
  have "sent pipe_example = [(1, [7], [7])]" "got pipe_example = []"
    by (simp_all add: pipe_example_def pipe_write_def pipe_write_turn_def pipe_create_def pipe_start_def
        pipe_write_loop.simps pipe_need_def after_write_def)
  then show ?thesis using pipe_stream [OF pipe_example_reachable] by (simp add: sent_bytes_def)
qed

end
