(* ===== verification/Msg.thy ===== *)
theory Msg
  imports Ring
begin

text \<open>
  Input events and inter-process messages (\<open>kernel/msg/msg.c\<close>).  Each task has two rings, which may
  be missing; the ring code, written out once per function in the source, is \<open>ring_put\<close>,
  \<open>ring_peek\<close> and \<open>ring_take\<close> over the index mask of the ring.  The scheduler's \<open>task_find\<close> and
  \<open>task_current\<close> are the map \<open>tasks\<close> and the field \<open>current\<close>.
\<close>

section \<open>The code\<close>

record msg =
  mtype :: u16
  param :: u16
  msg_x :: "16 word"
  msg_y :: "16 word"
  when_ticks :: u32

record ipc_msg =
  itype :: u32
  from_pid :: u32
  arg_a :: "32 word"
  arg_b :: "32 word"
  arg_c :: "32 word"
  arg_d :: "32 word"
  ipc_va :: u64
  pitch :: u32
  ipc_flags :: u32
  ipc_str :: bytes

record 'm ring =
  slots :: "'m list"
  head :: int
  tail :: int

record mail_task =
  input :: "msg ring option"
  ipc :: "ipc_msg ring option"

record msg_state =
  input_owner_pid :: int
  tasks :: "int \<Rightarrow> mail_task option"
  current :: "int option"

abbreviation INPUT_RING_MASK :: int where "INPUT_RING_MASK \<equiv> 63"
abbreviation IPC_RING_MASK :: int where "IPC_RING_MASK \<equiv> 15"

definition ring_put :: "int \<Rightarrow> 'm \<Rightarrow> 'm ring \<Rightarrow> bool \<times> 'm ring" where
  "ring_put msk m r =
     (let next = (head r + 1) AND msk
      in if next = tail r then (False, r)
         else (True, r\<lparr>slots := (slots r)[nat (head r) := m], head := next\<rparr>))"

definition ring_peek :: "'m ring \<Rightarrow> 'm option" where
  "ring_peek r = (if tail r = head r then None else Some (slots r ! nat (tail r)))"

definition ring_take :: "int \<Rightarrow> 'm ring \<Rightarrow> 'm option \<times> 'm ring" where
  "ring_take msk r =
     (if tail r = head r then (None, r)
      else (Some (slots r ! nat (tail r)), r\<lparr>tail := (tail r + 1) AND msk\<rparr>))"

definition msg_init :: "msg_state \<Rightarrow> msg_state" where
  "msg_init s = s\<lparr>input_owner_pid := 0\<rparr>"

definition msg_post_to :: "int \<Rightarrow> msg \<Rightarrow> msg_state \<Rightarrow> msg_state" where
  "msg_post_to pid m s =
     (if pid \<le> 0 then s
      else case tasks s pid of
             None \<Rightarrow> s
           | Some t \<Rightarrow>
               (case input t of
                  None \<Rightarrow> s
                | Some r \<Rightarrow> s\<lparr>tasks := (tasks s)(pid \<mapsto> t\<lparr>input := Some (snd (ring_put INPUT_RING_MASK m r))\<rparr>)\<rparr>))"

definition msg_post :: "msg \<Rightarrow> msg_state \<Rightarrow> msg_state" where
  "msg_post m s = (if input_owner_pid s > 0 then msg_post_to (input_owner_pid s) m s else msg_post_to 1 m s)"

definition msg_get :: "msg_state \<Rightarrow> msg option \<times> msg_state" where
  "msg_get s =
     (case current s of
        None \<Rightarrow> (None, s)
      | Some pid \<Rightarrow>
          (case tasks s pid of
             None \<Rightarrow> (None, s)
           | Some t \<Rightarrow>
               (case input t of
                  None \<Rightarrow> (None, s)
                | Some r \<Rightarrow>
                    (let (m, r1) = ring_take INPUT_RING_MASK r
                     in (m, s\<lparr>tasks := (tasks s)(pid \<mapsto> t\<lparr>input := Some r1\<rparr>)\<rparr>)))))"

definition msg_peek :: "msg_state \<Rightarrow> msg option" where
  "msg_peek s =
     (case current s of
        None \<Rightarrow> None
      | Some pid \<Rightarrow>
          (case tasks s pid of
             None \<Rightarrow> None
           | Some t \<Rightarrow> (case input t of None \<Rightarrow> None | Some r \<Rightarrow> ring_peek r)))"

definition ipc_send :: "int \<Rightarrow> ipc_msg \<Rightarrow> int \<Rightarrow> msg_state \<Rightarrow> int \<times> msg_state" where
  "ipc_send target_pid m sender s =
     (if target_pid \<le> 0 then (-1, s)
      else case tasks s target_pid of
             None \<Rightarrow> (-1, s)
           | Some t \<Rightarrow>
               (case ipc t of
                  None \<Rightarrow> (-1, s)
                | Some r \<Rightarrow>
                    (let (sent, r1) = ring_put IPC_RING_MASK (m\<lparr>from_pid := word_of_int sender\<rparr>) r
                     in if sent then (0, s\<lparr>tasks := (tasks s)(target_pid \<mapsto> t\<lparr>ipc := Some r1\<rparr>)\<rparr>) else (-1, s))))"

definition ipc_recv :: "msg_state \<Rightarrow> ipc_msg option \<times> msg_state" where
  "ipc_recv s =
     (case current s of
        None \<Rightarrow> (None, s)
      | Some pid \<Rightarrow>
          (case tasks s pid of
             None \<Rightarrow> (None, s)
           | Some t \<Rightarrow>
               (case ipc t of
                  None \<Rightarrow> (None, s)
                | Some r \<Rightarrow>
                    (let (m, r1) = ring_take IPC_RING_MASK r
                     in (m, s\<lparr>tasks := (tasks s)(pid \<mapsto> t\<lparr>ipc := Some r1\<rparr>)\<rparr>)))))"

definition msg_input_owner_register :: "int \<Rightarrow> msg_state \<Rightarrow> int \<times> msg_state" where
  "msg_input_owner_register pid s =
     (if input_owner_pid s \<noteq> 0 \<and> input_owner_pid s \<noteq> pid then (-1, s) else (0, s\<lparr>input_owner_pid := pid\<rparr>))"

definition msg_input_owner_force :: "int \<Rightarrow> msg_state \<Rightarrow> msg_state" where
  "msg_input_owner_force pid s = s\<lparr>input_owner_pid := (if pid > 0 then pid else 0)\<rparr>"

definition msg_input_owner_clear :: "int \<Rightarrow> msg_state \<Rightarrow> msg_state" where
  "msg_input_owner_clear pid s = (if input_owner_pid s = pid then s\<lparr>input_owner_pid := 0\<rparr> else s)"

definition msg_input_owner :: "msg_state \<Rightarrow> int" where
  "msg_input_owner s = input_owner_pid s"

section \<open>A ring is a bounded queue\<close>

definition ring_ok :: "nat \<Rightarrow> 'm ring \<Rightarrow> bool" where
  "ring_ok k r \<longleftrightarrow> length (slots r) = 2 ^ k \<and> 0 \<le> head r \<and> head r < 2 ^ k \<and> 0 \<le> tail r \<and> tail r < 2 ^ k"

definition pending :: "'m ring \<Rightarrow> 'm list" where
  "pending r = ring_span (slots r) (nat (tail r)) (nat ((head r - tail r) mod int (length (slots r))))"

lemma and_mask_mod: "x AND (2 ^ k - 1) = x mod 2 ^ k" for x :: int
  by (simp add: take_bit_eq_mask [symmetric] mask_eq_exp_minus_1 [symmetric] flip: take_bit_eq_mod)

lemma ring_gap:
  fixes h t N :: int
  assumes "0 \<le> h" "h < N" "0 \<le> t" "t < N"
  shows "(h - t) mod N = (if t \<le> h then h - t else h - t + N)"
proof (cases "t \<le> h")
  case False
  have "(h - t) mod N = (h - t + N) mod N" by simp
  also have "\<dots> = h - t + N" using assms False by (intro mod_pos_pos_trivial) auto
  finally show ?thesis using False by simp
qed (use assms in simp)

lemma length_pending_less: "ring_ok k r \<Longrightarrow> length (pending r) < 2 ^ k"
  by (simp add: pending_def ring_ok_def nat_less_iff)

lemma ring_next:
  fixes h :: int
  assumes "0 \<le> h" "h < 2 ^ k"
  shows "(h + 1) AND (2 ^ k - 1) = (if h + 1 = 2 ^ k then 0 else h + 1)"
  using assms unfolding and_mask_mod by (auto intro: mod_pos_pos_trivial)

lemma pending_empty: "ring_ok k r \<Longrightarrow> tail r = head r \<longleftrightarrow> pending r = []"
  unfolding pending_def length_0_conv [symmetric] length_ring_span
  by (auto simp: ring_ok_def ring_gap)

lemma ring_put_pending:
  assumes ok: "ring_ok k r" and put: "ring_put (2 ^ k - 1) m r = (b, r')"
  shows "ring_ok k r' \<and> (b \<longleftrightarrow> length (pending r) < 2 ^ k - 1) \<and>
    pending r' = (if b then pending r @ [m] else pending r) \<and> (\<not> b \<longrightarrow> r' = r)"
proof -
  let ?N = "2 ^ k :: int" and ?n = "length (pending r)"
  have N: "length (slots r) = 2 ^ k" "0 \<le> head r" "head r < ?N" "0 \<le> tail r" "tail r < ?N"
    using ok by (simp_all add: ring_ok_def)
  note nx = ring_next [OF N(2,3)]
  have n: "int ?n = (head r - tail r) mod ?N" using N by (simp add: pending_def)
  then have n': "int ?n = (if tail r \<le> head r then head r - tail r else head r - tail r + ?N)"
    using N by (simp add: ring_gap)
  have full: "(head r + 1) AND (?N - 1) = tail r \<longleftrightarrow> int ?n = ?N - 1"
    unfolding nx n' using N by auto
  show ?thesis
  proof (cases "int ?n = ?N - 1")
    case True
    then have "int ?n = int (2 ^ k - 1)" by (simp add: of_nat_diff)
    then have "?n = 2 ^ k - 1" by (simp only: of_nat_eq_iff)
    then show ?thesis using put full True ok by (simp add: ring_put_def Let_def)
  next
    case False
    have lt: "?n < 2 ^ k" using ok by (rule length_pending_less)
    have "?n \<noteq> 2 ^ k - 1" using False by (auto simp: of_nat_diff)
    then have small: "?n < 2 ^ k - 1" using lt by linarith
    have r': "r' = r\<lparr>slots := (slots r)[nat (head r) := m], head := (head r + 1) AND (?N - 1)\<rparr>" "b"
      using put full False by (auto simp: ring_put_def Let_def)
    have hd: "nat (head r) = (nat (tail r) + ?n) mod length (slots r)"
    proof -
      have "int ((nat (tail r) + ?n) mod length (slots r)) = (tail r + (head r - tail r) mod ?N) mod ?N"
        using N n by (simp add: zmod_int)
      also have "\<dots> = head r" using N by (simp add: mod_simps)
      finally show ?thesis by simp
    qed
    have gap: "nat ((((head r + 1) AND (?N - 1)) - tail r) mod ?N) = Suc ?n"
    proof -
      have "(((head r + 1) AND (?N - 1)) - tail r) mod ?N = (int ?n + 1) mod ?N"
        unfolding n and_mask_mod by (simp add: mod_simps algebra_simps)
      also have "\<dots> = int ?n + 1"
      proof (rule mod_pos_pos_trivial)
        have "Suc ?n < 2 ^ k" using small by linarith
        then have "int (Suc ?n) < int (2 ^ k)" by (simp only: of_nat_less_iff)
        then show "int ?n + 1 < ?N" by simp
      qed simp
      finally show ?thesis by simp
    qed
    have "pending r' = pending r @ [m]"
      using ring_span_snoc_update [of "slots r" ?n "nat (tail r)" m] N lt gap hd
      by (simp add: r'(1) pending_def)
    moreover have "ring_ok k r'" using ok nx by (auto simp: r'(1) ring_ok_def)
    ultimately show ?thesis using r'(2) small by simp
  qed
qed

lemma ring_take_pending:
  assumes ok: "ring_ok k r" and take: "ring_take (2 ^ k - 1) r = (m, r')"
  shows "ring_ok k r' \<and> m = (case pending r of [] \<Rightarrow> None | x # xs \<Rightarrow> Some x) \<and> pending r' = tl (pending r)"
proof (cases "tail r = head r")
  case True
  then show ?thesis using ok take pending_empty [OF ok] by (simp add: ring_take_def)
next
  case False
  let ?N = "2 ^ k :: int" and ?n = "nat ((head r - tail r) mod 2 ^ k)"
  have N: "length (slots r) = 2 ^ k" "0 \<le> head r" "head r < ?N" "0 \<le> tail r" "tail r < ?N"
    using ok by (simp_all add: ring_ok_def)
  have r': "r' = r\<lparr>tail := (tail r + 1) AND (?N - 1)\<rparr>" "m = Some (slots r ! nat (tail r))"
    using take False by (simp_all add: ring_take_def)
  have n: "0 < ?n" using False N by (auto simp: ring_gap)
  have p: "pending r = ring_span (slots r) (nat (tail r)) (1 + (?n - 1))" using N n by (simp add: pending_def)
  have gap: "nat ((head r - ((tail r + 1) AND (?N - 1))) mod ?N) = ?n - 1"
  proof -
    have "(head r - tail r) mod ?N < ?N" by simp
    have "(head r - ((tail r + 1) AND (?N - 1))) mod ?N = ((head r - tail r) mod ?N - 1) mod ?N"
      unfolding and_mask_mod by (simp add: mod_simps algebra_simps)
    also have "\<dots> = (head r - tail r) mod ?N - 1"
      using n \<open>(head r - tail r) mod ?N < ?N\<close> by (intro mod_pos_pos_trivial; linarith)
    finally show ?thesis by simp
  qed
  have t': "nat ((tail r + 1) AND (?N - 1)) = (nat (tail r) + 1) mod length (slots r)"
    using N unfolding and_mask_mod by (simp add: nat_mod_distrib nat_add_distrib nat_power_eq)
  have "pending r' = ring_span (slots r) (nat (tail r) + 1) (?n - 1)"
    using N gap t' ring_span_mod [of "slots r" "nat (tail r) + 1" "?n - 1"] by (simp add: r'(1) pending_def)
  moreover have "pending r = (slots r ! nat (tail r)) # ring_span (slots r) (nat (tail r) + 1) (?n - 1)"
    unfolding p ring_span_append using N by (simp add: ring_span_def)
  moreover have "ring_ok k r'" using ok ring_next [OF N(4,5)] by (auto simp: r'(1) ring_ok_def)
  ultimately show ?thesis using r'(2) by simp
qed

lemma ring_peek_pending:
  assumes ok: "ring_ok k r"
  shows "ring_peek r = (case pending r of [] \<Rightarrow> None | x # xs \<Rightarrow> Some x)"
  using ring_take_pending [OF ok, of "fst (ring_take (2 ^ k - 1) r)" "snd (ring_take (2 ^ k - 1) r)"]
  by (simp add: ring_peek_def ring_take_def split: if_splits)

lemma ring_queue: "bounded_queue pending (ring_ok k) (2 ^ k - 1) (ring_put (2 ^ k - 1)) (ring_take (2 ^ k - 1))"
proof (unfold_locales, goal_cases)
  case (1 q x b q')
  then show ?case using ring_put_pending [of k q x b q'] by simp
next
  case (2 q m q')
  then show ?case using ring_take_pending [of k q m q'] by simp
qed

interpretation input_ring: bounded_queue pending "ring_ok 6" 63 "ring_put INPUT_RING_MASK" "ring_take INPUT_RING_MASK"
  using ring_queue [of 6] by simp

interpretation ipc_ring: bounded_queue pending "ring_ok 4" 15 "ring_put IPC_RING_MASK" "ring_take IPC_RING_MASK"
  using ring_queue [of 4] by simp

section \<open>Specification: mailboxes\<close>

text \<open>
  What the component promises: two mailboxes per task, lists of at most 63 events and 15 messages.
  An element for a full or missing mailbox is dropped (events) or refused (messages).
\<close>

record mailboxes =
  owner_pid :: int
  events :: "int \<Rightarrow> msg list option"
  messages :: "int \<Rightarrow> ipc_msg list option"
  running :: "int option"

definition deposit :: "nat \<Rightarrow> int \<Rightarrow> 'a \<Rightarrow> (int \<Rightarrow> 'a list option) \<Rightarrow> bool \<times> (int \<Rightarrow> 'a list option)" where
  "deposit room pid x Q =
     (case Q pid of
        Some xs \<Rightarrow> if 0 < pid \<and> length xs < room then (True, Q(pid \<mapsto> xs @ [x])) else (False, Q)
      | None \<Rightarrow> (False, Q))"

definition withdraw :: "int option \<Rightarrow> (int \<Rightarrow> 'a list option) \<Rightarrow> 'a option \<times> (int \<Rightarrow> 'a list option)" where
  "withdraw who Q =
     (case who of
        Some pid \<Rightarrow> (case Q pid of Some (x # xs) \<Rightarrow> (Some x, Q(pid \<mapsto> xs)) | _ \<Rightarrow> (None, Q))
      | None \<Rightarrow> (None, Q))"

datatype msg_call = Post msg | Post_to int msg | Get | Peek | Send int ipc_msg int | Recv
  | Register int | Force int | Clear int | Switch "int option"

datatype reply = Nothing | Event "msg option" | Message "ipc_msg option" | Status int

fun mail_exec :: "msg_call \<Rightarrow> mailboxes \<Rightarrow> reply \<times> mailboxes" where
  "mail_exec (Post m) M =
     (Nothing, M\<lparr>events := snd (deposit 63 (if 0 < owner_pid M then owner_pid M else 1) m (events M))\<rparr>)"
| "mail_exec (Post_to pid m) M = (Nothing, M\<lparr>events := snd (deposit 63 pid m (events M))\<rparr>)"
| "mail_exec Get M = (let (x, Q) = withdraw (running M) (events M) in (Event x, M\<lparr>events := Q\<rparr>))"
| "mail_exec Peek M = (Event (fst (withdraw (running M) (events M))), M)"
| "mail_exec (Send pid m sender) M =
     (let (sent, Q) = deposit 15 pid (m\<lparr>from_pid := word_of_int sender\<rparr>) (messages M)
      in (Status (if sent then 0 else -1), M\<lparr>messages := Q\<rparr>))"
| "mail_exec Recv M = (let (x, Q) = withdraw (running M) (messages M) in (Message x, M\<lparr>messages := Q\<rparr>))"
| "mail_exec (Register pid) M =
     (if owner_pid M \<in> {0, pid} then (Status 0, M\<lparr>owner_pid := pid\<rparr>) else (Status (-1), M))"
| "mail_exec (Force pid) M = (Nothing, M\<lparr>owner_pid := max pid 0\<rparr>)"
| "mail_exec (Clear pid) M = (Nothing, if owner_pid M = pid then M\<lparr>owner_pid := 0\<rparr> else M)"
| "mail_exec (Switch who) M = (Nothing, M\<lparr>running := who\<rparr>)"

text \<open>The same calls on the implementation; \<open>Switch\<close> is the scheduler running another task.\<close>

fun msg_exec :: "msg_call \<Rightarrow> msg_state \<Rightarrow> reply \<times> msg_state" where
  "msg_exec (Post m) s = (Nothing, msg_post m s)"
| "msg_exec (Post_to pid m) s = (Nothing, msg_post_to pid m s)"
| "msg_exec Get s = (let (x, s1) = msg_get s in (Event x, s1))"
| "msg_exec Peek s = (Event (msg_peek s), s)"
| "msg_exec (Send pid m sender) s = (let (r, s1) = ipc_send pid m sender s in (Status r, s1))"
| "msg_exec Recv s = (let (x, s1) = ipc_recv s in (Message x, s1))"
| "msg_exec (Register pid) s = (let (r, s1) = msg_input_owner_register pid s in (Status r, s1))"
| "msg_exec (Force pid) s = (Nothing, msg_input_owner_force pid s)"
| "msg_exec (Clear pid) s = (Nothing, msg_input_owner_clear pid s)"
| "msg_exec (Switch who) s = (Nothing, s\<lparr>current := who\<rparr>)"

fun run_calls :: "(msg_call \<Rightarrow> 's \<Rightarrow> reply \<times> 's) \<Rightarrow> msg_call list \<Rightarrow> 's \<Rightarrow> reply list \<times> 's" where
  "run_calls f [] s = ([], s)"
| "run_calls f (c # cs) s = (let (r, s1) = f c s; (rs, s2) = run_calls f cs s1 in (r # rs, s2))"

section \<open>Refinement\<close>

definition mail_ok :: "msg_state \<Rightarrow> bool" where
  "mail_ok s \<longleftrightarrow>
     (\<forall>pid t. tasks s pid = Some t \<longrightarrow>
        (\<forall>r. input t = Some r \<longrightarrow> ring_ok 6 r) \<and> (\<forall>r. ipc t = Some r \<longrightarrow> ring_ok 4 r))"

definition event_lists :: "msg_state \<Rightarrow> int \<Rightarrow> msg list option" where
  "event_lists s pid = Option.bind (tasks s pid) (\<lambda>t. map_option pending (input t))"

definition message_lists :: "msg_state \<Rightarrow> int \<Rightarrow> ipc_msg list option" where
  "message_lists s pid = Option.bind (tasks s pid) (\<lambda>t. map_option pending (ipc t))"

definition mail_abs :: "msg_state \<Rightarrow> mailboxes" where
  "mail_abs s = \<lparr>owner_pid = input_owner_pid s, events = event_lists s, messages = message_lists s, running = current s\<rparr>"

lemma mail_okD:
  assumes "mail_ok s" "tasks s pid = Some t"
  shows "input t = Some r \<Longrightarrow> ring_ok 6 r" "ipc t = Some q \<Longrightarrow> ring_ok 4 q"
  using assms by (auto simp: mail_ok_def)

lemma mail_ok_input:
  "mail_ok s \<Longrightarrow> tasks s pid = Some t \<Longrightarrow> ring_ok 6 r \<Longrightarrow> mail_ok (s\<lparr>tasks := (tasks s)(pid \<mapsto> t\<lparr>input := Some r\<rparr>)\<rparr>)"
  by (auto simp: mail_ok_def)

lemma mail_ok_ipc:
  "mail_ok s \<Longrightarrow> tasks s pid = Some t \<Longrightarrow> ring_ok 4 r \<Longrightarrow> mail_ok (s\<lparr>tasks := (tasks s)(pid \<mapsto> t\<lparr>ipc := Some r\<rparr>)\<rparr>)"
  by (auto simp: mail_ok_def)

lemma event_lists_input [simp]:
  "event_lists (s\<lparr>tasks := (tasks s)(pid \<mapsto> t\<lparr>input := Some r\<rparr>)\<rparr>) = (event_lists s)(pid \<mapsto> pending r)"
  by (auto simp: event_lists_def fun_eq_iff)

lemma message_lists_input [simp]:
  "tasks s pid = Some t \<Longrightarrow> message_lists (s\<lparr>tasks := (tasks s)(pid \<mapsto> t\<lparr>input := Some r\<rparr>)\<rparr>) = message_lists s"
  by (auto simp: message_lists_def fun_eq_iff)

lemma event_lists_ipc [simp]:
  "tasks s pid = Some t \<Longrightarrow> event_lists (s\<lparr>tasks := (tasks s)(pid \<mapsto> t\<lparr>ipc := Some r\<rparr>)\<rparr>) = event_lists s"
  by (auto simp: event_lists_def fun_eq_iff)

lemma message_lists_ipc [simp]:
  "message_lists (s\<lparr>tasks := (tasks s)(pid \<mapsto> t\<lparr>ipc := Some r\<rparr>)\<rparr>) = (message_lists s)(pid \<mapsto> pending r)"
  by (auto simp: message_lists_def fun_eq_iff)

lemma msg_post_to_refines:
  assumes ok: "mail_ok s"
  shows "mail_ok (msg_post_to pid m s) \<and>
    mail_abs (msg_post_to pid m s) = (mail_abs s)\<lparr>events := snd (deposit 63 pid m (events (mail_abs s)))\<rparr>"
proof (cases "\<exists>t r. 0 < pid \<and> tasks s pid = Some t \<and> input t = Some r")
  case False
  then have "msg_post_to pid m s = s" by (auto simp: msg_post_to_def split: option.splits)
  moreover have "snd (deposit 63 pid m (event_lists s)) = event_lists s"
    using False by (auto simp: deposit_def event_lists_def split: option.splits bind_splits)
  ultimately show ?thesis using ok by (simp add: mail_abs_def)
next
  case True
  then obtain t r where t: "0 < pid" "tasks s pid = Some t" "input t = Some r" by blast
  have r: "ring_ok 6 r" using mail_okD(1) [OF ok t(2,3)] .
  have "event_lists s pid = Some (pending r)" using t by (simp add: event_lists_def)
  then show ?thesis
    using t r ok
    by (auto simp: msg_post_to_def mail_abs_def deposit_def input_ring.push_snd input_ring.push_ok fun_upd_idem
        intro: mail_ok_input)
qed

lemma withdraw_idle: "Q pid = None \<or> Q pid = Some [] \<Longrightarrow> withdraw (Some pid) Q = (None, Q)"
  by (auto simp: withdraw_def)

lemma msg_get_refines:
  assumes ok: "mail_ok s" and get: "msg_get s = (x, s')"
  shows "mail_ok s' \<and> withdraw (current s) (event_lists s) = (x, event_lists s') \<and>
    message_lists s' = message_lists s \<and> current s' = current s \<and> input_owner_pid s' = input_owner_pid s"
proof (cases "\<exists>pid t r. current s = Some pid \<and> tasks s pid = Some t \<and> input t = Some r")
  case False
  then show ?thesis using get ok
    by (auto simp: msg_get_def withdraw_def event_lists_def split: option.splits)
next
  case True
  then obtain pid t r where t: "current s = Some pid" "tasks s pid = Some t" "input t = Some r" by blast
  have r: "ring_ok 6 r" using mail_okD(1) [OF ok t(2,3)] .
  have q: "event_lists s pid = Some (pending r)" using t by (simp add: event_lists_def)
  have "x = fst (ring_take INPUT_RING_MASK r)"
    "s' = s\<lparr>tasks := (tasks s)(pid \<mapsto> t\<lparr>input := Some (snd (ring_take INPUT_RING_MASK r))\<rparr>)\<rparr>"
    using get t by (auto simp: msg_get_def split_beta)
  then show ?thesis
    using t r ok q
    by (auto simp: withdraw_def input_ring.pop_fst input_ring.pop_snd input_ring.pop_ok fun_upd_idem
        intro: mail_ok_input split: list.splits)
qed

lemma msg_peek_refines: "mail_ok s \<Longrightarrow> msg_peek s = fst (withdraw (current s) (event_lists s))"
  by (auto simp: msg_peek_def withdraw_def event_lists_def ring_peek_pending [OF mail_okD(1)]
      split: option.splits list.splits)

lemma ipc_send_refines:
  assumes ok: "mail_ok s" and send: "ipc_send pid m sender s = (st, s')"
    and dep: "deposit 15 pid (m\<lparr>from_pid := word_of_int sender\<rparr>) (message_lists s) = (b, Q)"
  shows "mail_ok s' \<and> st = (if b then 0 else -1) \<and> message_lists s' = Q \<and>
    event_lists s' = event_lists s \<and> current s' = current s \<and> input_owner_pid s' = input_owner_pid s"
proof (cases "\<exists>t r. 0 < pid \<and> tasks s pid = Some t \<and> ipc t = Some r")
  case False
  then show ?thesis using send dep ok
    by (auto simp: ipc_send_def deposit_def message_lists_def split: option.splits if_splits bind_splits)
next
  case True
  then obtain t r where t: "0 < pid" "tasks s pid = Some t" "ipc t = Some r" by blast
  have r: "ring_ok 4 r" using mail_okD(2) [OF ok t(2,3)] .
  have q: "message_lists s pid = Some (pending r)" using t by (simp add: message_lists_def)
  obtain c r' where put: "ring_put IPC_RING_MASK (m\<lparr>from_pid := word_of_int sender\<rparr>) r = (c, r')" by fastforce
  note P = ipc_ring.push_items [OF r put]
  show ?thesis
    using send dep t r ok q put P
    by (auto simp: ipc_send_def deposit_def intro: mail_ok_ipc split: if_splits)
qed

lemma ipc_recv_refines:
  assumes ok: "mail_ok s" and recv: "ipc_recv s = (x, s')"
  shows "mail_ok s' \<and> withdraw (current s) (message_lists s) = (x, message_lists s') \<and>
    event_lists s' = event_lists s \<and> current s' = current s \<and> input_owner_pid s' = input_owner_pid s"
proof (cases "\<exists>pid t r. current s = Some pid \<and> tasks s pid = Some t \<and> ipc t = Some r")
  case False
  then show ?thesis using recv ok
    by (auto simp: ipc_recv_def withdraw_def message_lists_def split: option.splits)
next
  case True
  then obtain pid t r where t: "current s = Some pid" "tasks s pid = Some t" "ipc t = Some r" by blast
  have r: "ring_ok 4 r" using mail_okD(2) [OF ok t(2,3)] .
  have q: "message_lists s pid = Some (pending r)" using t by (simp add: message_lists_def)
  have "x = fst (ring_take IPC_RING_MASK r)"
    "s' = s\<lparr>tasks := (tasks s)(pid \<mapsto> t\<lparr>ipc := Some (snd (ring_take IPC_RING_MASK r))\<rparr>)\<rparr>"
    using recv t by (auto simp: ipc_recv_def split_beta)
  then show ?thesis
    using t r ok q
    by (auto simp: withdraw_def ipc_ring.pop_fst ipc_ring.pop_snd ipc_ring.pop_ok fun_upd_idem
        intro: mail_ok_ipc split: list.splits)
qed

lemma msg_exec_refines:
  assumes ok: "mail_ok s" and run: "msg_exec c s = (r, s')"
  shows "mail_ok s' \<and> mail_exec c (mail_abs s) = (r, mail_abs s')"
proof (cases c)
  case Get
  obtain x s1 where "msg_get s = (x, s1)" by fastforce
  with msg_get_refines [OF ok this] show ?thesis using run Get by (auto simp: mail_abs_def)
next
  case Peek
  then show ?thesis using run ok msg_peek_refines [OF ok] by (auto simp: mail_abs_def)
next
  case (Send pid m sender)
  obtain st s1 where 1: "ipc_send pid m sender s = (st, s1)" by fastforce
  obtain b Q where 2: "deposit 15 pid (m\<lparr>from_pid := word_of_int sender\<rparr>) (message_lists s) = (b, Q)" by fastforce
  show ?thesis using ipc_send_refines [OF ok 1 2] run Send 1 2 by (auto simp: mail_abs_def)
next
  case Recv
  obtain x s1 where "ipc_recv s = (x, s1)" by fastforce
  with ipc_recv_refines [OF ok this] show ?thesis using run Recv by (auto simp: mail_abs_def)
qed (use run ok msg_post_to_refines [OF ok] in
  \<open>auto simp: msg_post_def msg_input_owner_register_def msg_input_owner_force_def msg_input_owner_clear_def
     mail_abs_def event_lists_def [abs_def] message_lists_def [abs_def] mail_ok_def split: if_splits\<close>)

section \<open>Property\<close>


definition mail_example :: msg_state where
  "mail_example =
     \<lparr>input_owner_pid = 0,
      tasks = [1 \<mapsto> \<lparr>input = Some \<lparr>slots = replicate 64 \<lparr>mtype = 0, param = 0, msg_x = 0, msg_y = 0, when_ticks = 0\<rparr>,
                                     head = 63, tail = 63\<rparr>, ipc = None\<rparr>],
      current = Some 1\<rparr>"


end
