(* ===== verification/Spec2Isabelle.thy ===== *)
theory Spec2Isabelle
  imports Pmm Vmm_Props Heap_Props Uvm_Props Net_Props Fat_Sync Fat_File Vfs_Lock Pipe Msg
begin

text \<open>
  Verification of the Gaia kernel: root theory.  The component theories are \<open>Pmm\<close> (physical
  frames, \<open>kernel/memory/pmm.c\<close>), \<open>Vmm\<close> and \<open>Vmm_Props\<close> (page tables, \<open>kernel/memory/vmm.c\<close>),
  \<open>Heap\<close> and \<open>Heap_Props\<close> (kernel heap, \<open>kernel/memory/heap.c\<close>).
\<close>

end
